(* ===== verification/Prelude.thy ===== *)
theory Prelude
  imports Main "HOL-Library.Word" "HOL-Library.Sublist"
begin

text \<open>
  Shared vocabulary of the development: the machine types of the Rust code, the result
  monad of fallible code, byte-buffer operations (\<open>copy_from_slice\<close>, range reads), the
  little-endian integer codec of the standard library, and positional number values of
  digit lists (used for the recovery code). Components import this theory and nothing
  below it knows about the program.
\<close>

unbundle bit_operations_syntax

type_synonym byte = "8 word"
type_synonym u32 = "32 word"
type_synonym u64 = "64 word"

named_theorems buf_simps "normal forms of byte-buffer operations"
named_theorems io_simps "unfolding of the sequencing combinators"

section \<open>Sequencing of fallible computations\<close>

text \<open>
  The \<open>?\<close> operator: \<open>bindR\<close> for pure code returning \<open>Result\<close>, \<open>bindE\<close> for code that
  also changes a state. An error stops the computation and keeps the state reached so far.
\<close>

definition bindR :: "'e + 'a \<Rightarrow> ('a \<Rightarrow> 'e + 'b) \<Rightarrow> 'e + 'b" where
  "bindR m f = (case m of Inl e \<Rightarrow> Inl e | Inr x \<Rightarrow> f x)"

lemma bindR_simps [simp, io_simps]:
  "bindR (Inl e) f = Inl e"
  "bindR (Inr x) f = f x"
  by (simp_all add: bindR_def)

lemma bindR_eq_Inr: "bindR m f = Inr y \<longleftrightarrow> (\<exists>x. m = Inr x \<and> f x = Inr y)"
  by (cases m) auto

lemma bindR_eq_Inl:
  "bindR m f = Inl e \<longleftrightarrow> m = Inl e \<or> (\<exists>x. m = Inr x \<and> f x = Inl e)"
  by (cases m) auto

definition bindE ::
  "('s \<Rightarrow> ('e + 'a) \<times> 's) \<Rightarrow> ('a \<Rightarrow> 's \<Rightarrow> ('e + 'b) \<times> 's) \<Rightarrow> 's \<Rightarrow> ('e + 'b) \<times> 's" where
  "bindE m f s = (case m s of (Inl e, s') \<Rightarrow> (Inl e, s') | (Inr x, s') \<Rightarrow> f x s')"

definition returnE :: "'a \<Rightarrow> 's \<Rightarrow> ('e + 'a) \<times> 's" where
  "returnE x s = (Inr x, s)"

definition throwE :: "'e \<Rightarrow> 's \<Rightarrow> ('e + 'a) \<times> 's" where
  "throwE e s = (Inl e, s)"

text \<open>Embedding a pure \<open>Result\<close> (\<open>liftR\<close>), converting the error (\<open>mapE\<close>), and \<open>let _ = op\<close> (\<open>ignoreE\<close>).\<close>

definition liftR :: "'e + 'a \<Rightarrow> 's \<Rightarrow> ('e + 'a) \<times> 's" where
  "liftR r s = (r, s)"

definition mapE :: "('e \<Rightarrow> 'f) \<Rightarrow> ('s \<Rightarrow> ('e + 'a) \<times> 's) \<Rightarrow> 's \<Rightarrow> ('f + 'a) \<times> 's" where
  "mapE g m s = (case m s of (Inl e, s') \<Rightarrow> (Inl (g e), s') | (Inr x, s') \<Rightarrow> (Inr x, s'))"

definition ignoreE :: "('s \<Rightarrow> ('e + 'a) \<times> 's) \<Rightarrow> 's \<Rightarrow> ('f + unit) \<times> 's" where
  "ignoreE m s = (Inr (), snd (m s))"

lemma returnE_simp [simp, io_simps]: "returnE x s = (Inr x, s)"
  by (simp add: returnE_def)

lemma throwE_simp [simp, io_simps]: "throwE x s = (Inl x, s)"
  by (simp add: throwE_def)

lemma liftR_simp [simp, io_simps]: "liftR r s = (r, s)"
  by (simp add: liftR_def)

lemma ignoreE_simp [simp, io_simps]: "ignoreE m s = (Inr (), snd (m s))"
  by (simp add: ignoreE_def)

lemma bindE_step:
  "m s = (Inl e, s') \<Longrightarrow> bindE m f s = (Inl e, s')"
  "m s = (Inr x, s') \<Longrightarrow> bindE m f s = f x s'"
  by (simp_all add: bindE_def)

lemma bindE_pure [simp]:
  "bindE (liftR (Inr x)) f = f x"
  "bindE (liftR (Inl e)) f = throwE e"
  "bindE (returnE x) f = f x"
  by (simp_all add: fun_eq_iff bindE_def)

lemma bindE_Inr_iff:
  "bindE m f s = (Inr y, t) \<longleftrightarrow> (\<exists>x s'. m s = (Inr x, s') \<and> f x s' = (Inr y, t))"
  by (auto simp: bindE_def split: prod.splits sum.splits)

lemma bindE_Inl_iff:
  "bindE m f s = (Inl e, t) \<longleftrightarrow>
     m s = (Inl e, t) \<or> (\<exists>x s'. m s = (Inr x, s') \<and> f x s' = (Inl e, t))"
  by (auto simp: bindE_def split: prod.splits sum.splits)

lemma bindE_outcome:
  assumes "bindE m f s = (r, t)"
  obtains (failed) e where "m s = (Inl e, t)" and "r = Inl e"
  | (went_on) x u where "m s = (Inr x, u)" and "f x u = (r, t)"
  using assms by (cases "m s"; cases "fst (m s)") (auto simp: bindE_def)

lemma mapE_Inr_iff: "mapE g m s = (Inr y, t) \<longleftrightarrow> m s = (Inr y, t)"
  by (auto simp: mapE_def split: prod.splits sum.splits)

lemma mapE_Inl_iff: "mapE g m s = (Inl e, t) \<longleftrightarrow> (\<exists>k. m s = (Inl k, t) \<and> e = g k)"
  by (auto simp: mapE_def split: prod.splits sum.splits)

lemma mapE_step:
  "m s = (Inl e, s') \<Longrightarrow> mapE g m s = (Inl (g e), s')"
  "m s = (Inr x, s') \<Longrightarrow> mapE g m s = (Inr x, s')"
  by (simp_all add: mapE_def)

text \<open>
  A relation between the states before and after that every step keeps is kept by a
  sequence of steps. Used for all the "only these paths change" facts.
\<close>

definition keeps :: "('s \<Rightarrow> 's \<Rightarrow> bool) \<Rightarrow> ('s \<Rightarrow> ('e + 'a) \<times> 's) \<Rightarrow> bool" where
  "keeps R m \<longleftrightarrow> (\<forall>s. R s (snd (m s)))"

definition preorderS :: "('s \<Rightarrow> 's \<Rightarrow> bool) \<Rightarrow> bool" where
  "preorderS R \<longleftrightarrow> (\<forall>s. R s s) \<and> (\<forall>s t u. R s t \<longrightarrow> R t u \<longrightarrow> R s u)"

lemma keepsI: "(\<And>s. R s (snd (m s))) \<Longrightarrow> keeps R m"
  by (simp add: keeps_def)

lemma keepsD: "keeps R m \<Longrightarrow> m s = (r, t) \<Longrightarrow> R s t"
  by (metis keeps_def snd_conv)

lemma keeps_bindE:
  assumes "preorderS R" and "keeps R m" and "\<And>x. keeps R (f x)"
  shows "keeps R (bindE m f)"
proof (rule keepsI)
  fix s
  obtain r t where m: "m s = (r, t)" by fastforce
  with assms(2) have st: "R s t" by (rule keepsD)
  show "R s (snd (bindE m f s))"
  proof (cases r)
    case (Inl e)
    with m st show ?thesis by (simp add: bindE_def)
  next
    case (Inr x)
    have "R t (snd (f x t))" using assms(3) by (simp add: keeps_def)
    with assms(1) st have "R s (snd (f x t))" unfolding preorderS_def by blast
    with m Inr show ?thesis by (simp add: bindE_def)
  qed
qed

text \<open>The same at one state, where the second step may depend on what the first returned.\<close>

lemma bindE_state:
  assumes "preorderS R" and "R s (snd (m s))" and "\<And>x t. m s = (Inr x, t) \<Longrightarrow> R t (snd (f x t))"
  shows "R s (snd (bindE m f s))"
proof -
  obtain r t where m: "m s = (r, t)" by fastforce
  show ?thesis
  proof (cases r)
    case (Inl e)
    with m assms(2) show ?thesis by (simp add: bindE_def)
  next
    case (Inr x)
    have "R s t" "R t (snd (f x t))" using assms(2,3) m Inr by auto
    with assms(1) have "R s (snd (f x t))" unfolding preorderS_def by blast
    with m Inr show ?thesis by (simp add: bindE_def)
  qed
qed

lemma mapE_state: "snd (mapE g m s) = snd (m s)"
  by (simp add: mapE_def split: prod.split sum.split)

lemma keeps_returnE: "preorderS R \<Longrightarrow> keeps R (returnE x)"
  by (simp add: keeps_def preorderS_def)

lemma keeps_throwE: "preorderS R \<Longrightarrow> keeps R (throwE x)"
  by (simp add: keeps_def preorderS_def)

lemma keeps_liftR: "preorderS R \<Longrightarrow> keeps R (liftR r)"
  by (simp add: keeps_def preorderS_def)

lemma keeps_mapE: "keeps R m \<Longrightarrow> keeps R (mapE g m)"
  by (auto simp: keeps_def mapE_def split: prod.splits sum.splits)
     (metis snd_conv)+

lemma keeps_ignoreE: "keeps R m \<Longrightarrow> keeps R (ignoreE m)"
  by (simp add: keeps_def)

lemma keeps_case_prod: "(\<And>a b. keeps R (m a b)) \<Longrightarrow> keeps R (case x of (a, b) \<Rightarrow> m a b)"
  by (cases x) simp

lemma keeps_if: "(P \<Longrightarrow> keeps R m) \<Longrightarrow> (\<not> P \<Longrightarrow> keeps R n) \<Longrightarrow> keeps R (if P then m else n)"
  by simp

lemma keeps_case_option:
  "keeps R m \<Longrightarrow> (\<And>a. keeps R (n a)) \<Longrightarrow> keeps R (case x of None \<Rightarrow> m | Some a \<Rightarrow> n a)"
  by (cases x) simp_all

lemma keeps_Let: "(\<And>a. keeps R (m a)) \<Longrightarrow> keeps R (Let x m)"
  by simp

lemmas keeps_intros = keeps_bindE keeps_returnE keeps_throwE keeps_liftR keeps_mapE keeps_ignoreE
  keeps_case_prod keeps_if keeps_case_option keeps_Let

text \<open>Total correctness: a sequence succeeds when each step succeeds after the ones before it.\<close>

definition succeeds :: "('s \<Rightarrow> ('e + 'a) \<times> 's) \<Rightarrow> 's \<Rightarrow> bool" where
  "succeeds m s \<longleftrightarrow> (\<exists>x t. m s = (Inr x, t))"

lemma succeeds_bindE:
  "succeeds m s \<Longrightarrow> (\<And>x t. m s = (Inr x, t) \<Longrightarrow> succeeds (f x) t) \<Longrightarrow> succeeds (bindE m f) s"
  unfolding succeeds_def bindE_Inr_iff by meson

lemma succeeds_returnE: "succeeds (returnE x) s"
  by (simp add: succeeds_def)

lemma succeeds_mapE: "succeeds m s \<Longrightarrow> succeeds (mapE g m) s"
  unfolding succeeds_def mapE_Inr_iff .

lemma succeeds_liftR: "r = Inr x \<Longrightarrow> succeeds (liftR r) s"
  by (simp add: succeeds_def)

lemma succeeds_ignoreE: "succeeds (ignoreE m) s"
  by (simp add: succeeds_def)

lemma succeedsI: "m s = (Inr x, t) \<Longrightarrow> succeeds m s"
  by (auto simp: succeeds_def)

lemma succeedsE: "succeeds m s \<Longrightarrow> (\<And>x t. m s = (Inr x, t) \<Longrightarrow> P) \<Longrightarrow> P"
  by (auto simp: succeeds_def)

section \<open>Byte buffers\<close>

text \<open>\<open>b[i..j]\<close> and \<open>b[i..i+len].copy_from_slice(x)\<close>, for ranges inside the buffer.\<close>

definition sub_bytes :: "'a list \<Rightarrow> nat \<Rightarrow> nat \<Rightarrow> 'a list" where
  "sub_bytes b i j = take (j - i) (drop i b)"

definition blit :: "'a list \<Rightarrow> nat \<Rightarrow> 'a list \<Rightarrow> 'a list" where
  "blit b i x = take i b @ x @ drop (i + length x) b"

lemma length_sub_bytes [simp]: "j \<le> length b \<Longrightarrow> length (sub_bytes b i j) = j - i"
  by (simp add: sub_bytes_def)

lemma nth_sub_bytes: "j \<le> length b \<Longrightarrow> m < j - i \<Longrightarrow> sub_bytes b i j ! m = b ! (i + m)"
  by (simp add: sub_bytes_def)

lemma length_blit [simp]: "i + length x \<le> length b \<Longrightarrow> length (blit b i x) = length b"
  by (simp add: blit_def)

text \<open>A write behind a finished prefix only touches the rest; a write into a zeroed rest.\<close>

lemma blit_append [buf_simps]:
  assumes "length p \<le> i"
  shows "blit (p @ q) i x = p @ blit q (i - length p) x"
  using assms by (simp add: blit_def)

lemma blit_replicate [buf_simps]:
  "i + length x \<le> n \<Longrightarrow>
     blit (replicate n z) i x = replicate i z @ x @ replicate (n - (i + length x)) z"
  by (simp add: blit_def)

lemma blit_all [buf_simps]: "length x = length p \<Longrightarrow> blit p 0 x = x"
  by (simp add: blit_def)

lemma sub_bytes_append_skip [buf_simps]:
  assumes "length p \<le> i"
  shows "sub_bytes (p @ q) i j = sub_bytes q (i - length p) (j - length p)"
proof -
  have "j - i = j - length p - (i - length p)" using assms by simp
  with assms show ?thesis by (simp add: sub_bytes_def)
qed

lemma sub_bytes_append_here [buf_simps]:
  "length p = j \<Longrightarrow> sub_bytes (p @ q) 0 j = p"
  by (simp add: sub_bytes_def)

lemma sub_bytes_all [buf_simps]: "length p = j \<Longrightarrow> sub_bytes p 0 j = p"
  by (simp add: sub_bytes_def)

lemma sub_bytes_split:
  "i \<le> j \<Longrightarrow> j \<le> k \<Longrightarrow> sub_bytes b i j @ sub_bytes b j k = sub_bytes b i k"
proof -
  assume "i \<le> j" "j \<le> k"
  then have "drop j b = drop (j - i) (drop i b)" and "k - i = (j - i) + (k - j)"
    by simp_all
  then show ?thesis by (simp add: sub_bytes_def take_add)
qed

section \<open>Little-endian integers\<close>

primrec to_le :: "nat \<Rightarrow> nat \<Rightarrow> byte list" where
  "to_le 0 v = []"
| "to_le (Suc n) v = word_of_nat v # to_le n (v div 256)"

primrec of_le :: "byte list \<Rightarrow> nat" where
  "of_le [] = 0"
| "of_le (b # bs) = unat b + 256 * of_le bs"

lemma length_to_le [simp]: "length (to_le n v) = n"
  by (induction n arbitrary: v) auto

lemma to_le_zero [simp]: "to_le n 0 = replicate n 0"
  by (induction n) auto

lemma unat_bound [simp]:
  "unat (b :: byte) < 256" "unat (v :: u32) < 4294967296" "unat (x :: u64) < 18446744073709551616"
  using unsigned_less [of b] unsigned_less [of v] unsigned_less [of x] by simp_all

lemma unat_byte_of_nat: "unat (word_of_nat v :: byte) = v mod 256"
  by (simp add: unat_of_nat)

lemma of_le_to_le: "of_le (to_le n v) = v mod 256 ^ n"
proof (induction n arbitrary: v)
  case 0
  then show ?case by simp
next
  case (Suc n)
  have "of_le (to_le (Suc n) v) = v mod 256 + 256 * (v div 256 mod 256 ^ n)"
    by (simp add: Suc unat_byte_of_nat)
  also have "\<dots> = v mod (256 * 256 ^ n)"
    by (simp add: mod_mult2_eq)
  finally show ?case by simp
qed

lemma of_le_bound: "of_le bs < 256 ^ length bs"
proof (induction bs)
  case Nil
  then show ?case by simp
next
  case (Cons b bs)
  have "unat b < 256" by simp
  with Cons have "unat b + 256 * of_le bs < 256 + 256 * (256 ^ length bs - 1)"
    by (simp add: less_eq_Suc_le)
  also have "\<dots> = 256 ^ length (b # bs)"
    by (simp add: algebra_simps)
  finally show ?case by simp
qed

lemma to_le_of_le: "length bs = n \<Longrightarrow> to_le n (of_le bs) = bs"
proof (induction bs arbitrary: n)
  case Nil
  then show ?case by simp
next
  case (Cons b bs)
  have "unat (word_of_nat (unat b + 256 * of_le bs) :: byte) = unat b"
    by (simp only: unat_byte_of_nat) simp
  then have "(word_of_nat (unat b + 256 * of_le bs) :: byte) = b"
    by (simp only: word_unat_eq_iff)
  moreover have "(unat b + 256 * of_le bs) div 256 = of_le bs"
    by simp
  ultimately show ?case using Cons by auto
qed

text \<open>\<open>u32::to_le_bytes\<close>, \<open>u32::from_le_bytes\<close> and the same for \<open>u64\<close>.\<close>

definition u32_to_le :: "u32 \<Rightarrow> byte list" where
  "u32_to_le w = to_le 4 (unat w)"

definition u32_from_le :: "byte list \<Rightarrow> u32" where
  "u32_from_le bs = word_of_nat (of_le bs)"

definition u64_to_le :: "u64 \<Rightarrow> byte list" where
  "u64_to_le w = to_le 8 (unat w)"

definition u64_from_le :: "byte list \<Rightarrow> u64" where
  "u64_from_le bs = word_of_nat (of_le bs)"

text \<open>
  The interface of a fixed-width codec: what a reader of a fixed layout relies on. Both
  directions are laws, so equality of encodings is equality of values, and a field read
  out of a larger buffer is the value written there.
\<close>

locale fixed_codec =
  fixes width :: nat
    and enc :: "'v \<Rightarrow> byte list"
    and dec :: "byte list \<Rightarrow> 'v"
  assumes enc_length: "length (enc v) = width"
    and dec_enc: "dec (enc v) = v"
    and enc_dec: "length bs = width \<Longrightarrow> enc (dec bs) = bs"
begin

lemma enc_inj: "enc v = enc v' \<longleftrightarrow> v = v'"
  by (metis dec_enc)

lemma dec_inj: "length bs = width \<Longrightarrow> length cs = width \<Longrightarrow> dec bs = dec cs \<longleftrightarrow> bs = cs"
  by (metis enc_dec)

lemma dec_field: "dec (sub_bytes (p @ enc v @ q) (length p) (length p + width)) = v"
  by (simp add: sub_bytes_def enc_length dec_enc)

end

interpretation le32: fixed_codec 4 u32_to_le u32_from_le
proof
  show "length (u32_to_le v) = 4" for v by (simp add: u32_to_le_def)
  show "u32_from_le (u32_to_le v) = v" for v
    by (simp add: u32_to_le_def u32_from_le_def of_le_to_le)
  show "u32_to_le (u32_from_le bs) = bs" if "length bs = 4" for bs
    using that of_le_bound [of bs]
    by (simp add: u32_to_le_def u32_from_le_def unat_of_nat to_le_of_le)
qed

interpretation le64: fixed_codec 8 u64_to_le u64_from_le
proof
  show "length (u64_to_le v) = 8" for v by (simp add: u64_to_le_def)
  show "u64_from_le (u64_to_le v) = v" for v
    by (simp add: u64_to_le_def u64_from_le_def of_le_to_le)
  show "u64_to_le (u64_from_le bs) = bs" if "length bs = 8" for bs
    using that of_le_bound [of bs]
    by (simp add: u64_to_le_def u64_from_le_def unat_of_nat to_le_of_le)
qed

lemmas le_codec_simps [simp] = le32.enc_length le32.dec_enc le64.enc_length le64.dec_enc

end
