(* ===== verification/Vault_Lib.thy ===== *)
theory Vault_Lib
  imports Prelude
begin

text \<open>
  \<open>crates/vault-core/src/lib.rs\<close>: the constants and the error type of the crate. Paths are
  lists of component names, the root being the empty list; strings are UTF-8 byte strings.
\<close>

type_synonym path = "string list"

text \<open>
  The kinds of \<open>std::io::Error\<close> the code distinguishes or can observe. \<open>OtherIo\<close> stands for
  every failure the operating system may report for reasons of its own.
\<close>

datatype io_kind = NotFound | UnexpectedEof | InvalidData | PermissionDenied | AlreadyExists | OtherIo

datatype verror =
    WrongPassword (attempts_left: u32)
  | LockedOut (until_unix: u64)
  | Tampered
  | BadMagic
  | BadVersion u32
  | Exists path
  | Unsupported string
  | Other string
  | Io io_kind

text \<open>\<open>MAGIC\<close> is \<open>b"FVLT"\<close>.\<close>

definition CHUNK_SIZE :: nat where
  "CHUNK_SIZE = 1024 * 1024"

definition MAGIC :: "byte list" where
  "MAGIC = [0x46, 0x56, 0x4C, 0x54]"

definition VERSION :: u32 where
  "VERSION = 1"

lemma CHUNK_SIZE_pos [simp]: "0 < CHUNK_SIZE"
  by (simp add: CHUNK_SIZE_def)

lemma length_MAGIC [simp]: "length MAGIC = 4"
  by (simp add: MAGIC_def)

end
