(* ===== verification/Lockout.thy ===== *)
theory Lockout
  imports Vault_Lib
begin

text \<open>
  \<open>crates/vault-core/src/lockout.rs\<close>: the three-attempts / 24-hour lockout machine over the
  two lockout fields of the container header. The counters keep their Rust width; \<open>+\<close> wraps,
  as in the release profile of the workspace (no \<open>overflow-checks\<close>); a debug build panics on
  the one overflow there is, \<open>fail_count = u32::MAX\<close>, which only an edited header can hold.
\<close>

section \<open>The code\<close>

definition MAX_ATTEMPTS :: u32 where
  "MAX_ATTEMPTS = 3"

definition LOCKOUT_SECS :: u64 where
  "LOCKOUT_SECS = 24 * 60 * 60"

record lockout_state =
  fail_count :: u32
  locked_until :: u64

definition lockout_default :: lockout_state where
  "lockout_default = \<lparr>fail_count = 0, locked_until = 0\<rparr>"

definition lockout_check :: "lockout_state \<Rightarrow> u64 \<Rightarrow> verror + unit" where
  "lockout_check s now =
     (if locked_until s \<noteq> 0 \<and> now < locked_until s
      then Inl (LockedOut (locked_until s)) else Inr ())"

definition record_failure :: "lockout_state \<Rightarrow> u64 \<Rightarrow> verror \<times> lockout_state" where
  "record_failure s now =
     (let s = (if locked_until s \<noteq> 0 \<and> locked_until s \<le> now
               then s\<lparr>fail_count := 0, locked_until := 0\<rparr> else s);
          s = s\<lparr>fail_count := fail_count s + 1\<rparr>
      in if MAX_ATTEMPTS \<le> fail_count s
         then let s = s\<lparr>locked_until := now + LOCKOUT_SECS\<rparr> in (LockedOut (locked_until s), s)
         else (WrongPassword (MAX_ATTEMPTS - fail_count s), s))"

definition lockout_reset :: "lockout_state \<Rightarrow> lockout_state" where
  "lockout_reset s = lockout_default"

section \<open>The state machine it implements\<close>

text \<open>
  Specification (SPEC.md, ``Lockout state machine''): either a number of failures below the
  limit has been counted, or a lockout is armed until a time. A wrong password counts one up
  and arms at the third; once an armed lockout has expired, counting starts afresh.
\<close>

datatype lock_phase = Counting nat | Armed u64

fun spec_fail :: "lock_phase \<Rightarrow> u64 \<Rightarrow> lock_phase" where
  "spec_fail (Counting n) now =
     (if Suc n < 3 then Counting (Suc n) else Armed (now + LOCKOUT_SECS))"
| "spec_fail (Armed t) now = Counting 1"

fun spec_admits :: "lock_phase \<Rightarrow> u64 \<Rightarrow> bool" where
  "spec_admits (Counting n) now = True"
| "spec_admits (Armed t) now = (t \<le> now)"

definition lock_abs :: "lockout_state \<Rightarrow> lock_phase" where
  "lock_abs s = (if locked_until s = 0 then Counting (unat (fail_count s)) else Armed (locked_until s))"

text \<open>
  Every state the code itself writes satisfies this. The time guard excludes the last day
  before the 64-bit clock ends, where \<open>now + LOCKOUT_SECS\<close> would wrap.
\<close>

definition lockout_inv :: "lockout_state \<Rightarrow> bool" where
  "lockout_inv s \<longleftrightarrow> (if locked_until s = 0 then fail_count s < 3 else fail_count s = 3)"

definition clock_ok :: "u64 \<Rightarrow> bool" where
  "clock_ok now \<longleftrightarrow> now \<le> - 1 - LOCKOUT_SECS"

definition admits :: "lockout_state \<Rightarrow> u64 \<Rightarrow> bool" where
  "admits s now \<longleftrightarrow> lockout_check s now = Inr ()"

definition after_failure :: "lockout_state \<Rightarrow> u64 \<Rightarrow> lockout_state" where
  "after_failure s now = snd (record_failure s now)"

lemma lockout_inv_default [simp]: "lockout_inv lockout_default"
  by (simp add: lockout_inv_def lockout_default_def)

lemma lock_abs_default [simp]: "lock_abs lockout_default = Counting 0"
  by (simp add: lock_abs_def lockout_default_def)

lemma admits_iff: "admits s now \<longleftrightarrow> locked_until s = 0 \<or> locked_until s \<le> now"
  by (auto simp: admits_def lockout_check_def not_less split: if_splits)

lemma lockout_check_cases:
  obtains "admits s now" "lockout_check s now = Inr ()"
  | "\<not> admits s now" "lockout_check s now = Inl (LockedOut (locked_until s))"
  by (cases "admits s now") (auto simp: admits_def lockout_check_def split: if_splits)

lemma clock_ok_add:
  assumes "clock_ok now"
  shows "unat (now + LOCKOUT_SECS) = unat now + 86400" and "now + LOCKOUT_SECS \<noteq> 0"
    and "now < now + LOCKOUT_SECS"
proof -
  have b: "unat now + 86400 < 18446744073709551616"
    using assms by (simp add: clock_ok_def LOCKOUT_SECS_def word_le_nat_alt)
  then show u: "unat (now + LOCKOUT_SECS) = unat now + 86400"
    by (simp add: LOCKOUT_SECS_def unat_word_ariths)
  then show "now + LOCKOUT_SECS \<noteq> 0" by auto
  from u show "now < now + LOCKOUT_SECS" by (simp add: word_less_nat_alt)
qed

lemma small_count_cases: "(c :: u32) < 3 \<Longrightarrow> c = 0 \<or> c = 1 \<or> c = 2"
proof -
  assume "c < 3"
  then have "unat c < 3" by (simp add: word_less_nat_alt)
  then have "unat c = 0 \<or> unat c = 1 \<or> unat c = 2" by arith
  then have "unat c = unat (0::u32) \<or> unat c = unat (1::u32) \<or> unat c = unat (2::u32)" by simp
  then show ?thesis by (simp only: word_unat_eq_iff)
qed

text \<open>What a recorded failure does, phase by phase.\<close>

lemma word_three_le [simp]: "\<not> (3 :: u32) \<le> 1" "\<not> (3 :: u32) \<le> 2"
  by (simp_all add: word_le_nat_alt)

lemma record_failure_fresh:
  "locked_until s = 0 \<Longrightarrow> fail_count s = 0 \<Longrightarrow>
     record_failure s now = (WrongPassword 2, s\<lparr>fail_count := 1, locked_until := 0\<rparr>)"
  by (simp add: record_failure_def MAX_ATTEMPTS_def)

lemma record_failure_second:
  "locked_until s = 0 \<Longrightarrow> fail_count s = 1 \<Longrightarrow>
     record_failure s now = (WrongPassword 1, s\<lparr>fail_count := 2, locked_until := 0\<rparr>)"
  by (simp add: record_failure_def MAX_ATTEMPTS_def)

lemma record_failure_third:
  "locked_until s = 0 \<Longrightarrow> fail_count s = 2 \<Longrightarrow>
     record_failure s now =
       (LockedOut (now + LOCKOUT_SECS), s\<lparr>fail_count := 3, locked_until := now + LOCKOUT_SECS\<rparr>)"
  by (simp add: record_failure_def MAX_ATTEMPTS_def)

lemma record_failure_expired:
  "locked_until s \<noteq> 0 \<Longrightarrow> locked_until s \<le> now \<Longrightarrow>
     record_failure s now = (WrongPassword 2, s\<lparr>fail_count := 1, locked_until := 0\<rparr>)"
  by (simp add: record_failure_def MAX_ATTEMPTS_def)

lemmas record_failure_phases =
  record_failure_fresh record_failure_second record_failure_third record_failure_expired

lemma lockout_phase_cases:
  assumes "lockout_inv s" and "admits s now"
  obtains (fresh) "locked_until s = 0" "fail_count s = 0"
  | (second) "locked_until s = 0" "fail_count s = 1"
  | (third) "locked_until s = 0" "fail_count s = 2"
  | (expired) "locked_until s \<noteq> 0" "locked_until s \<le> now" "fail_count s = 3"
  using assms small_count_cases [of "fail_count s"]
  by (auto simp: lockout_inv_def admits_iff split: if_splits)

lemma record_failure_step:
  assumes "lockout_inv s" and "clock_ok now" and "admits s now"
  shows "lockout_inv (after_failure s now)"
    and "lock_abs (after_failure s now) = spec_fail (lock_abs s) now"
  using clock_ok_add(2) [OF assms(2)]
  by (cases rule: lockout_phase_cases [OF assms(1,3)];
      simp add: lockout_inv_def lock_abs_def after_failure_def record_failure_phases)+

lemma admits_abs: "admits s now \<longleftrightarrow> spec_admits (lock_abs s) now"
  by (simp add: admits_iff lock_abs_def)

section \<open>How many guesses a limiter admits\<close>

text \<open>
  \<open>guesses admit fail s ts\<close> is the number of wrong passwords that are tried against the key
  when one attempt is made at each of the times \<open>ts\<close>, in that order (the clock may go back).
\<close>

fun guesses :: "('s \<Rightarrow> 't \<Rightarrow> bool) \<Rightarrow> ('s \<Rightarrow> 't \<Rightarrow> 's) \<Rightarrow> 's \<Rightarrow> 't list \<Rightarrow> nat" where
  "guesses admit fail s [] = 0"
| "guesses admit fail s (t # ts) =
     (if admit s t then Suc (guesses admit fail (fail s t) ts) else guesses admit fail s ts)"

text \<open>
  The contract of an attempt limiter inside a window of times: a budget that every admitted
  failure lowers and no other step raises.
\<close>

locale attempt_limiter =
  fixes admit :: "'s \<Rightarrow> 't \<Rightarrow> bool"
    and fail :: "'s \<Rightarrow> 't \<Rightarrow> 's"
    and inv :: "'s \<Rightarrow> bool"
    and window :: "'w \<Rightarrow> 't \<Rightarrow> bool"
    and budget :: "'w \<Rightarrow> 's \<Rightarrow> nat"
  assumes fail_inv: "inv s \<Longrightarrow> window w t \<Longrightarrow> admit s t \<Longrightarrow> inv (fail s t)"
    and fail_budget: "inv s \<Longrightarrow> window w t \<Longrightarrow> admit s t \<Longrightarrow> budget w (fail s t) < budget w s"
begin

lemma guesses_le_budget:
  "inv s \<Longrightarrow> list_all (window w) ts \<Longrightarrow> guesses admit fail s ts \<le> budget w s"
proof (induction ts arbitrary: s)
  case Nil
  then show ?case by simp
next
  case (Cons t ts)
  show ?case
  proof (cases "admit s t")
    case True
    with Cons.prems have "inv (fail s t)" and "budget w (fail s t) < budget w s"
      by (auto intro: fail_inv fail_budget)
    with Cons.IH [of "fail s t"] Cons.prems True show ?thesis by simp
  next
    case False
    with Cons show ?thesis by simp
  qed
qed

end

text \<open>
  The window is a day \<open>[lo, lo + 24h)\<close>; the budget is what is left before arming, and three
  where an armed lockout can still expire inside the window.
\<close>

definition day_window :: "u64 \<Rightarrow> u64 \<Rightarrow> bool" where
  "day_window lo t \<longleftrightarrow> clock_ok lo \<and> clock_ok t \<and> lo \<le> t \<and> t < lo + LOCKOUT_SECS"

definition day_budget :: "u64 \<Rightarrow> lockout_state \<Rightarrow> nat" where
  "day_budget lo s =
     (if locked_until s = 0 then 3 - unat (fail_count s)
      else if locked_until s < lo + LOCKOUT_SECS then 3 else 0)"

lemma day_budget_step:
  assumes "lockout_inv s" and "day_window lo t" and "admits s t"
  shows "day_budget lo (after_failure s t) < day_budget lo s"
proof -
  from assms(2) have lo: "clock_ok lo" and t: "clock_ok t" and le: "lo \<le> t" and lt: "t < lo + LOCKOUT_SECS"
    by (auto simp: day_window_def)
  note add = clock_ok_add [OF t]
  have ge: "lo + LOCKOUT_SECS \<le> t + LOCKOUT_SECS"
    using le clock_ok_add(1) [OF lo] add(1) by (simp add: word_le_nat_alt)
  have hi: "t < lo + LOCKOUT_SECS" "\<not> t + LOCKOUT_SECS < lo + LOCKOUT_SECS"
    using lt ge by auto
  show ?thesis
    by (cases rule: lockout_phase_cases [OF assms(1,3)])
      (use add(2) hi in \<open>auto simp: day_budget_def after_failure_def record_failure_phases\<close>)
qed

interpretation lockout: attempt_limiter admits after_failure lockout_inv day_window day_budget
  by unfold_locales (auto intro: record_failure_step day_budget_step simp: day_window_def)

definition wrong_attempt :: "lockout_state \<Rightarrow> u64 \<Rightarrow> lockout_state" where
  "wrong_attempt s now = (if admits s now then after_failure s now else s)"

definition spec_attempt :: "lock_phase \<Rightarrow> u64 \<Rightarrow> lock_phase" where
  "spec_attempt p now = (if spec_admits p now then spec_fail p now else p)"

text \<open>
  C12: The lockout code implements the specified state machine. From every state the code
  writes, \<open>check\<close> admits a password exactly when the specification does, the refusal names
  the end of the lockout, and an attempt with a wrong password moves to the specified next
  phase and keeps the invariant.
\<close>

theorem lockout_refines_spec:
  assumes "lockout_inv s" and "clock_ok now"
  shows "lockout_inv (wrong_attempt s now)
    \<and> lock_abs (wrong_attempt s now) = spec_attempt (lock_abs s) now
    \<and> lockout_check s now =
        (if spec_admits (lock_abs s) now then Inr () else Inl (LockedOut (locked_until s)))"
  using assms record_failure_step [OF assms]
  by (cases rule: lockout_check_cases [of s now])
    (auto simp: admits_abs wrong_attempt_def spec_attempt_def)

theorem lockout_refines_spec_witness:
  "lock_abs (wrong_attempt \<lparr>fail_count = 2, locked_until = 0\<rparr> 1800000000) = Armed 1800086400"
proof -
  have i: "lockout_inv \<lparr>fail_count = 2, locked_until = 0\<rparr>" and c: "clock_ok 1800000000"
    by (simp_all add: lockout_inv_def clock_ok_def LOCKOUT_SECS_def)
  show ?thesis
    using lockout_refines_spec [OF i c] by (simp add: lock_abs_def spec_attempt_def LOCKOUT_SECS_def)
qed

text \<open>
  C9: Within any 24 hours at most three wrong passwords are tried against the key, whatever
  the order of the attempts and however the clock moves inside the day.
\<close>

theorem at_most_three_guesses_a_day:
  assumes "lockout_inv s" and "list_all (day_window lo) ts"
  shows "guesses admits after_failure s ts \<le> 3"
proof -
  have "guesses admits after_failure s ts \<le> day_budget lo s"
    using assms by (rule lockout.guesses_le_budget)
  also have "\<dots> \<le> 3" by (simp add: day_budget_def)
  finally show ?thesis .
qed

theorem at_most_three_guesses_a_day_witness:
  "guesses admits after_failure lockout_default
     [1800000000, 1800000060, 1800000010, 1800000020, 1800000090] \<le> 3"
  by (rule at_most_three_guesses_a_day [where lo = 1800000000])
    (simp_all add: day_window_def clock_ok_def LOCKOUT_SECS_def)

text \<open>
  After the third failure the lockout holds for exactly 24 hours: every time before the
  end is refused, also one before the failure (a clock set back), and at the end a password
  is admitted again.
\<close>

theorem lockout_lasts_24h:
  assumes "clock_ok t" and "locked_until s = 0" and "fail_count s = 2"
  shows "fst (record_failure s t) = LockedOut (t + LOCKOUT_SECS)
    \<and> (\<forall>now. lockout_check (after_failure s t) now =
         (if now < t + LOCKOUT_SECS then Inl (LockedOut (t + LOCKOUT_SECS)) else Inr ()))"
  using assms clock_ok_add(2) [OF assms(1)]
  by (simp add: record_failure_def after_failure_def MAX_ATTEMPTS_def lockout_check_def)

theorem lockout_lasts_24h_witness:
  "lockout_check (after_failure \<lparr>fail_count = 2, locked_until = 0\<rparr> 1800000000) 1700000000
     = Inl (LockedOut 1800086400)"
  using lockout_lasts_24h [of 1800000000 "\<lparr>fail_count = 2, locked_until = 0\<rparr>"]
  by (simp add: clock_ok_def LOCKOUT_SECS_def)

end
