(* ===== verification/Crypto.thy ===== *)
theory Crypto
  imports Vault_Lib
begin

text \<open>
  \<open>crates/vault-core/src/crypto.rs\<close>: key derivation, key wrapping, chunk encryption. The
  primitives come from third-party crates (argon2, aes-gcm, hmac, sha2, x25519-dalek) and are
  parameters: the fields of the record \<open>crypto\<close>. What the code relies on about AES-GCM is the
  predicate \<open>gcm_laws\<close>. \<open>OsRng\<close> is a stream of bytes, consumed from the front.
\<close>

section \<open>Parameters\<close>

type_synonym key = "byte list"
type_synonym rng = "nat \<Rightarrow> byte"

text \<open>
  \<open>argon2_params\<close> is \<open>argon2::Params::new\<close> (\<open>Some msg\<close> when it refuses), \<open>argon2_hash\<close> is
  \<open>hash_password_into\<close> on password, salt and parameters. \<open>gcm_encrypt\<close> takes key, nonce,
  associated data and plaintext and returns ciphertext followed by the tag.
\<close>

record crypto =
  argon2_params :: "u32 \<Rightarrow> u32 \<Rightarrow> u32 \<Rightarrow> string option"
  argon2_hash :: "byte list \<Rightarrow> byte list \<Rightarrow> u32 \<Rightarrow> u32 \<Rightarrow> u32 \<Rightarrow> string + byte list"
  gcm_encrypt :: "key \<Rightarrow> byte list \<Rightarrow> byte list \<Rightarrow> byte list \<Rightarrow> byte list"
  gcm_decrypt :: "key \<Rightarrow> byte list \<Rightarrow> byte list \<Rightarrow> byte list \<Rightarrow> byte list option"
  hmac_sha256 :: "byte list \<Rightarrow> byte list \<Rightarrow> byte list"
  sha256 :: "byte list \<Rightarrow> byte list"
  x25519_public :: "byte list \<Rightarrow> byte list"
  x25519_dh :: "byte list \<Rightarrow> byte list \<Rightarrow> byte list"

definition KEY_LEN :: nat where "KEY_LEN = 32"
definition NONCE_LEN :: nat where "NONCE_LEN = 12"
definition TAG_LEN :: nat where "TAG_LEN = 16"
definition WRAPPED_KEY_LEN :: nat where "WRAPPED_KEY_LEN = NONCE_LEN + KEY_LEN + TAG_LEN"
definition MANIFEST_SEQ :: u64 where "MANIFEST_SEQ = - 1"

lemmas len_defs = KEY_LEN_def NONCE_LEN_def TAG_LEN_def WRAPPED_KEY_LEN_def

text \<open>
  Documented behaviour of AES-256-GCM: decryption undoes encryption, the ciphertext is the
  plaintext's length plus the 16-byte tag, and whatever decrypts was 16 bytes longer.
\<close>

definition gcm_laws :: "crypto \<Rightarrow> bool" where
  "gcm_laws cr \<longleftrightarrow>
     (\<forall>k n a p. gcm_decrypt cr k n a (gcm_encrypt cr k n a p) = Some p) \<and>
     (\<forall>k n a p. length (gcm_encrypt cr k n a p) = length p + 16) \<and>
     (\<forall>k n a c p. gcm_decrypt cr k n a c = Some p \<longrightarrow> length c = length p + 16)"

lemma gcm_lawsD:
  assumes "gcm_laws cr"
  shows "gcm_decrypt cr k n a (gcm_encrypt cr k n a p) = Some p"
    and "length (gcm_encrypt cr k n a p) = length p + 16"
    and "gcm_decrypt cr k n a c = Some p \<Longrightarrow> length c = length p + 16"
  using assms by (auto simp: gcm_laws_def)

section \<open>Random bytes\<close>

text \<open>\<open>OsRng.fill_bytes(&mut buf)\<close> on a buffer of \<open>n\<close> bytes.\<close>

definition fill_bytes :: "nat \<Rightarrow> rng \<Rightarrow> byte list \<times> rng" where
  "fill_bytes n r = (map r [0..<n], \<lambda>i. r (i + n))"

definition random_key :: "rng \<Rightarrow> key \<times> rng" where
  "random_key r = fill_bytes KEY_LEN r"

lemma length_fill_bytes [simp]: "length (fst (fill_bytes n r)) = n"
  by (simp add: fill_bytes_def)

section \<open>KDF parameters\<close>

record kdf_params =
  m_cost_kib :: u32
  t_cost :: u32
  lanes :: u32

definition kdf_default :: kdf_params where
  "kdf_default = \<lparr>m_cost_kib = 64 * 1024, t_cost = 3, lanes = 4\<rparr>"

definition MIN_M_COST_KIB :: u32 where "MIN_M_COST_KIB = 1024"
definition MAX_M_COST_KIB :: u32 where "MAX_M_COST_KIB = 1024 * 1024"
definition MAX_T_COST :: u32 where "MAX_T_COST = 16"
definition MAX_LANES :: u32 where "MAX_LANES = 16"

definition kdf_validate :: "kdf_params \<Rightarrow> verror + unit" where
  "kdf_validate p =
     (if (MIN_M_COST_KIB \<le> m_cost_kib p \<and> m_cost_kib p \<le> MAX_M_COST_KIB)
         \<and> (1 \<le> t_cost p \<and> t_cost p \<le> MAX_T_COST)
         \<and> (1 \<le> lanes p \<and> lanes p \<le> MAX_LANES)
      then Inr () else Inl Tampered)"

definition derive_kek :: "crypto \<Rightarrow> byte list \<Rightarrow> byte list \<Rightarrow> kdf_params \<Rightarrow> verror + key" where
  "derive_kek cr password salt p =
     bindR (kdf_validate p) (\<lambda>_.
     bindR (case argon2_params cr (m_cost_kib p) (t_cost p) (lanes p) of
              Some e \<Rightarrow> Inl (Other (''bad KDF params: '' @ e)) | None \<Rightarrow> Inr ()) (\<lambda>_.
       case argon2_hash cr password salt (m_cost_kib p) (t_cost p) (lanes p) of
         Inl e \<Rightarrow> Inl (Other (''kdf failed: '' @ e)) | Inr out \<Rightarrow> Inr out))"

lemma kdf_default_valid [simp]: "kdf_validate kdf_default = Inr ()"
  by (simp add: kdf_validate_def kdf_default_def MIN_M_COST_KIB_def MAX_M_COST_KIB_def
      MAX_T_COST_def MAX_LANES_def word_le_nat_alt)

text \<open>
  C13: Untrusted KDF parameters cannot make Argon2 allocate without bound: unless all three
  are in range, \<open>derive_kek\<close> reports tampering whatever the Argon2 implementation would do,
  and it only ever returns a key for at most 1 GiB of memory, 16 passes and 16 lanes.
\<close>

theorem derive_kek_bounded:
  "(kdf_validate p \<noteq> Inr () \<longrightarrow> derive_kek cr pw salt p = Inl Tampered)
   \<and> (\<forall>k. derive_kek cr pw salt p = Inr k \<longrightarrow>
        1024 \<le> unat (m_cost_kib p) \<and> unat (m_cost_kib p) \<le> 1048576
        \<and> 1 \<le> unat (t_cost p) \<and> unat (t_cost p) \<le> 16
        \<and> 1 \<le> unat (lanes p) \<and> unat (lanes p) \<le> 16)"
  by (auto simp: derive_kek_def kdf_validate_def bindR_def MIN_M_COST_KIB_def MAX_M_COST_KIB_def
      MAX_T_COST_def MAX_LANES_def word_le_nat_alt split: if_splits)

section \<open>Key wrapping\<close>

text \<open>\<open>wrap_key\<close>: nonce, then ciphertext and tag, in a 60-byte array.\<close>

definition wrap_key :: "crypto \<Rightarrow> key \<Rightarrow> key \<Rightarrow> rng \<Rightarrow> byte list \<times> rng" where
  "wrap_key cr kek dk r =
     (let (nonce, r) = fill_bytes NONCE_LEN r;
          ct = gcm_encrypt cr kek nonce [] dk;
          out = replicate WRAPPED_KEY_LEN 0;
          out = blit out 0 nonce;
          out = blit out NONCE_LEN ct
      in (out, r))"

text \<open>
  \<open>unwrap_key\<close>: \<open>None\<close> when GCM rejects. (\<open>key.copy_from_slice(&pt)\<close> would panic for a
  plaintext that is not 32 bytes long; \<open>unwrap_key_length\<close> shows there is none.)
\<close>

definition unwrap_key :: "crypto \<Rightarrow> key \<Rightarrow> byte list \<Rightarrow> key option" where
  "unwrap_key cr kek wrapped =
     gcm_decrypt cr kek (sub_bytes wrapped 0 NONCE_LEN) [] (drop NONCE_LEN wrapped)"

lemma wrap_key_eq:
  assumes "gcm_laws cr" and "length dk = 32"
  shows "fst (wrap_key cr kek dk r) =
     map r [0..<12] @ gcm_encrypt cr kek (map r [0..<12]) [] dk"
  using gcm_lawsD(2) [OF assms(1)] assms(2)
  by (simp add: wrap_key_def fill_bytes_def len_defs buf_simps)

lemma snd_wrap_key [simp]: "snd (wrap_key cr kek dk r) = (\<lambda>i. r (i + 12))"
  by (simp add: wrap_key_def fill_bytes_def len_defs)

lemma length_wrap_key:
  "gcm_laws cr \<Longrightarrow> length dk = 32 \<Longrightarrow> length (fst (wrap_key cr kek dk r)) = 60"
  using gcm_lawsD(2) by (simp add: wrap_key_eq)

lemma unwrap_wrap_key:
  assumes "gcm_laws cr" and "length dk = 32"
  shows "unwrap_key cr kek (fst (wrap_key cr kek dk r)) = Some dk"
  using gcm_lawsD(1) [OF assms(1)]
  by (simp add: unwrap_key_def wrap_key_eq [OF assms] len_defs sub_bytes_def)

lemma unwrap_key_length:
  "gcm_laws cr \<Longrightarrow> length wrapped = 60 \<Longrightarrow> unwrap_key cr kek wrapped = Some k \<Longrightarrow> length k = 32"
  by (auto simp: unwrap_key_def len_defs dest: gcm_lawsD(3))

section \<open>Chunk cipher\<close>

record chunk_cipher =
  cc_key :: key
  cc_uuid :: "byte list"

definition cc_new :: "key \<Rightarrow> byte list \<Rightarrow> chunk_cipher" where
  "cc_new dk uuid = \<lparr>cc_key = dk, cc_uuid = uuid\<rparr>"

definition cc_aad :: "chunk_cipher \<Rightarrow> u64 \<Rightarrow> byte list" where
  "cc_aad cc seq =
     (let aad = replicate 24 0;
          aad = blit aad 0 (cc_uuid cc)
      in blit aad 16 (u64_to_le seq))"

text \<open>
  \<open>seal_to\<close> without the writer: the nonce drawn, the encrypted buffer, and the frame
  \<open>nonce | blob_len | blob\<close> it writes. The length is cut to 32 bits, as the \<open>as u32\<close> does.
\<close>

definition seal_blob :: "crypto \<Rightarrow> chunk_cipher \<Rightarrow> u64 \<Rightarrow> byte list \<Rightarrow> rng \<Rightarrow> byte list" where
  "seal_blob cr cc seq plain r =
     gcm_encrypt cr (cc_key cc) (fst (fill_bytes NONCE_LEN r)) (cc_aad cc seq) plain"

definition seal_frame :: "crypto \<Rightarrow> chunk_cipher \<Rightarrow> u64 \<Rightarrow> byte list \<Rightarrow> rng \<Rightarrow> byte list" where
  "seal_frame cr cc seq plain r =
     (let scratch = seal_blob cr cc seq plain r
      in fst (fill_bytes NONCE_LEN r) @ u32_to_le (word_of_nat (length scratch)) @ scratch)"

definition open_in_place ::
  "crypto \<Rightarrow> chunk_cipher \<Rightarrow> u64 \<Rightarrow> byte list \<Rightarrow> byte list \<Rightarrow> verror + byte list" where
  "open_in_place cr cc seq nonce blob =
     (case gcm_decrypt cr (cc_key cc) nonce (cc_aad cc seq) blob of
        None \<Rightarrow> Inl Tampered | Some p \<Rightarrow> Inr p)"

lemma cc_aad_eq: "length (cc_uuid cc) = 16 \<Longrightarrow> cc_aad cc seq = cc_uuid cc @ u64_to_le seq"
  by (simp add: cc_aad_def buf_simps)

lemma open_seal_blob:
  "gcm_laws cr \<Longrightarrow>
     open_in_place cr cc seq (fst (fill_bytes NONCE_LEN r)) (seal_blob cr cc seq p r) = Inr p"
  by (simp add: open_in_place_def seal_blob_def gcm_lawsD)

lemma length_seal_blob: "gcm_laws cr \<Longrightarrow> length (seal_blob cr cc seq p r) = length p + 16"
  by (simp add: seal_blob_def gcm_lawsD)

lemma length_seal_frame: "gcm_laws cr \<Longrightarrow> length (seal_frame cr cc seq p r) = length p + 32"
  by (simp add: seal_frame_def length_seal_blob NONCE_LEN_def)

text \<open>
  The associated data of a frame determines its container and its position: two
  ciphers with 16-byte container ids give the same associated data only for the same id and
  the same sequence number. So a frame moved to another position or another container is
  authenticated against different associated data.
\<close>

theorem cc_aad_binds_position:
  assumes "length (cc_uuid c1) = 16" and "length (cc_uuid c2) = 16"
  shows "cc_aad c1 s1 = cc_aad c2 s2 \<longleftrightarrow> cc_uuid c1 = cc_uuid c2 \<and> s1 = s2"
  using assms le64.enc_inj by (auto simp: cc_aad_eq)

theorem cc_aad_binds_position_witness:
  "cc_aad (cc_new [] (replicate 16 1)) 5 \<noteq> cc_aad (cc_new [] (replicate 16 1)) 6
   \<and> cc_aad (cc_new [] (replicate 16 1)) 5 \<noteq> cc_aad (cc_new [] (replicate 16 2)) 5"
proof -
  have "length (cc_uuid (cc_new [] (replicate 16 1))) = 16"
    and "length (cc_uuid (cc_new [] (replicate 16 2))) = 16"
    by (simp_all add: cc_new_def)
  note cc_aad_binds_position [OF this(1) this(1), of 5 6] cc_aad_binds_position [OF this, of 5 5]
  moreover have "replicate 16 (1::byte) \<noteq> replicate 16 2" by (simp add: numeral_eq_Suc)
  ultimately show ?thesis by (simp add: cc_new_def)
qed

text \<open>
  A toy instance of the primitives, for evaluating witnesses: the ``tag'' repeats parts of
  key, nonce and associated data, so that every input takes part in the check.
\<close>

definition toy_pad :: "nat \<Rightarrow> byte list \<Rightarrow> byte list" where
  "toy_pad n bs = take n (bs @ replicate n 0)"

definition toy_tag :: "key \<Rightarrow> byte list \<Rightarrow> byte list \<Rightarrow> byte list" where
  "toy_tag k n a = toy_pad 4 k @ toy_pad 4 n @ toy_pad 8 (drop 16 a)"

definition toy_crypto :: crypto where
  "toy_crypto =
     \<lparr>argon2_params = (\<lambda>m t l. None),
      argon2_hash = (\<lambda>pw salt m t l. Inr (toy_pad 32 pw)),
      gcm_encrypt = (\<lambda>k n a p. p @ toy_tag k n a),
      gcm_decrypt = (\<lambda>k n a c.
         if 16 \<le> length c \<and> drop (length c - 16) c = toy_tag k n a
         then Some (take (length c - 16) c) else None),
      hmac_sha256 = (\<lambda>k m. toy_pad 32 (k @ m)),
      sha256 = (\<lambda>m. toy_pad 32 m),
      x25519_public = (\<lambda>s. s),
      x25519_dh = (\<lambda>s p. toy_pad 32 (map2 (+) s p))\<rparr>"

lemma length_toy_pad [simp]: "length (toy_pad n bs) = n"
  by (simp add: toy_pad_def)

lemma length_toy_tag [simp]: "length (toy_tag k n a) = 16"
  by (simp add: toy_tag_def)

lemma toy_crypto_laws [simp]: "gcm_laws toy_crypto"
  by (auto simp: gcm_laws_def toy_crypto_def split: if_splits)

theorem derive_kek_bounded_witness:
  "derive_kek toy_crypto [1] [] \<lparr>m_cost_kib = 4294967295, t_cost = 3, lanes = 4\<rparr> = Inl Tampered
   \<and> unat (m_cost_kib kdf_default) \<le> 1048576"
proof -
  have "kdf_validate \<lparr>m_cost_kib = 4294967295, t_cost = 3, lanes = 4\<rparr> \<noteq> Inr ()"
    by (simp add: kdf_validate_def MAX_M_COST_KIB_def word_le_nat_alt)
  moreover have "derive_kek toy_crypto [1] [] kdf_default = Inr (toy_pad 32 [1])"
    by (simp add: derive_kek_def toy_crypto_def)
  ultimately show ?thesis using derive_kek_bounded by blast
qed

end
