(* ===== verification/Header.thy ===== *)
theory Header
  imports Lockout Crypto
begin

text \<open>
  \<open>crates/vault-core/src/format.rs\<close>, the container header: a 268-byte block with magic,
  version, identifiers, wrapped keys, lockout fields and an HMAC over its first 236 bytes.
  Arrays are byte lists; \<open>wf_header\<close> records the lengths the Rust types fix.
\<close>

definition HEADER_LEN :: nat where "HEADER_LEN = 268"
definition HMAC_OFFSET :: nat where "HMAC_OFFSET = HEADER_LEN - 32"
definition MASTER_WRAP_LEN :: nat where "MASTER_WRAP_LEN = 32 + WRAPPED_KEY_LEN"

record header =
  h_uuid :: "byte list"
  h_salt :: "byte list"
  h_kdf :: kdf_params
  wrapped_dk_pw :: "byte list"
  wrapped_dk_mk :: "byte list"
  h_lockout :: lockout_state
  entry_count :: u64
  payload_len :: u64
  hmac_ok :: bool

definition wf_header :: "header \<Rightarrow> bool" where
  "wf_header h \<longleftrightarrow> length (h_uuid h) = 16 \<and> length (h_salt h) = 16
     \<and> length (wrapped_dk_pw h) = 60 \<and> length (wrapped_dk_mk h) = 92"

text \<open>\<open>Header::to_bytes\<close>, write by write; bytes 208 to 212 are reserved and stay zero.\<close>

definition header_body :: "header \<Rightarrow> byte list" where
  "header_body h =
     (let b = replicate HEADER_LEN 0;
          b = blit b 0 MAGIC;
          b = blit b 4 (u32_to_le VERSION);
          b = blit b 8 (h_uuid h);
          b = blit b 24 (h_salt h);
          b = blit b 40 (u32_to_le (m_cost_kib (h_kdf h)));
          b = blit b 44 (u32_to_le (t_cost (h_kdf h)));
          b = blit b 48 (u32_to_le (lanes (h_kdf h)));
          b = blit b 52 (wrapped_dk_pw h);
          b = blit b 112 (wrapped_dk_mk h);
          b = blit b 204 (u32_to_le (fail_count (h_lockout h)));
          b = blit b 212 (u64_to_le (locked_until (h_lockout h)));
          b = blit b 220 (u64_to_le (entry_count h));
          b = blit b 228 (u64_to_le (payload_len h))
      in b)"

definition to_bytes :: "crypto \<Rightarrow> byte list \<Rightarrow> header \<Rightarrow> byte list" where
  "to_bytes cr hmac_key h =
     (let b = header_body h
      in blit b HMAC_OFFSET (hmac_sha256 cr hmac_key (take HMAC_OFFSET b)))"

definition from_bytes :: "crypto \<Rightarrow> byte list \<Rightarrow> byte list \<Rightarrow> verror + header" where
  "from_bytes cr hmac_key b =
     (if sub_bytes b 0 4 \<noteq> MAGIC then Inl BadMagic
      else let version = u32_from_le (sub_bytes b 4 8)
      in if version \<noteq> VERSION then Inl (BadVersion version)
      else Inr \<lparr>
        h_uuid = sub_bytes b 8 24,
        h_salt = sub_bytes b 24 40,
        h_kdf = \<lparr>m_cost_kib = u32_from_le (sub_bytes b 40 44),
                 t_cost = u32_from_le (sub_bytes b 44 48),
                 lanes = u32_from_le (sub_bytes b 48 52)\<rparr>,
        wrapped_dk_pw = sub_bytes b 52 112,
        wrapped_dk_mk = sub_bytes b 112 204,
        h_lockout = \<lparr>fail_count = u32_from_le (sub_bytes b 204 208),
                     locked_until = u64_from_le (sub_bytes b 212 220)\<rparr>,
        entry_count = u64_from_le (sub_bytes b 220 228),
        payload_len = u64_from_le (sub_bytes b 228 236),
        hmac_ok = (drop HMAC_OFFSET b = hmac_sha256 cr hmac_key (take HMAC_OFFSET b))\<rparr>)"

section \<open>Layout\<close>

text \<open>The header as the concatenation of its fields.\<close>

definition header_fields :: "header \<Rightarrow> byte list" where
  "header_fields h =
     MAGIC @ u32_to_le VERSION @ h_uuid h @ h_salt h @
     u32_to_le (m_cost_kib (h_kdf h)) @ u32_to_le (t_cost (h_kdf h)) @ u32_to_le (lanes (h_kdf h)) @
     wrapped_dk_pw h @ wrapped_dk_mk h @
     u32_to_le (fail_count (h_lockout h)) @ replicate 4 0 @
     u64_to_le (locked_until (h_lockout h)) @ u64_to_le (entry_count h) @ u64_to_le (payload_len h)"

definition hmac_len_ok :: "crypto \<Rightarrow> bool" where
  "hmac_len_ok cr \<longleftrightarrow> (\<forall>k m. length (hmac_sha256 cr k m) = 32)"

lemma length_header_fields [simp]: "wf_header h \<Longrightarrow> length (header_fields h) = 236"
  by (simp add: header_fields_def wf_header_def)

lemma header_body_eq: "wf_header h \<Longrightarrow> header_body h = header_fields h @ replicate 32 0"
  by (simp add: header_body_def header_fields_def wf_header_def HEADER_LEN_def buf_simps)

lemma to_bytes_eq:
  assumes "wf_header h" and "hmac_len_ok cr"
  shows "to_bytes cr k h = header_fields h @ hmac_sha256 cr k (header_fields h)"
  using assms
  by (simp add: to_bytes_def header_body_eq HMAC_OFFSET_def HEADER_LEN_def hmac_len_ok_def buf_simps)

lemma length_to_bytes: "wf_header h \<Longrightarrow> hmac_len_ok cr \<Longrightarrow> length (to_bytes cr k h) = 268"
  by (simp add: to_bytes_eq hmac_len_ok_def)

lemma from_bytes_fields:
  assumes "wf_header h" and "length mac = 32"
  shows "from_bytes cr k (header_fields h @ mac) =
     Inr (h\<lparr>hmac_ok := (mac = hmac_sha256 cr k (header_fields h))\<rparr>)"
proof -
  have "length (header_fields h) = 236" using assms by simp
  then have "take HMAC_OFFSET (header_fields h @ mac) = header_fields h"
    and "drop HMAC_OFFSET (header_fields h @ mac) = mac"
    by (simp_all add: HMAC_OFFSET_def HEADER_LEN_def)
  then show ?thesis
    using assms
    by (simp add: from_bytes_def) (simp add: header_fields_def wf_header_def buf_simps Let_def)
qed

text \<open>What a parse says of the block, and when there is one.\<close>

definition parsed_as :: "crypto \<Rightarrow> byte list \<Rightarrow> byte list \<Rightarrow> header \<Rightarrow> bool" where
  "parsed_as cr k b h \<longleftrightarrow> h_uuid h = sub_bytes b 8 24 \<and> h_salt h = sub_bytes b 24 40
     \<and> h_kdf h = \<lparr>m_cost_kib = u32_from_le (sub_bytes b 40 44),
                  t_cost = u32_from_le (sub_bytes b 44 48), lanes = u32_from_le (sub_bytes b 48 52)\<rparr>
     \<and> wrapped_dk_pw h = sub_bytes b 52 112 \<and> wrapped_dk_mk h = sub_bytes b 112 204
     \<and> h_lockout h = \<lparr>fail_count = u32_from_le (sub_bytes b 204 208),
                      locked_until = u64_from_le (sub_bytes b 212 220)\<rparr>
     \<and> entry_count h = u64_from_le (sub_bytes b 220 228)
     \<and> payload_len h = u64_from_le (sub_bytes b 228 236)
     \<and> hmac_ok h = (drop HMAC_OFFSET b = hmac_sha256 cr k (take HMAC_OFFSET b))"

lemma from_bytes_Inr_iff:
  "from_bytes cr k b = Inr h \<longleftrightarrow>
     sub_bytes b 0 4 = MAGIC \<and> u32_from_le (sub_bytes b 4 8) = VERSION \<and> parsed_as cr k b h"
  by (cases h) (auto simp: from_bytes_def parsed_as_def Let_def)

lemma from_bytes_Inr_ex:
  "sub_bytes b 0 4 = MAGIC \<Longrightarrow> u32_from_le (sub_bytes b 4 8) = VERSION \<Longrightarrow>
     \<exists>h. from_bytes cr k b = Inr h \<and> parsed_as cr k b h"
  by (simp add: from_bytes_def parsed_as_def Let_def)

lemma from_bytes_wf:
  assumes "from_bytes cr k b = Inr h" and "length b = 268"
  shows "wf_header h"
  using assms by (auto simp: from_bytes_def wf_header_def Let_def split: if_splits)


section \<open>Properties\<close>

text \<open>
  C14: What \<open>to_bytes\<close> writes, \<open>from_bytes\<close> reads back, field by field, and the HMAC flag is
  set exactly when the reading install's key gives the same HMAC: on the same install it is
  \<open>true\<close>, on another one it tells the container is foreign but the header is still parsed.
\<close>

theorem header_roundtrip:
  assumes "wf_header h" and "hmac_len_ok cr"
  shows "length (to_bytes cr k h) = HEADER_LEN
    \<and> from_bytes cr k (to_bytes cr k h) = Inr (h\<lparr>hmac_ok := True\<rparr>)
    \<and> from_bytes cr k' (to_bytes cr k h) =
        Inr (h\<lparr>hmac_ok := (hmac_sha256 cr k (header_fields h) = hmac_sha256 cr k' (header_fields h))\<rparr>)"
  using assms length_to_bytes [OF assms]
  by (simp add: to_bytes_eq from_bytes_fields hmac_len_ok_def HEADER_LEN_def)

definition sample_header :: header where
  "sample_header = \<lparr>h_uuid = replicate 16 1, h_salt = replicate 16 2, h_kdf = kdf_default,
     wrapped_dk_pw = replicate 60 3, wrapped_dk_mk = replicate 92 4,
     h_lockout = \<lparr>fail_count = 2, locked_until = 42\<rparr>, entry_count = 7, payload_len = 1234,
     hmac_ok = True\<rparr>"

lemma wf_sample_header [simp]: "wf_header sample_header"
  by (simp add: sample_header_def wf_header_def)

lemma toy_hmac_len [simp]: "hmac_len_ok toy_crypto"
  by (simp add: hmac_len_ok_def toy_crypto_def)

theorem header_roundtrip_witness:
  "from_bytes toy_crypto (replicate 32 9) (to_bytes toy_crypto (replicate 32 9) sample_header)
     = Inr sample_header
   \<and> from_bytes toy_crypto (replicate 32 8) (to_bytes toy_crypto (replicate 32 9) sample_header)
     = Inr (sample_header\<lparr>hmac_ok := False\<rparr>)"
proof -
  have "hmac_sha256 toy_crypto (replicate 32 9) m \<noteq> hmac_sha256 toy_crypto (replicate 32 8) m" for m
    by (simp add: toy_crypto_def toy_pad_def numeral_eq_Suc)
  moreover have "sample_header\<lparr>hmac_ok := True\<rparr> = sample_header"
    by (simp add: sample_header_def)
  ultimately show ?thesis
    using header_roundtrip [OF wf_sample_header toy_hmac_len, of "replicate 32 9" "replicate 32 8"]
    by simp
qed

text \<open>
  The layout of the block (SPEC.md, ``Header''): the fields in order, with whatever the four
  reserved bytes hold.
\<close>

definition header_layout :: "header \<Rightarrow> byte list \<Rightarrow> byte list" where
  "header_layout h reserved =
     [0x46, 0x56, 0x4C, 0x54] @ u32_to_le 1 @ h_uuid h @ h_salt h @
     u32_to_le (m_cost_kib (h_kdf h)) @ u32_to_le (t_cost (h_kdf h)) @ u32_to_le (lanes (h_kdf h)) @
     wrapped_dk_pw h @ wrapped_dk_mk h @
     u32_to_le (fail_count (h_lockout h)) @ reserved @
     u64_to_le (locked_until (h_lockout h)) @ u64_to_le (entry_count h) @ u64_to_le (payload_len h)"

lemma header_layout_eq:
  "header_layout h reserved =
     MAGIC @ u32_to_le VERSION @ h_uuid h @ h_salt h @
     u32_to_le (m_cost_kib (h_kdf h)) @ u32_to_le (t_cost (h_kdf h)) @ u32_to_le (lanes (h_kdf h)) @
     wrapped_dk_pw h @ wrapped_dk_mk h @
     u32_to_le (fail_count (h_lockout h)) @ reserved @
     u64_to_le (locked_until (h_lockout h)) @ u64_to_le (entry_count h) @ u64_to_le (payload_len h)"
  by (simp add: header_layout_def MAGIC_def VERSION_def)

lemma header_fields_layout: "header_fields h = header_layout h (replicate 4 0)"
  by (simp add: header_fields_def header_layout_def MAGIC_def VERSION_def)

lemma length_header_layout [simp]:
  "wf_header h \<Longrightarrow> length reserved = 4 \<Longrightarrow> length (header_layout h reserved) = 236"
  by (simp add: header_layout_def wf_header_def)

lemma from_bytes_layout:
  assumes "wf_header h" and "length reserved = 4"
    and "hmac_ok h \<longleftrightarrow> mac = hmac_sha256 cr k (header_layout h reserved)"
  shows "from_bytes cr k (header_layout h reserved @ mac) = Inr h"
proof -
  have "length (header_layout h reserved) = 236" using assms by simp
  then have cut: "take HMAC_OFFSET (header_layout h reserved @ mac) = header_layout h reserved"
    "drop HMAC_OFFSET (header_layout h reserved @ mac) = mac"
    by (simp_all add: HMAC_OFFSET_def HEADER_LEN_def)
  have "from_bytes cr k (header_layout h reserved @ mac) =
      Inr (h\<lparr>hmac_ok := (mac = hmac_sha256 cr k (header_layout h reserved))\<rparr>)"
    using assms(1,2)
    unfolding from_bytes_def cut by (simp add: header_layout_eq wf_header_def buf_simps Let_def)
  moreover have "h\<lparr>hmac_ok := (mac = hmac_sha256 cr k (header_layout h reserved))\<rparr> = h"
    using assms(3) by (cases h) simp
  ultimately show ?thesis by simp
qed

lemma parsed_layout:
  assumes p: "from_bytes cr k b = Inr h" and l: "length b = 268"
  shows "b = header_layout h (sub_bytes b 208 212) @ drop 236 b"
    and "hmac_ok h \<longleftrightarrow> drop 236 b = hmac_sha256 cr k (header_layout h (sub_bytes b 208 212))"
proof -
  have m: "sub_bytes b 0 4 = MAGIC" and v: "u32_from_le (sub_bytes b 4 8) = VERSION" and f: "parsed_as cr k b h"
    using p by (simp_all add: from_bytes_Inr_iff)
  have v': "sub_bytes b 4 8 = u32_to_le 1"
    using v le32.enc_dec [of "sub_bytes b 4 8"] l by (simp add: VERSION_def)
  have "header_layout h (sub_bytes b 208 212) =
      sub_bytes b 0 4 @ sub_bytes b 4 8 @ sub_bytes b 8 24 @ sub_bytes b 24 40 @
      sub_bytes b 40 44 @ sub_bytes b 44 48 @ sub_bytes b 48 52 @ sub_bytes b 52 112 @
      sub_bytes b 112 204 @ sub_bytes b 204 208 @ sub_bytes b 208 212 @ sub_bytes b 212 220 @
      sub_bytes b 220 228 @ sub_bytes b 228 236"
    using f l by (simp add: header_layout_def parsed_as_def m v' MAGIC_def le32.enc_dec le64.enc_dec)
  also have "\<dots> = sub_bytes b 0 236"
    by (simp add: sub_bytes_split)
  finally have t: "header_layout h (sub_bytes b 208 212) = take 236 b"
    by (simp add: sub_bytes_def)
  then show "b = header_layout h (sub_bytes b 208 212) @ drop 236 b" by simp
  show "hmac_ok h \<longleftrightarrow> drop 236 b = hmac_sha256 cr k (header_layout h (sub_bytes b 208 212))"
    using f unfolding t by (simp add: parsed_as_def HMAC_OFFSET_def HEADER_LEN_def)
qed

text \<open>
  C15: Parsing a 268-byte block is decided completely by the layout. It reports a bad magic
  exactly when the block does not begin with ``FVLT'', a bad version (and which one) exactly when
  the magic is right and the version field is not 1, and otherwise it succeeds. The header it
  returns is the one, and the only one, whose layout the block is, with any four reserved bytes,
  and its HMAC flag says whether the last 32 bytes are the HMAC of the rest. So a block that
  verifies is what \<open>to_bytes\<close> writes for its header exactly when its reserved bytes are zero;
  the HMAC covers them, but the parser accepts any.
\<close>

theorem from_bytes_classifies:
  assumes "length b = 268" and "hmac_len_ok cr"
  shows "(from_bytes cr k b = Inl BadMagic \<longleftrightarrow> take 4 b \<noteq> [0x46, 0x56, 0x4C, 0x54])
    \<and> (\<forall>v. from_bytes cr k b = Inl (BadVersion v) \<longleftrightarrow>
          take 4 b = [0x46, 0x56, 0x4C, 0x54] \<and> sub_bytes b 4 8 = u32_to_le v \<and> v \<noteq> 1)
    \<and> ((\<exists>h. from_bytes cr k b = Inr h) \<longleftrightarrow>
          take 4 b = [0x46, 0x56, 0x4C, 0x54] \<and> sub_bytes b 4 8 = [1, 0, 0, 0])
    \<and> (\<forall>h. from_bytes cr k b = Inr h \<longleftrightarrow> wf_header h \<and> (\<exists>reserved mac. length reserved = 4
          \<and> b = header_layout h reserved @ mac
          \<and> (hmac_ok h \<longleftrightarrow> mac = hmac_sha256 cr k (header_layout h reserved))))
    \<and> (\<forall>h. from_bytes cr k b = Inr h \<and> hmac_ok h \<longrightarrow>
          (to_bytes cr k h = b \<longleftrightarrow> sub_bytes b 208 212 = [0, 0, 0, 0]))"
proof -
  let ?v = "sub_bytes b 4 8"
  have magic: "sub_bytes b 0 4 = take 4 b" "MAGIC = [0x46, 0x56, 0x4C, 0x54]" by (simp_all add: sub_bytes_def MAGIC_def)
  have v: "u32_from_le ?v = x \<longleftrightarrow> ?v = u32_to_le x" for x
    using le32.enc_dec [of ?v] assms(1) by auto
  have "to_le (Suc (Suc (Suc (Suc 0)))) 1 = [1, 0, 0, 0]" by simp
  moreover have "Suc (Suc (Suc (Suc 0))) = 4" by simp
  ultimately have one: "u32_to_le 1 = [1, 0, 0, 0]" by (simp add: u32_to_le_def)
  have 1: "from_bytes cr k b = Inl BadMagic \<longleftrightarrow> take 4 b \<noteq> [0x46, 0x56, 0x4C, 0x54]"
    by (simp add: from_bytes_def magic Let_def)
  have 2: "from_bytes cr k b = Inl (BadVersion x) \<longleftrightarrow>
      take 4 b = [0x46, 0x56, 0x4C, 0x54] \<and> ?v = u32_to_le x \<and> x \<noteq> 1" for x
    unfolding v [symmetric] by (auto simp: from_bytes_def magic Let_def VERSION_def)
  have 3: "(\<exists>h. from_bytes cr k b = Inr h) \<longleftrightarrow> take 4 b = [0x46, 0x56, 0x4C, 0x54] \<and> ?v = [1, 0, 0, 0]"
    using v [of 1] by (simp add: from_bytes_def magic Let_def VERSION_def one)
  have 4: "from_bytes cr k b = Inr h \<longleftrightarrow> wf_header h \<and> (\<exists>reserved mac. length reserved = 4
      \<and> b = header_layout h reserved @ mac
      \<and> (hmac_ok h \<longleftrightarrow> mac = hmac_sha256 cr k (header_layout h reserved)))" for h
  proof
    assume p: "from_bytes cr k b = Inr h"
    have "length (sub_bytes b 208 212) = 4" using assms(1) by simp
    with parsed_layout [OF p assms(1)] from_bytes_wf [OF p assms(1)]
    show "wf_header h \<and> (\<exists>reserved mac. length reserved = 4 \<and> b = header_layout h reserved @ mac
      \<and> (hmac_ok h \<longleftrightarrow> mac = hmac_sha256 cr k (header_layout h reserved)))" by blast
  qed (use from_bytes_layout in blast)
  have 5: "to_bytes cr k h = b \<longleftrightarrow> sub_bytes b 208 212 = [0, 0, 0, 0]"
    if p: "from_bytes cr k b = Inr h" and ok: "hmac_ok h" for h
  proof -
    let ?r = "sub_bytes b 208 212"
    have wf: "wf_header h" and r: "length ?r = 4" using from_bytes_wf [OF p assms(1)] assms(1) by simp_all
    have z: "replicate 4 0 = [0, 0, 0, (0::byte)]" by (simp add: numeral_eq_Suc)
    have to: "to_bytes cr k h = header_layout h [0, 0, 0, 0] @ hmac_sha256 cr k (header_layout h [0, 0, 0, 0])"
      using to_bytes_eq [OF wf assms(2)] by (simp add: header_fields_layout z)
    have b: "b = header_layout h ?r @ hmac_sha256 cr k (header_layout h ?r)"
      using parsed_layout [OF p assms(1)] ok by simp
    show ?thesis
    proof
      assume "to_bytes cr k h = b"
      then have "header_layout h [0, 0, 0, 0] = header_layout h ?r"
        using to b wf r by (metis append_eq_append_conv length_header_layout length_replicate z)
      then show "?r = [0, 0, 0, 0]" by (simp add: header_layout_def r)
    qed (use to b in simp)
  qed
  from 1 2 3 4 5 show ?thesis by blast
qed

theorem from_bytes_classifies_witness:
  "from_bytes toy_crypto [] (replicate 268 0) = Inl BadMagic
   \<and> from_bytes toy_crypto [] ([0x46, 0x56, 0x4C, 0x54] @ replicate 264 0) = Inl (BadVersion 0)"
proof -
  have "length (replicate 268 (0::byte)) = 268" "length ([0x46, 0x56, 0x4C, 0x54] @ replicate 264 (0::byte)) = 268"
    by simp_all
  note c = this [THEN from_bytes_classifies [OF _ toy_hmac_len, of _ "[]"]]
  have "take 4 (replicate 268 (0::byte)) = [0, 0, 0, 0]" by (simp add: numeral_eq_Suc)
  then have 1: "from_bytes toy_crypto [] (replicate 268 0) = Inl BadMagic" using c(1) by simp
  have "sub_bytes ([0x46, 0x56, 0x4C, 0x54] @ replicate 264 0) 4 8 = u32_to_le 0"
    by (simp add: sub_bytes_def u32_to_le_def take_replicate)
  then have "from_bytes toy_crypto [] ([0x46, 0x56, 0x4C, 0x54] @ replicate 264 0) = Inl (BadVersion 0)"
    using c(2) by simp
  with 1 show ?thesis by simp
qed

text \<open>
  A rewrite of the header that is interrupted leaves the first bytes of the new block and
  the rest of the old one. Where both blocks agree on a field, so does the mixture.
\<close>

definition torn_write :: "nat \<Rightarrow> byte list \<Rightarrow> byte list \<Rightarrow> byte list" where
  "torn_write n new old = take n new @ drop n old"

lemma length_torn_write [simp]: "length new = length old \<Longrightarrow> length (torn_write n new old) = length old"
  by (simp add: torn_write_def)

lemma nth_torn_write:
  "length new = length old \<Longrightarrow> k < length old \<Longrightarrow>
     torn_write n new old ! k = (if k < n then new ! k else old ! k)"
  by (auto simp: torn_write_def nth_append min_def)

lemma torn_write_agree:
  assumes "sub_bytes new i j = sub_bytes old i j" and "length new = length old" and "j \<le> length old"
  shows "sub_bytes (torn_write n new old) i j = sub_bytes old i j"
proof (rule nth_equalityI)
  show "length (sub_bytes (torn_write n new old) i j) = length (sub_bytes old i j)"
    using assms by (simp add: torn_write_def)
next
  fix m
  assume "m < length (sub_bytes (torn_write n new old) i j)"
  then have m: "m < j - i" using assms by (simp add: torn_write_def)
  have "new ! (i + m) = old ! (i + m)"
    using arg_cong [OF assms(1), of "\<lambda>x. x ! m"] m assms(2,3) by (simp add: nth_sub_bytes)
  then show "sub_bytes (torn_write n new old) i j ! m = sub_bytes old i j ! m"
    using m assms(2,3) by (simp add: nth_sub_bytes nth_torn_write)
qed

text \<open>Two headers that agree on everything but the lockout fields and the HMAC flag.\<close>

definition same_keys :: "header \<Rightarrow> header \<Rightarrow> bool" where
  "same_keys h g \<longleftrightarrow> h_uuid g = h_uuid h \<and> h_salt g = h_salt h \<and> h_kdf g = h_kdf h
     \<and> wrapped_dk_pw g = wrapped_dk_pw h \<and> wrapped_dk_mk g = wrapped_dk_mk h
     \<and> entry_count g = entry_count h \<and> payload_len g = payload_len h"

lemma same_keys_refl [simp]: "same_keys h h"
  by (simp add: same_keys_def)

lemma same_keys_trans: "same_keys f g \<Longrightarrow> same_keys g h \<Longrightarrow> same_keys f h"
  by (simp add: same_keys_def)

lemma same_keys_update [simp]:
  "same_keys h (h\<lparr>h_lockout := l\<rparr>)" "same_keys h (h\<lparr>hmac_ok := b\<rparr>)"
  by (simp_all add: same_keys_def)

text \<open>The byte ranges of the fields agree when the fields do.\<close>

definition kept_ranges :: "(nat \<times> nat) list" where
  "kept_ranges = [(0, 4), (4, 8), (8, 24), (24, 40), (40, 44), (44, 48), (48, 52), (52, 112), (112, 204),
     (220, 228), (228, 236)]"

lemma kept_ranges_agree:
  assumes pa: "from_bytes cr k a = Inr h" and pb: "from_bytes cr k b = Inr g" and keys: "same_keys h g"
    and len: "length a = 268" "length b = 268"
  shows "list_all (\<lambda>(i, j). sub_bytes b i j = sub_bytes a i j) kept_ranges"
proof -
  note p = pa [unfolded from_bytes_Inr_iff parsed_as_def] pb [unfolded from_bytes_Inr_iff parsed_as_def]
    keys [unfolded same_keys_def]
  have i32: "u32_from_le (sub_bytes b i j) = u32_from_le (sub_bytes a i j) \<Longrightarrow> j - i = 4 \<Longrightarrow> j \<le> 268 \<Longrightarrow>
      sub_bytes b i j = sub_bytes a i j" for i j
    by (rule le32.dec_inj [THEN iffD1, rotated 2]) (simp_all add: len)
  have i64: "u64_from_le (sub_bytes b i j) = u64_from_le (sub_bytes a i j) \<Longrightarrow> j - i = 8 \<Longrightarrow> j \<le> 268 \<Longrightarrow>
      sub_bytes b i j = sub_bytes a i j" for i j
    by (rule le64.dec_inj [THEN iffD1, rotated 2]) (simp_all add: len)
  have "sub_bytes b 0 4 = sub_bytes a 0 4" "sub_bytes b 8 24 = sub_bytes a 8 24"
    "sub_bytes b 24 40 = sub_bytes a 24 40" "sub_bytes b 52 112 = sub_bytes a 52 112"
    "sub_bytes b 112 204 = sub_bytes a 112 204"
    using p by metis+
  moreover have "sub_bytes b 4 8 = sub_bytes a 4 8" by (rule i32) (use p in simp_all)
  moreover have "sub_bytes b 40 44 = sub_bytes a 40 44" by (rule i32) (use p in simp_all)
  moreover have "sub_bytes b 44 48 = sub_bytes a 44 48" by (rule i32) (use p in simp_all)
  moreover have "sub_bytes b 48 52 = sub_bytes a 48 52" by (rule i32) (use p in simp_all)
  moreover have "sub_bytes b 220 228 = sub_bytes a 220 228" by (rule i64) (use p in simp_all)
  moreover have "sub_bytes b 228 236 = sub_bytes a 228 236" by (rule i64) (use p in simp_all)
  ultimately show ?thesis by (simp add: kept_ranges_def)
qed

lemma torn_header_parses:
  assumes old: "from_bytes cr k a = Inr h" "length a = 268"
    and new: "from_bytes cr k b = Inr g" "length b = 268" and keys: "same_keys h g"
  shows "\<exists>f. from_bytes cr k (torn_write n b a) = Inr f \<and> same_keys h f"
proof -
  have "list_all (\<lambda>(i, j). sub_bytes b i j = sub_bytes a i j) kept_ranges"
    by (rule kept_ranges_agree [OF old(1) new(1) keys old(2) new(2)])
  then have "list_all (\<lambda>(i, j). sub_bytes (torn_write n b a) i j = sub_bytes a i j) kept_ranges"
    using old(2) new(2) unfolding kept_ranges_def by (simp add: torn_write_agree)
  note t = this [unfolded kept_ranges_def, simplified]
  have pa: "sub_bytes a 0 4 = MAGIC" "u32_from_le (sub_bytes a 4 8) = VERSION" "parsed_as cr k a h"
    using old(1) by (simp_all add: from_bytes_Inr_iff)
  obtain f where f: "from_bytes cr k (torn_write n b a) = Inr f" "parsed_as cr k (torn_write n b a) f"
    using from_bytes_Inr_ex [of "torn_write n b a" cr k] pa(1,2) t by metis
  have "same_keys h f"
    using f(2) pa(3) t unfolding parsed_as_def same_keys_def by metis
  with f(1) show ?thesis by blast
qed

lemma to_bytes_parses:
  assumes "wf_header h" and "hmac_len_ok cr"
  shows "from_bytes cr k (to_bytes cr k h) = Inr (h\<lparr>hmac_ok := True\<rparr>)"
  using from_bytes_fields [OF assms(1)] assms(2) by (simp add: to_bytes_eq [OF assms] hmac_len_ok_def)

lemma torn_update:
  assumes "from_bytes cr k hb = Inr h" and "length hb = 268" and "hmac_len_ok cr"
  shows "\<exists>g. from_bytes cr k (torn_write n (to_bytes cr k (h\<lparr>h_lockout := l\<rparr>)) hb) = Inr g \<and> same_keys h g"
proof -
  have wf: "wf_header (h\<lparr>h_lockout := l\<rparr>)" using from_bytes_wf [OF assms(1,2)] by (simp add: wf_header_def)
  show ?thesis
    by (rule torn_header_parses [OF assms(1,2) to_bytes_parses [OF wf assms(3)]])
       (simp_all add: length_to_bytes [OF wf assms(3)] same_keys_def)
qed

text \<open>
  C16: Updating the lockout fields of a header in place is safe against interruption: whatever
  first part of the new block has reached the disk, the block still parses, and identifier,
  salt, KDF parameters, both wrapped keys and the counts are the old ones. Only the lockout
  fields and the HMAC can be damaged, which later reads treat as untrusted; the data key is
  never lost. This holds for every header block that parses, a foreign one included.
\<close>

theorem torn_lockout_update_keeps_keys:
  assumes "from_bytes cr k hb = Inr h" and "length hb = HEADER_LEN" and "hmac_len_ok cr"
  shows "\<exists>g. from_bytes cr k (torn_write n (to_bytes cr k (h\<lparr>h_lockout := l\<rparr>)) hb) = Inr g
    \<and> h_uuid g = h_uuid h \<and> h_salt g = h_salt h \<and> h_kdf g = h_kdf h
    \<and> wrapped_dk_pw g = wrapped_dk_pw h \<and> wrapped_dk_mk g = wrapped_dk_mk h
    \<and> entry_count g = entry_count h \<and> payload_len g = payload_len h"
  using torn_update [OF assms(1) _ assms(3)] assms(2) by (simp add: HEADER_LEN_def same_keys_def)

theorem torn_lockout_update_keeps_keys_witness:
  "\<exists>g. from_bytes toy_crypto [7] (torn_write 207
        (to_bytes toy_crypto [7] (sample_header\<lparr>h_lockout := \<lparr>fail_count = 3, locked_until = 99\<rparr>\<rparr>))
        (to_bytes toy_crypto [7] sample_header)) = Inr g
     \<and> wrapped_dk_pw g = replicate 60 3"
proof -
  have same: "sample_header\<lparr>hmac_ok := True\<rparr> = sample_header" by (simp add: sample_header_def)
  have "wrapped_dk_pw sample_header = replicate 60 3" by (simp add: sample_header_def)
  then show ?thesis
    using torn_lockout_update_keeps_keys [OF to_bytes_parses [OF wf_sample_header toy_hmac_len, unfolded same] _ toy_hmac_len,
        of "[7]" 207 "\<lparr>fail_count = 3, locked_until = 99\<rparr>"]
    by (auto simp: length_to_bytes HEADER_LEN_def)
qed

end
