(* ===== verification/Filesys.thy ===== *)
theory Filesys
  imports Header
begin

text \<open>
  What the code uses of \<open>std::fs\<close>, \<open>std::path\<close> and of the Recycle Bin
  (\<open>crates/vault-core/src/trash.rs\<close>). The file system is a finite table from absolute paths
  to nodes. Every system call takes one tick and may fail for a reason of the operating
  system's own: which calls fail, how much of an interrupted write reaches the disk and which
  files an interrupted recursive delete has removed are functions of the tick, given by the
  environment \<open>os\<close>. A theorem for every \<open>os\<close> covers every pattern of I/O errors, and a crash
  before call \<open>n\<close>, which is the environment in which every call from \<open>n\<close> on fails.
  Reading an already opened file is not a separate call: its failure is that of the opening.
\<close>

section \<open>Paths\<close>

definition file_name :: "path \<Rightarrow> string option" where
  "file_name p = (if p = [] \<or> last p = ''..'' then None else Some (last p))"

definition parent :: "path \<Rightarrow> path option" where
  "parent p = (if p = [] then None else Some (butlast p))"

text \<open>\<open>file_stem\<close> and \<open>extension\<close>: split at the last dot, unless it is the first character.\<close>

definition split_name :: "string \<Rightarrow> string \<times> string option" where
  "split_name n =
     (if n = ''..'' \<or> CHR ''.'' \<notin> set n then (n, None)
      else let ext = rev (takeWhile (\<lambda>c. c \<noteq> CHR ''.'') (rev n));
               stem = take (length n - length ext - 1) n
           in if stem = [] then (n, None) else (stem, Some ext))"

definition file_stem :: "path \<Rightarrow> string option" where
  "file_stem p = map_option (\<lambda>n. fst (split_name n)) (file_name p)"

definition extension :: "path \<Rightarrow> string option" where
  "extension p = Option.bind (file_name p) (\<lambda>n. snd (split_name n))"

section \<open>The table\<close>

record file_data =
  f_content :: "byte list"
  f_readonly :: bool
  f_mtime :: u64

datatype node = File file_data | Dir | Link

type_synonym fsmap = "(path \<times> node) list"

definition get :: "fsmap \<Rightarrow> path \<Rightarrow> node option" where
  "get fs p = map_of fs p"

definition put :: "path \<Rightarrow> node \<Rightarrow> fsmap \<Rightarrow> fsmap" where
  "put p n fs = (p, n) # filter (\<lambda>(q, _). q \<noteq> p) fs"

definition del :: "path \<Rightarrow> fsmap \<Rightarrow> fsmap" where
  "del p fs = filter (\<lambda>(q, _). q \<noteq> p) fs"

definition del_tree :: "path \<Rightarrow> fsmap \<Rightarrow> fsmap" where
  "del_tree p fs = filter (\<lambda>(q, _). \<not> prefix p q) fs"

definition subtree :: "path \<Rightarrow> fsmap \<Rightarrow> fsmap" where
  "subtree p fs = filter (\<lambda>(q, _). prefix p q) fs"

definition rebase :: "path \<Rightarrow> path \<Rightarrow> fsmap \<Rightarrow> fsmap" where
  "rebase p q fs = map (\<lambda>(r, n). (q @ drop (length p) r, n)) (subtree p fs)"

definition move_tree :: "path \<Rightarrow> path \<Rightarrow> fsmap \<Rightarrow> fsmap" where
  "move_tree p q fs = rebase p q fs @ del_tree q (del_tree p fs)"

definition children :: "fsmap \<Rightarrow> path \<Rightarrow> string list" where
  "children fs p = map (\<lambda>(q, _). last q) (filter (\<lambda>(q, _). q \<noteq> [] \<and> butlast q = p) fs)"

lemma map_of_filter_key:
  "map_of (filter (\<lambda>(q, _). P q) fs) p = (if P p then map_of fs p else None)"
  by (induction fs) auto

lemma get_put [simp]: "get (put p n fs) q = (if q = p then Some n else get fs q)"
  by (simp add: get_def put_def map_of_filter_key)

lemma get_del [simp]: "get (del p fs) q = (if q = p then None else get fs q)"
  by (simp add: get_def del_def map_of_filter_key)

lemma get_del_tree [simp]: "get (del_tree p fs) q = (if prefix p q then None else get fs q)"
  by (simp add: get_def del_tree_def map_of_filter_key)

lemma get_rebase:
  "get (rebase p q fs) r = (if prefix q r then get fs (p @ drop (length q) r) else None)"
proof (induction fs)
  case Nil
  then show ?case by (simp add: get_def rebase_def subtree_def)
next
  case (Cons e fs)
  obtain s n where e: "e = (s, n)" by fastforce
  show ?case
  proof (cases "prefix p s")
    case True
    then obtain t where s: "s = p @ t" by (auto elim: prefixE)
    have "q @ t = r \<longleftrightarrow> prefix q r \<and> p @ t = p @ drop (length q) r"
      by (auto elim!: prefixE)
    with s e Cons show ?thesis by (auto simp: get_def rebase_def subtree_def)
  next
    case False
    then have "s \<noteq> p @ drop (length q) r" by auto
    with False e Cons show ?thesis by (simp add: get_def rebase_def subtree_def)
  qed
qed

lemma get_move_tree [simp]:
  "get (move_tree p q fs) r =
     (if prefix q r then get fs (p @ drop (length q) r)
      else if prefix p r then None else get fs r)"
proof -
  have "get (rebase p q fs @ x) r = (case get (rebase p q fs) r of None \<Rightarrow> get x r | Some n \<Rightarrow> Some n)" for x
    by (simp add: get_def map_add_def split: option.split)
  then show ?thesis by (auto simp: move_tree_def get_rebase split: option.split)
qed

text \<open>
  The contract the staged operations rely on: lookup after storing, after removing a tree,
  and after moving one. Derived once: what is found below a moved, removed or unrelated
  directory.
\<close>

locale tree_store =
  fixes look :: "'s \<Rightarrow> 'k list \<Rightarrow> 'n option"
    and store :: "'k list \<Rightarrow> 'n \<Rightarrow> 's \<Rightarrow> 's"
    and rm_tree :: "'k list \<Rightarrow> 's \<Rightarrow> 's"
    and mv_tree :: "'k list \<Rightarrow> 'k list \<Rightarrow> 's \<Rightarrow> 's"
  assumes look_store: "look (store p n s) q = (if q = p then Some n else look s q)"
    and look_rm_tree: "look (rm_tree p s) q = (if prefix p q then None else look s q)"
    and look_mv_tree: "look (mv_tree p q s) r =
        (if prefix q r then look s (p @ drop (length q) r)
         else if prefix p r then None else look s r)"
begin

lemma below_moved: "look (mv_tree p q s) (q @ r) = look s (p @ r)"
  by (simp add: look_mv_tree)

lemma source_of_move_gone: "p \<parallel> q \<Longrightarrow> look (mv_tree p q s) (p @ r) = None"
  by (simp add: look_mv_tree) (meson parallelE prefix_prefix prefix_same_cases prefixI)

lemma beside_moved: "\<not> prefix p r \<Longrightarrow> \<not> prefix q r \<Longrightarrow> look (mv_tree p q s) r = look s r"
  by (simp add: look_mv_tree)

lemma beside_removed: "p \<parallel> q \<Longrightarrow> look (rm_tree p s) (q @ r) = look s (q @ r)"
  by (simp add: look_rm_tree) (meson parallelE prefix_prefix prefix_same_cases prefixI)

text \<open>Move a finished staging tree to its place, then remove the other copy.\<close>

lemma commit_keeps_staged:
  "p \<parallel> q \<Longrightarrow> look (rm_tree p (mv_tree t q s)) (q @ r) = look s (t @ r)"
  by (simp add: beside_removed below_moved)

end

interpretation fst: tree_store get put del_tree move_tree
  by unfold_locales simp_all

text \<open>
  A well-formed table: each path occurs once, and the parent of each node is a directory (or
  the root, which has no entry).
\<close>

definition wf_fs :: "fsmap \<Rightarrow> bool" where
  "wf_fs fs \<longleftrightarrow> distinct (map fst fs) \<and> get fs [] = None \<and>
     (\<forall>p n. get fs p = Some n \<longrightarrow> butlast p = [] \<or> get fs (butlast p) = Some Dir)"

lemma get_in_set: "get fs p \<noteq> None \<longleftrightarrow> p \<in> fst ` set fs"
  by (simp add: get_def map_of_eq_None_iff)

lemma children_iff: "item \<in> set (children fs p) \<longleftrightarrow> get fs (p @ [item]) \<noteq> None"
proof -
  have "item \<in> set (children fs p) \<longleftrightarrow> (\<exists>q \<in> fst ` set fs. q \<noteq> [] \<and> butlast q = p \<and> last q = item)"
    by (force simp: children_def)
  also have "\<dots> \<longleftrightarrow> p @ [item] \<in> fst ` set fs"
    by (metis append_butlast_last_id butlast_snoc last_snoc snoc_eq_iff_butlast)
  finally show ?thesis using get_in_set by blast
qed

lemma distinct_children:
  assumes "distinct (map fst fs)"
  shows "distinct (children fs p)"
proof -
  let ?below = "filter (\<lambda>(q, _). q \<noteq> [] \<and> butlast q = p) fs"
  have "inj_on last (set (map fst ?below))"
    by (rule inj_onI) (auto, metis append_butlast_last_id)
  moreover have "distinct (map fst ?below)"
    using assms by (simp add: distinct_map_filter)
  ultimately have "distinct (map last (map fst ?below))"
    using distinct_map [of last "map fst ?below"] by blast
  moreover have "map last (map fst ?below) = children fs p"
    unfolding children_def map_map by (rule map_cong) auto
  ultimately show ?thesis by simp
qed

lemma wf_fs_ancestor:
  assumes "wf_fs fs" and "get fs (p @ q) \<noteq> None" and "p \<noteq> []" and "q \<noteq> []"
  shows "get fs p = Some Dir"
  using assms(2,4)
proof (induction q rule: rev_induct)
  case (snoc x q)
  have d: "butlast (p @ q @ [x]) = p @ q" by (simp add: butlast_append)
  from snoc.prems assms(1,3) d have "get fs (p @ q) = Some Dir"
    unfolding wf_fs_def by (metis append_is_Nil_conv not_Some_eq)
  then show ?case using snoc.IH by (cases "q = []") auto
qed simp

section \<open>World and environment\<close>

record world =
  w_fs :: fsmap
  w_bin :: "fsmap list"
  w_rng :: rng
  w_tick :: nat
  w_progress :: "(u64 \<times> u64) list"

text \<open>
  \<open>os_shell\<close> says whether the Recycle Bin of the shell takes an item (never outside Windows);
  \<open>os_dir_mtime\<close> is the modification time the system reports for a directory.
\<close>

record os =
  os_fails :: "nat \<Rightarrow> bool"
  os_torn :: "nat \<Rightarrow> nat"
  os_gone :: "nat \<Rightarrow> path \<Rightarrow> bool"
  os_shell :: "nat \<Rightarrow> bool"
  os_dir_mtime :: "path \<Rightarrow> u64"

definition no_fail :: "os \<Rightarrow> bool" where
  "no_fail E \<longleftrightarrow> (\<forall>n. \<not> os_fails E n)"

definition calm :: os where
  "calm = \<lparr>os_fails = (\<lambda>_. False), os_torn = (\<lambda>_. 0), os_gone = (\<lambda>_ _. False),
     os_shell = (\<lambda>_. True), os_dir_mtime = (\<lambda>_. 0)\<rparr>"

lemma no_fail_calm [simp]: "no_fail calm"
  by (simp add: no_fail_def calm_def)

type_synonym 'a io = "world \<Rightarrow> (io_kind + 'a) \<times> world"
type_synonym 'a vio = "world \<Rightarrow> (verror + 'a) \<times> world"

definition sysop :: "os \<Rightarrow> (nat \<Rightarrow> world \<Rightarrow> world) \<Rightarrow> 'a io \<Rightarrow> 'a io" where
  "sysop E spoil act w =
     (let n = w_tick w; w = w\<lparr>w_tick := Suc n\<rparr>
      in if os_fails E n then (Inl OtherIo, spoil n w) else act w)"

definition unspoiled :: "nat \<Rightarrow> world \<Rightarrow> world" where
  "unspoiled n w = w"

definition upd_fs :: "(fsmap \<Rightarrow> fsmap) \<Rightarrow> world \<Rightarrow> world" where
  "upd_fs f w = w\<lparr>w_fs := f (w_fs w)\<rparr>"

definition lookup :: "world \<Rightarrow> path \<Rightarrow> node option" where
  "lookup w p = get (w_fs w) p"

text \<open>What is at a path; the root is a directory. A link is taken to lead nowhere.\<close>

definition occupied :: "world \<Rightarrow> path \<Rightarrow> bool" where
  "occupied w p \<longleftrightarrow> p = [] \<or> lookup w p \<noteq> None"

definition exists_path :: "world \<Rightarrow> path \<Rightarrow> bool" where
  "exists_path w p \<longleftrightarrow> p = [] \<or> lookup w p \<noteq> None \<and> lookup w p \<noteq> Some Link"

definition is_dir_path :: "world \<Rightarrow> path \<Rightarrow> bool" where
  "is_dir_path w p \<longleftrightarrow> p = [] \<or> lookup w p = Some Dir"

section \<open>System calls\<close>

text \<open>\<open>Path::exists\<close> and \<open>Path::is_dir\<close> ask the system, and answer \<open>false\<close> when the call fails.\<close>

definition path_exists :: "os \<Rightarrow> path \<Rightarrow> world \<Rightarrow> bool \<times> world" where
  "path_exists E p w = (\<not> os_fails E (w_tick w) \<and> exists_path w p, w\<lparr>w_tick := Suc (w_tick w)\<rparr>)"

definition path_is_dir :: "os \<Rightarrow> path \<Rightarrow> world \<Rightarrow> bool \<times> world" where
  "path_is_dir E p w = (\<not> os_fails E (w_tick w) \<and> is_dir_path w p, w\<lparr>w_tick := Suc (w_tick w)\<rparr>)"

text \<open>
  \<open>fs::metadata\<close> follows links, \<open>symlink_metadata\<close> does not; targets of links are not
  modelled, so following one reports \<open>NotFound\<close>.
\<close>

definition symlink_metadata :: "os \<Rightarrow> path \<Rightarrow> node io" where
  "symlink_metadata E p = sysop E unspoiled (\<lambda>w.
     case lookup w p of None \<Rightarrow> (Inl NotFound, w) | Some n \<Rightarrow> (Inr n, w))"

definition metadata :: "os \<Rightarrow> path \<Rightarrow> node io" where
  "metadata E p = sysop E unspoiled (\<lambda>w.
     case lookup w p of Some (File d) \<Rightarrow> (Inr (File d), w) | Some Dir \<Rightarrow> (Inr Dir, w)
     | _ \<Rightarrow> (Inl NotFound, w))"

definition node_readonly :: "node \<Rightarrow> bool" where
  "node_readonly n = (case n of File d \<Rightarrow> f_readonly d | _ \<Rightarrow> False)"

definition put_file :: "path \<Rightarrow> (file_data \<Rightarrow> file_data) \<Rightarrow> world \<Rightarrow> world" where
  "put_file p f w =
     (case lookup w p of Some (File d) \<Rightarrow> upd_fs (put p (File (f d))) w | _ \<Rightarrow> w)"

definition set_permissions :: "os \<Rightarrow> path \<Rightarrow> bool \<Rightarrow> unit io" where
  "set_permissions E p ro = sysop E unspoiled (\<lambda>w.
     if exists_path w p then (Inr (), put_file p (\<lambda>d. d\<lparr>f_readonly := ro\<rparr>) w) else (Inl NotFound, w))"

definition open_read :: "os \<Rightarrow> path \<Rightarrow> byte list io" where
  "open_read E p = sysop E unspoiled (\<lambda>w.
     case lookup w p of Some (File d) \<Rightarrow> (Inr (f_content d), w) | Some Dir \<Rightarrow> (Inl PermissionDenied, w)
     | _ \<Rightarrow> (Inl NotFound, w))"

text \<open>\<open>OpenOptions::new().read(true).write(true).open\<close>: refused on a read-only file.\<close>

definition open_rw :: "os \<Rightarrow> path \<Rightarrow> byte list io" where
  "open_rw E p = sysop E unspoiled (\<lambda>w.
     case lookup w p of
       Some (File d) \<Rightarrow> if f_readonly d then (Inl PermissionDenied, w) else (Inr (f_content d), w)
     | Some Dir \<Rightarrow> (Inl PermissionDenied, w)
     | _ \<Rightarrow> (Inl NotFound, w))"

definition parent_is_dir :: "world \<Rightarrow> path \<Rightarrow> bool" where
  "parent_is_dir w p \<longleftrightarrow> p \<noteq> [] \<and> is_dir_path w (butlast p)"

definition create_file :: "os \<Rightarrow> path \<Rightarrow> unit io" where
  "create_file E p = sysop E unspoiled (\<lambda>w.
     case lookup w p of
       None \<Rightarrow> if parent_is_dir w p
               then (Inr (), upd_fs (put p (File \<lparr>f_content = [], f_readonly = False, f_mtime = 0\<rparr>)) w)
               else (Inl NotFound, w)
     | Some (File d) \<Rightarrow> if f_readonly d then (Inl PermissionDenied, w)
               else (Inr (), put_file p (\<lambda>d. d\<lparr>f_content := []\<rparr>) w)
     | _ \<Rightarrow> (Inl PermissionDenied, w))"

text \<open>
  \<open>write_all\<close> at the end of the file being written, and over its beginning (after
  \<open>seek(Start(0))\<close>). When interrupted, a first part of the data reaches the disk.
\<close>

definition append_file :: "os \<Rightarrow> path \<Rightarrow> byte list \<Rightarrow> unit io" where
  "append_file E p bs = sysop E
     (\<lambda>n. put_file p (\<lambda>d. d\<lparr>f_content := f_content d @ take (os_torn E n) bs\<rparr>))
     (\<lambda>w. (Inr (), put_file p (\<lambda>d. d\<lparr>f_content := f_content d @ bs\<rparr>) w))"

definition overwrite_start :: "os \<Rightarrow> path \<Rightarrow> byte list \<Rightarrow> unit io" where
  "overwrite_start E p bs = sysop E
     (\<lambda>n. put_file p (\<lambda>d. d\<lparr>f_content :=
        torn_write (os_torn E n) bs (take (length bs) (f_content d)) @ drop (length bs) (f_content d)\<rparr>))
     (\<lambda>w. (Inr (), put_file p (\<lambda>d. d\<lparr>f_content := bs @ drop (length bs) (f_content d)\<rparr>) w))"

definition splice :: "nat \<Rightarrow> byte list \<Rightarrow> byte list \<Rightarrow> byte list" where
  "splice pos bs c = take pos c @ replicate (pos - length c) 0 @ bs @ drop (pos + length bs) c"

definition write_at :: "os \<Rightarrow> path \<Rightarrow> nat \<Rightarrow> byte list \<Rightarrow> unit io" where
  "write_at E p pos bs = sysop E
     (\<lambda>n. put_file p (\<lambda>d. d\<lparr>f_content := splice pos (take (os_torn E n) bs) (f_content d)\<rparr>))
     (\<lambda>w. (Inr (), put_file p (\<lambda>d. d\<lparr>f_content := splice pos bs (f_content d)\<rparr>) w))"

definition sync_all :: "os \<Rightarrow> unit io" where
  "sync_all E = sysop E unspoiled (\<lambda>w. (Inr (), w))"

definition set_modified :: "os \<Rightarrow> path \<Rightarrow> u64 \<Rightarrow> unit io" where
  "set_modified E p t = sysop E unspoiled (\<lambda>w. (Inr (), put_file p (\<lambda>d. d\<lparr>f_mtime := t\<rparr>) w))"

definition write_file :: "os \<Rightarrow> path \<Rightarrow> byte list \<Rightarrow> unit io" where
  "write_file E p bs = bindE (create_file E p) (\<lambda>_. append_file E p bs)"

definition remove_file :: "os \<Rightarrow> path \<Rightarrow> unit io" where
  "remove_file E p = sysop E unspoiled (\<lambda>w.
     case lookup w p of None \<Rightarrow> (Inl NotFound, w) | Some Dir \<Rightarrow> (Inl PermissionDenied, w)
     | Some _ \<Rightarrow> (Inr (), upd_fs (del p) w))"

text \<open>
  An interrupted recursive delete has removed some files, and directories only when everything
  below them is gone.
\<close>

definition partly_removed :: "(path \<Rightarrow> bool) \<Rightarrow> path \<Rightarrow> fsmap \<Rightarrow> fsmap" where
  "partly_removed gone p fs =
     filter (\<lambda>(q, _). \<not> (prefix p q \<and> list_all (\<lambda>(r, _). prefix q r \<longrightarrow> gone r) fs)) fs"

definition remove_dir_all :: "os \<Rightarrow> path \<Rightarrow> unit io" where
  "remove_dir_all E p = sysop E
     (\<lambda>n w. if is_dir_path w p then upd_fs (partly_removed (os_gone E n) p) w else w)
     (\<lambda>w. case lookup w p of None \<Rightarrow> (Inl NotFound, w) | Some Dir \<Rightarrow> (Inr (), upd_fs (del_tree p) w)
      | Some _ \<Rightarrow> (Inl OtherIo, w))"

definition create_dir :: "os \<Rightarrow> path \<Rightarrow> unit io" where
  "create_dir E p = sysop E unspoiled (\<lambda>w.
     if occupied w p then (Inl AlreadyExists, w)
     else if parent_is_dir w p then (Inr (), upd_fs (put p Dir) w) else (Inl NotFound, w))"

text \<open>\<open>create_dir_all\<close>: the missing directories from the root down, one call each.\<close>

fun create_dirs :: "os \<Rightarrow> path list \<Rightarrow> unit io" where
  "create_dirs E [] w = (Inr (), w)"
| "create_dirs E (p # ps) w =
     (if is_dir_path w p then create_dirs E ps w
      else bindE (create_dir E p) (\<lambda>_. create_dirs E ps) w)"

definition create_dir_all :: "os \<Rightarrow> path \<Rightarrow> unit io" where
  "create_dir_all E p = create_dirs E (map (\<lambda>n. take n p) [1..<Suc (length p)])"

text \<open>
  \<open>fs::rename\<close> is atomic; a file replaces an existing file, a directory replaces nothing.
\<close>

definition rename :: "os \<Rightarrow> path \<Rightarrow> path \<Rightarrow> unit io" where
  "rename E p q = sysop E unspoiled (\<lambda>w.
     case lookup w p of
       None \<Rightarrow> (Inl NotFound, w)
     | Some Dir \<Rightarrow>
         if occupied w q then (Inl AlreadyExists, w)
         else if prefix p q \<or> \<not> parent_is_dir w q then (Inl OtherIo, w)
         else (Inr (), upd_fs (move_tree p q) w)
     | Some n \<Rightarrow>
         if is_dir_path w q then (Inl PermissionDenied, w)
         else if \<not> parent_is_dir w q then (Inl NotFound, w)
         else if p = q then (Inr (), w)
         else (Inr (), upd_fs (\<lambda>fs. put q n (del p fs)) w))"

definition read_dir :: "os \<Rightarrow> path \<Rightarrow> string list io" where
  "read_dir E p = sysop E unspoiled (\<lambda>w.
     if is_dir_path w p then (Inr (children (w_fs w) p), w)
     else if exists_path w p then (Inl OtherIo, w) else (Inl NotFound, w))"

section \<open>trash.rs\<close>

text \<open>\<open>recycle_win\<close>: whether the shell moved the item to the Recycle Bin.\<close>

definition recycle_win :: "os \<Rightarrow> path \<Rightarrow> world \<Rightarrow> bool \<times> world" where
  "recycle_win E p w =
     (let n = w_tick w; w = w\<lparr>w_tick := Suc n\<rparr>
      in if \<not> os_fails E n \<and> os_shell E n \<and> lookup w p \<noteq> None
         then (True, (upd_fs (del_tree p) w)\<lparr>w_bin := subtree p (w_fs w) # w_bin w\<rparr>)
         else (False, w))"

definition recycle :: "os \<Rightarrow> path \<Rightarrow> unit io" where
  "recycle E p w =
     (let (ok, w) = recycle_win E p w
      in if ok then (Inr (), w)
         else let (dir, w) = path_is_dir E p w
              in if dir then remove_dir_all E p w else remove_file E p w)"

definition set_readonly :: "os \<Rightarrow> path \<Rightarrow> bool \<Rightarrow> unit io" where
  "set_readonly E p ro = bindE (metadata E p) (\<lambda>_. set_permissions E p ro)"

section \<open>Which paths a call touches\<close>

text \<open>
  \<open>changes_only P\<close>: every path outside \<open>P\<close> is looked up as before. Every call keeps this
  relation for the paths it works on, whether it succeeds or fails; the collection \<open>touches\<close>
  holds these facts, so that a sequence of calls is handled by introduction rules alone.
\<close>

named_theorems touches "paths changed by the calls of the file system"

definition changes_only :: "(path \<Rightarrow> bool) \<Rightarrow> world \<Rightarrow> world \<Rightarrow> bool" where
  "changes_only P w w' \<longleftrightarrow> (\<forall>q. \<not> P q \<longrightarrow> lookup w' q = lookup w q)"

lemma preorder_changes [touches]: "preorderS (changes_only P)"
  by (simp add: preorderS_def changes_only_def)

lemma lookup_update [simp]:
  "lookup (w\<lparr>w_tick := n\<rparr>) q = lookup w q"
  "lookup (w\<lparr>w_rng := r\<rparr>) q = lookup w q"
  "lookup (w\<lparr>w_progress := l\<rparr>) q = lookup w q"
  "lookup (w\<lparr>w_bin := b\<rparr>) q = lookup w q"
  by (simp_all add: lookup_def)

lemma lookup_upd_fs: "lookup (upd_fs f w) q = get (f (w_fs w)) q"
  by (simp add: lookup_def upd_fs_def)

lemma lookup_put_file:
  "lookup (put_file p f w) q =
     (if q = p then (case lookup w p of Some (File d) \<Rightarrow> Some (File (f d)) | x \<Rightarrow> x) else lookup w q)"
  by (auto simp: put_file_def lookup_upd_fs split: option.split node.split) (simp_all add: lookup_def)

lemma get_partly_removed:
  "\<not> prefix p q \<Longrightarrow> get (partly_removed gone p fs) q = get fs q"
  unfolding partly_removed_def get_def by (subst map_of_filter_key) simp

lemma lookup_upd:
  "lookup (upd_fs (put p n) w) q = (if q = p then Some n else lookup w q)"
  "lookup (upd_fs (del p) w) q = (if q = p then None else lookup w q)"
  "lookup (upd_fs (del_tree p) w) q = (if prefix p q then None else lookup w q)"
  "lookup (upd_fs (\<lambda>fs. put p' n (del p fs)) w) q =
     (if q = p' then Some n else if q = p then None else lookup w q)"
  "lookup (upd_fs (move_tree p p') w) q =
     (if prefix p' q then lookup w (p @ drop (length p') q)
      else if prefix p q then None else lookup w q)"
  "\<not> prefix p q \<Longrightarrow> lookup (upd_fs (partly_removed gone p) w) q = lookup w q"
  unfolding lookup_upd_fs by (simp_all add: lookup_def get_partly_removed)

lemma changes_only_I: "(\<And>q. \<not> P q \<Longrightarrow> lookup w' q = lookup w q) \<Longrightarrow> changes_only P w w'"
  by (simp add: changes_only_def)

lemma changes_onlyD: "changes_only P w w' \<Longrightarrow> \<not> P q \<Longrightarrow> lookup w' q = lookup w q"
  by (simp add: changes_only_def)

lemma sysop_changes:
  assumes "\<And>n w. changes_only P w (spoil n w)" and "\<And>w. changes_only P w (snd (act w))"
  shows "keeps (changes_only P) (sysop E spoil act)"
proof (rule keepsI)
  fix w :: world
  let ?w = "w\<lparr>w_tick := Suc (w_tick w)\<rparr>"
  have "changes_only P ?w (snd (sysop E spoil act w))"
    using assms by (simp add: sysop_def Let_def)
  then show "changes_only P w (snd (sysop E spoil act w))"
    by (simp add: changes_only_def)
qed

lemma unspoiled_changes: "changes_only P w (unspoiled n w)"
  by (simp add: unspoiled_def changes_only_def)

lemmas change_simps = changes_only_def lookup_put_file lookup_upd unspoiled_def

lemma reading_touches [touches]:
  "keeps (changes_only P) (symlink_metadata E p)"
  "keeps (changes_only P) (metadata E p)"
  "keeps (changes_only P) (open_read E p)"
  "keeps (changes_only P) (open_rw E p)"
  "keeps (changes_only P) (sync_all E)"
  "keeps (changes_only P) (read_dir E p)"
  unfolding symlink_metadata_def metadata_def open_read_def open_rw_def sync_all_def read_dir_def
  by (intro sysop_changes unspoiled_changes; auto simp: changes_only_def split: option.split node.split)+

lemma writing_touches [touches]:
  assumes "P p"
  shows "keeps (changes_only P) (set_permissions E p ro)"
    and "keeps (changes_only P) (create_file E p)"
    and "keeps (changes_only P) (append_file E p bs)"
    and "keeps (changes_only P) (overwrite_start E p bs)"
    and "keeps (changes_only P) (write_at E p pos bs)"
    and "keeps (changes_only P) (set_modified E p t)"
    and "keeps (changes_only P) (remove_file E p)"
    and "keeps (changes_only P) (create_dir E p)"
  unfolding set_permissions_def create_file_def append_file_def overwrite_start_def set_modified_def
    write_at_def remove_file_def create_dir_def
  by (intro sysop_changes unspoiled_changes;
      use assms in \<open>auto simp: change_simps split: option.split node.split\<close>)+

lemma remove_dir_all_touches [touches]:
  assumes "\<And>q. prefix p q \<Longrightarrow> P q"
  shows "keeps (changes_only P) (remove_dir_all E p)"
proof -
  have "\<not> prefix p q" if "\<not> P q" for q using assms that by blast
  then show ?thesis
    unfolding remove_dir_all_def
    by (intro sysop_changes; auto simp: change_simps split: option.split node.split)
qed

lemma rename_touches [touches]:
  "(\<And>r. prefix p r \<Longrightarrow> P r) \<Longrightarrow> (\<And>r. prefix q r \<Longrightarrow> P r) \<Longrightarrow> keeps (changes_only P) (rename E p q)"
  unfolding rename_def
  by (intro sysop_changes unspoiled_changes; auto simp: change_simps split: option.split node.split)

lemma create_dirs_touches [touches]:
  "(\<And>p. p \<in> set ps \<Longrightarrow> P p) \<Longrightarrow> keeps (changes_only P) (create_dirs E ps)"
proof (induction ps)
  case Nil
  then show ?case by (simp add: keeps_def changes_only_def)
next
  case (Cons p ps)
  then have "keeps (changes_only P) (bindE (create_dir E p) (\<lambda>_. create_dirs E ps))"
    by (intro keeps_bindE touches) auto
  with Cons show ?case by (simp add: keeps_def)
qed

lemma recycle_touches [touches]:
  assumes "\<And>q. prefix p q \<Longrightarrow> P q"
  shows "keeps (changes_only P) (recycle E p)"
proof (rule keepsI)
  fix w
  obtain ok w1 where r: "recycle_win E p w = (ok, w1)" by fastforce
  then have c1: "changes_only P w w1"
    using assms by (auto simp: recycle_win_def Let_def change_simps split: if_splits)
  let ?w2 = "w1\<lparr>w_tick := Suc (w_tick w1)\<rparr>"
  have "changes_only P ?w2 (snd (remove_dir_all E p ?w2))" "changes_only P ?w2 (snd (remove_file E p ?w2))"
    using remove_dir_all_touches [of p P E] writing_touches(7) [of P p E] assms by (simp_all add: keeps_def)
  with c1 r show "changes_only P w (snd (recycle E p w))"
    unfolding recycle_def path_is_dir_def by (auto simp: changes_only_def)
qed

lemma set_readonly_touches [touches]: "P p \<Longrightarrow> keeps (changes_only P) (set_readonly E p ro)"
  unfolding set_readonly_def by (intro keeps_bindE touches)

lemma write_file_touches [touches]: "P p \<Longrightarrow> keeps (changes_only P) (write_file E p bs)"
  unfolding write_file_def by (intro keeps_bindE touches)

lemma create_dir_all_touches [touches]:
  "(\<And>q. prefix q p \<Longrightarrow> P q) \<Longrightarrow> keeps (changes_only P) (create_dir_all E p)"
  unfolding create_dir_all_def by (rule create_dirs_touches) (auto simp: take_is_prefix)

section \<open>What a successful call did\<close>

lemma sysop_Inr:
  "sysop E spoil act w = (Inr x, w') \<longleftrightarrow>
     \<not> os_fails E (w_tick w) \<and> act (w\<lparr>w_tick := Suc (w_tick w)\<rparr>) = (Inr x, w')"
  by (simp add: sysop_def Let_def)

lemma is_dir_update [simp]:
  "is_dir_path (w\<lparr>w_tick := n\<rparr>) p = is_dir_path w p"
  "exists_path (w\<lparr>w_tick := n\<rparr>) p = exists_path w p"
  "occupied (w\<lparr>w_tick := n\<rparr>) p = occupied w p"
  "parent_is_dir (w\<lparr>w_tick := n\<rparr>) p = parent_is_dir w p"
  by (simp_all add: is_dir_path_def exists_path_def parent_is_dir_def occupied_def)

lemma open_read_Inr:
  "open_read E p w = (Inr c, w') \<Longrightarrow>
     \<exists>d. lookup w p = Some (File d) \<and> c = f_content d \<and> w' = w\<lparr>w_tick := Suc (w_tick w)\<rparr>"
  by (auto simp: open_read_def sysop_Inr split: option.splits node.splits)

lemma open_rw_Inr:
  "open_rw E p w = (Inr c, w') \<Longrightarrow>
     \<exists>d. lookup w p = Some (File d) \<and> \<not> f_readonly d \<and> c = f_content d \<and> w' = w\<lparr>w_tick := Suc (w_tick w)\<rparr>"
  by (auto simp: open_rw_def sysop_Inr split: option.splits node.splits if_splits)

lemma create_file_Inr:
  assumes "create_file E p w = (Inr u, w')"
  shows "\<exists>d. lookup w' p = Some (File d) \<and> f_content d = [] \<and> \<not> f_readonly d"
  using assms
  by (auto simp: create_file_def sysop_Inr lookup_upd lookup_put_file split: option.splits node.splits if_splits)

lemma append_file_Inr:
  "append_file E p bs w = (Inr u, w') \<Longrightarrow> lookup w p = Some (File d) \<Longrightarrow>
     lookup w' p = Some (File (d\<lparr>f_content := f_content d @ bs\<rparr>))"
  by (auto simp: append_file_def sysop_Inr lookup_put_file)

lemma overwrite_start_Inr:
  "overwrite_start E p bs w = (Inr u, w') \<Longrightarrow> lookup w p = Some (File d) \<Longrightarrow>
     lookup w' p = Some (File (d\<lparr>f_content := bs @ drop (length bs) (f_content d)\<rparr>))"
  by (auto simp: overwrite_start_def sysop_Inr lookup_put_file)

lemma sync_all_Inr: "sync_all E w = (Inr u, w') \<Longrightarrow> w' = w\<lparr>w_tick := Suc (w_tick w)\<rparr>"
  by (simp add: sync_all_def sysop_Inr)

lemma rename_dir_Inr:
  assumes "rename E p q w = (Inr u, w')" and "lookup w p = Some Dir"
  shows "lookup w' (q @ r) = lookup w (p @ r)"
  using assms by (auto simp: rename_def sysop_Inr lookup_upd split: if_splits)

lemma rename_file_Inr:
  assumes "rename E p q w = (Inr u, w')" and "lookup w p = Some (File d)"
  shows "lookup w' q = Some (File d)"
  using assms by (auto simp: rename_def sysop_Inr lookup_upd split: if_splits)

lemma put_file_attr_Inr:
  assumes "lookup w p = Some (File d)"
  shows "set_permissions E p ro w = (Inr u, w') \<Longrightarrow> lookup w' p = Some (File (d\<lparr>f_readonly := ro\<rparr>))"
    and "set_modified E p t w = (Inr u, w') \<Longrightarrow> lookup w' p = Some (File (d\<lparr>f_mtime := t\<rparr>))"
  using assms by (auto simp: set_permissions_def set_modified_def sysop_Inr lookup_put_file split: if_splits)

section \<open>Calls that succeed on a file system that reports no error\<close>

named_theorems runs "calls that succeed without I/O errors"

lemma sysop_runs: "no_fail E \<Longrightarrow> sysop E spoil act w = act (w\<lparr>w_tick := Suc (w_tick w)\<rparr>)"
  by (simp add: sysop_def no_fail_def)

lemma calls_run [runs]:
  assumes "no_fail E"
  shows "succeeds (append_file E p bs) w"
    and "succeeds (overwrite_start E p bs) w"
    and "succeeds (sync_all E) w"
    and "succeeds (set_modified E p t) w"
    and "exists_path w p \<Longrightarrow> succeeds (set_permissions E p ro) w"
    and "lookup w p = Some (File d) \<Longrightarrow> succeeds (open_read E p) w"
    and "lookup w p = Some (File d) \<Longrightarrow> \<not> f_readonly d \<Longrightarrow> succeeds (open_rw E p) w"
    and "lookup w p = Some (File d) \<Longrightarrow> succeeds (metadata E p) w"
    and "lookup w p = Some (File d) \<Longrightarrow> succeeds (remove_file E p) w"
    and "lookup w p = Some Dir \<Longrightarrow> succeeds (remove_dir_all E p) w"
    and "lookup w p = None \<Longrightarrow> parent_is_dir w p \<Longrightarrow> succeeds (create_file E p) w"
    and "lookup w p = None \<Longrightarrow> parent_is_dir w p \<Longrightarrow> succeeds (create_dir E p) w"
  using assms
  by (auto simp: succeeds_def append_file_def overwrite_start_def sync_all_def set_modified_def
      set_permissions_def open_read_def open_rw_def metadata_def remove_file_def remove_dir_all_def
      create_file_def create_dir_def sysop_runs occupied_def parent_is_dir_def)

lemma rename_runs:
  assumes "no_fail E" and "lookup w q = None" and "parent_is_dir w q"
  shows "lookup w p = Some (File d) \<Longrightarrow> succeeds (rename E p q) w"
    and "lookup w p = Some Dir \<Longrightarrow> \<not> prefix p q \<Longrightarrow> succeeds (rename E p q) w"
  using assms
  by (auto simp: succeeds_def rename_def sysop_runs occupied_def parent_is_dir_def is_dir_path_def)

lemma recycle_runs:
  assumes nf: "no_fail E" and p: "p \<noteq> []" "lookup w p = Some n"
  obtains w' where "recycle E p w = (Inr (), w')" and "lookup w' p = None"
    and "n = Dir \<Longrightarrow> (\<And>q. prefix p q \<Longrightarrow> lookup w' q = None)"
proof -
  let ?w1 = "w\<lparr>w_tick := Suc (w_tick w)\<rparr>" and ?w2 = "w\<lparr>w_tick := Suc (Suc (w_tick w))\<rparr>"
    and ?w3 = "w\<lparr>w_tick := Suc (Suc (Suc (w_tick w)))\<rparr>"
  consider (shell) "os_shell E (w_tick w)" | (dir) "\<not> os_shell E (w_tick w)" "n = Dir"
    | (other) "\<not> os_shell E (w_tick w)" "n \<noteq> Dir" by blast
  then show ?thesis
  proof cases
    case shell
    then show ?thesis
      using nf p that [of "(upd_fs (del_tree p) ?w1)\<lparr>w_bin := subtree p (w_fs w) # w_bin w\<rparr>"]
      by (simp add: recycle_def recycle_win_def no_fail_def Let_def lookup_upd)
  next
    case dir
    then have "recycle E p w = (Inr (), upd_fs (del_tree p) ?w3)"
      using nf p by (simp add: recycle_def recycle_win_def path_is_dir_def is_dir_path_def remove_dir_all_def
          sysop_def no_fail_def Let_def)
    then show ?thesis using that by (simp add: lookup_upd)
  next
    case other
    then have "recycle E p w = (Inr (), upd_fs (del p) ?w3)"
      using nf p by (cases n) (simp_all add: recycle_def recycle_win_def path_is_dir_def is_dir_path_def remove_file_def
          sysop_def no_fail_def Let_def)
    then show ?thesis using that other by (simp add: lookup_upd)
  qed
qed

end
