(* ===== verification/Safe_Path.thy ===== *)
theory Safe_Path
  imports Vault_Lib
begin

text \<open>
  \<open>crates/vault-core/src/format.rs\<close>, lines 107 to 163: which names of a manifest may be created
  on disk and how they are joined onto the extraction root. Names are UTF-8 byte strings; all
  the characters the code tests are ASCII, and no byte of a multi-byte character is.
  \<open>Path::components\<close> and \<open>PathBuf::push\<close> are those of Windows, the platform of the program. A
  path that starts with two separators has a prefix (UNC, device or verbatim) or a root; the
  model says prefix, which the code treats the same.
\<close>

section \<open>Paths of the standard library\<close>

datatype component = Prefix string | RootDir | CurDir | ParentDir | Normal string

definition is_path_sep :: "char \<Rightarrow> bool" where
  "is_path_sep c \<longleftrightarrow> c = CHR ''/'' \<or> c = CHR 0x5C"

definition is_ascii_alpha :: "char \<Rightarrow> bool" where
  "is_ascii_alpha c \<longleftrightarrow> (let n = (of_char c :: nat) in 65 \<le> n \<and> n \<le> 90 \<or> 97 \<le> n \<and> n \<le> 122)"

fun split_seps :: "string \<Rightarrow> string list" where
  "split_seps [] = [[]]"
| "split_seps (c # cs) =
     (if is_path_sep c then [] # split_seps cs
      else case split_seps cs of p # ps \<Rightarrow> (c # p) # ps | [] \<Rightarrow> [[c]])"

definition body_component :: "string \<Rightarrow> component" where
  "body_component s = (if s = ''..'' then ParentDir else Normal s)"

text \<open>Empty parts and \<open>.\<close> parts are dropped; a leading \<open>.\<close> of a path without root or prefix stays.\<close>

definition body_components :: "bool \<Rightarrow> string \<Rightarrow> component list" where
  "body_components at_start s =
     (let parts = filter (\<lambda>p. p \<noteq> []) (split_seps s);
          rest = map body_component (filter (\<lambda>p. p \<noteq> ''.'') parts)
      in if at_start \<and> parts \<noteq> [] \<and> hd parts = ''.'' then CurDir # rest else rest)"

fun drive_prefix :: "string \<Rightarrow> (string \<times> string) option" where
  "drive_prefix (c # d # rest) =
     (if is_ascii_alpha c \<and> d = CHR '':'' then Some ([c, d], rest) else None)"
| "drive_prefix _ = None"

fun starts_with_sep :: "string \<Rightarrow> bool" where
  "starts_with_sep (c # _) = is_path_sep c"
| "starts_with_sep [] = False"

definition components :: "string \<Rightarrow> component list" where
  "components s =
     (case drive_prefix s of
        Some (p, rest) \<Rightarrow>
          Prefix p # (if starts_with_sep rest then RootDir # body_components False rest
                      else body_components False rest)
      | None \<Rightarrow>
          if starts_with_sep s
          then (if starts_with_sep (tl s) then Prefix (take 2 s) # body_components False s
                else RootDir # body_components False s)
          else body_components True s)"

text \<open>
  \<open>PathBuf::push\<close>: an argument with a drive prefix or a root replaces the path instead of
  extending it.
\<close>

definition path_push :: "path \<Rightarrow> string \<Rightarrow> path" where
  "path_push p name =
     (if drive_prefix name \<noteq> None \<or> starts_with_sep name then [name] else p @ [name])"

section \<open>The code\<close>

definition RESERVED_NAMES :: "string list" where
  "RESERVED_NAMES =
     [''CON'', ''PRN'', ''AUX'', ''NUL'', ''COM1'', ''COM2'', ''COM3'', ''COM4'', ''COM5'', ''COM6'',
      ''COM7'', ''COM8'', ''COM9'', ''LPT1'', ''LPT2'', ''LPT3'', ''LPT4'', ''LPT5'', ''LPT6'', ''LPT7'',
      ''LPT8'', ''LPT9'']"

definition ascii_lower :: "char \<Rightarrow> char" where
  "ascii_lower c =
     (let n = (of_char c :: nat) in if 65 \<le> n \<and> n \<le> 90 then char_of (n + 32) else c)"

definition eq_ignore_ascii_case :: "string \<Rightarrow> string \<Rightarrow> bool" where
  "eq_ignore_ascii_case a b \<longleftrightarrow> map ascii_lower a = map ascii_lower b"

definition unsafe_char :: "char \<Rightarrow> bool" where
  "unsafe_char c \<longleftrightarrow>
     c \<in> {CHR '':'', CHR 0x5C, CHR ''/'', CHR ''<'', CHR ''>'', CHR 0x22, CHR ''|'', CHR ''?'', CHR ''*''}
     \<or> (of_char c :: nat) < 0x20"

definition name_stem :: "string \<Rightarrow> string" where
  "name_stem name = takeWhile (\<lambda>c. c \<noteq> CHR ''.'') name"

definition is_safe_component :: "string \<Rightarrow> bool" where
  "is_safe_component name =
     (if name = [] \<or> name = ''.'' \<or> name = ''..'' then False
      else if list_ex unsafe_char name then False
      else if list_ex (\<lambda>r. eq_ignore_ascii_case r (name_stem name)) RESERVED_NAMES then False
      else if last name = CHR '' '' \<or> last name = CHR ''.'' then False
      else True)"

fun join_components :: "path \<Rightarrow> component list \<Rightarrow> verror + path" where
  "join_components out [] = Inr out"
| "join_components out (Normal name # cs) =
     (if \<not> is_safe_component name then Inl Tampered
      else join_components (path_push out name) cs)"
| "join_components out (_ # cs) = Inl Tampered"

definition safe_join :: "path \<Rightarrow> string \<Rightarrow> verror + path" where
  "safe_join root rel = (if rel = [] then Inl Tampered else join_components root (components rel))"

section \<open>Lemmas\<close>

definition names_of :: "component list \<Rightarrow> string list" where
  "names_of cs = map (\<lambda>c. case c of Normal n \<Rightarrow> n | _ \<Rightarrow> []) cs"

lemma safe_no_unsafe: "is_safe_component name \<Longrightarrow> \<not> list_ex unsafe_char name"
  by (auto simp: is_safe_component_def split: if_splits)

lemma safe_nonempty: "is_safe_component name \<Longrightarrow> name \<noteq> [] \<and> name \<noteq> ''.'' \<and> name \<noteq> ''..''"
  by (auto simp: is_safe_component_def split: if_splits)

lemma sep_unsafe: "is_path_sep c \<Longrightarrow> unsafe_char c"
  by (auto simp: is_path_sep_def unsafe_char_def)

lemma drive_prefix_colon: "drive_prefix name \<noteq> None \<Longrightarrow> CHR '':'' \<in> set name"
  by (cases name rule: drive_prefix.cases) (auto split: if_splits)

lemma starts_with_sep_unsafe: "starts_with_sep name \<Longrightarrow> list_ex unsafe_char name"
  by (cases name) (auto simp: sep_unsafe)

lemma safe_no_colon: "is_safe_component name \<Longrightarrow> CHR '':'' \<notin> set name"
  using safe_no_unsafe [of name] by (force simp: list_ex_iff unsafe_char_def)

lemma safe_no_drive: "is_safe_component name \<Longrightarrow> drive_prefix name = None"
  by (meson drive_prefix_colon safe_no_colon)

text \<open>Pushing a safe name always extends the path: the reason colons are refused.\<close>

lemma push_safe: "is_safe_component name \<Longrightarrow> path_push p name = p @ [name]"
  using starts_with_sep_unsafe [of name] safe_no_unsafe [of name]
  by (auto simp: path_push_def safe_no_drive)

lemma join_components_Inr:
  "join_components out cs = Inr p \<longleftrightarrow>
     (\<exists>names. cs = map Normal names \<and> list_all is_safe_component names \<and> p = out @ names)"
proof (induction out cs arbitrary: p rule: join_components.induct)
  case (2 out name cs)
  show ?case
  proof (cases "is_safe_component name")
    case True
    have "join_components out (Normal name # cs) = Inr p \<longleftrightarrow>
        (\<exists>names. cs = map Normal names \<and> list_all is_safe_component names \<and> p = out @ name # names)"
      using "2.IH" True by (simp add: push_safe)
    also have "\<dots> \<longleftrightarrow> (\<exists>names. Normal name # cs = map Normal names \<and> list_all is_safe_component names
        \<and> p = out @ names)"
      using True by (auto simp: Cons_eq_map_conv)
    finally show ?thesis .
  next
    case False
    then show ?thesis by (auto simp: Cons_eq_map_conv)
  qed
qed auto

lemma join_components_Inl: "join_components out cs = Inl e \<Longrightarrow> e = Tampered"
  by (induction out cs rule: join_components.induct) (auto split: if_splits)

lemma split_seps_nonempty: "split_seps s \<noteq> []"
  by (induction s) (auto split: list.splits)

lemma split_seps_plain: "\<not> list_ex is_path_sep s \<Longrightarrow> split_seps s = [s]"
  by (induction s) auto

lemma split_seps_append:
  "\<not> list_ex is_path_sep s \<Longrightarrow> split_seps (s @ CHR ''/'' # t) = s # split_seps t"
  by (induction s) (auto simp: is_path_sep_def split: list.splits)

fun join_slash :: "string list \<Rightarrow> string" where
  "join_slash [] = []"
| "join_slash [n] = n"
| "join_slash (n # ns) = n @ CHR ''/'' # join_slash ns"

lemma safe_no_sep: "is_safe_component name \<Longrightarrow> \<not> list_ex is_path_sep name"
  using safe_no_unsafe [of name] sep_unsafe by (auto simp: list_ex_iff)

lemma split_join_slash:
  "ns \<noteq> [] \<Longrightarrow> list_all is_safe_component ns \<Longrightarrow> split_seps (join_slash ns) = ns"
  by (induction ns rule: join_slash.induct) (auto simp: split_seps_plain split_seps_append safe_no_sep)

lemma components_join_slash:
  assumes "ns \<noteq> []" and "list_all is_safe_component ns"
  shows "components (join_slash ns) = map Normal ns"
proof -
  obtain n ms where ns: "ns = n # ms" using assms(1) by (cases ns) auto
  have n: "n \<noteq> []" "\<not> list_ex unsafe_char n" and nosep: "\<not> list_ex is_path_sep n"
    using assms(2) ns safe_nonempty [of n] safe_no_unsafe [of n] safe_no_sep [of n] by auto
  obtain c cs where c: "n = c # cs" using n(1) by (cases n) auto
  have start: "\<exists>t. join_slash ns = n @ t \<and> (t = [] \<or> (\<exists>u. t = CHR ''/'' # u))"
    using ns by (cases ms) auto
  then obtain t where t: "join_slash ns = n @ t" "t = [] \<or> (\<exists>u. t = CHR ''/'' # u)" by blast
  have "drive_prefix (n @ t) = None"
  proof (rule ccontr)
    assume "drive_prefix (n @ t) \<noteq> None"
    then obtain d ds where "n @ t = c # d # ds" and "d = CHR '':''"
      using c by (cases "n @ t" rule: drive_prefix.cases) (auto split: if_splits)
    with c t(2) n(2) show False
      by (cases cs) (auto simp: unsafe_char_def)
  qed
  moreover have "\<not> starts_with_sep (n @ t)" using c nosep by simp
  moreover have "filter (\<lambda>p. p \<noteq> []) ns = ns" "filter (\<lambda>p. p \<noteq> ''.'') ns = ns" "map body_component ns = map Normal ns"
    "hd ns \<noteq> ''.''"
    using assms ns safe_nonempty
    by (auto simp: filter_id_conv list_all_iff body_component_def)
  ultimately show ?thesis
    using split_join_slash [OF assms] t(1) assms(1)
    by (simp add: components_def body_components_def Let_def)
qed

lemma components_nonempty: "rel \<noteq> [] \<Longrightarrow> components rel \<noteq> []"
proof -
  assume rel: "rel \<noteq> []"
  have none: "list_all is_path_sep s" if "filter (\<lambda>p. p \<noteq> []) (split_seps s) = []" for s
    using that by (induction s) (auto split: list.splits if_splits)
  show ?thesis
  proof (cases "drive_prefix rel \<noteq> None \<or> starts_with_sep rel")
    case True
    then show ?thesis by (auto simp: components_def split: option.splits)
  next
    case False
    obtain c cs where "rel = c # cs" using rel by (cases rel) auto
    with False have "\<not> list_all is_path_sep rel" by simp
    then have "filter (\<lambda>p. p \<noteq> []) (split_seps rel) \<noteq> []" using none by blast
    then obtain p ps where p: "filter (\<lambda>p. p \<noteq> []) (split_seps rel) = p # ps"
      by (cases "filter (\<lambda>p. p \<noteq> []) (split_seps rel)") auto
    have "drive_prefix rel = None" "\<not> starts_with_sep rel" using False by blast+
    then have "components rel = body_components True rel" by (simp add: components_def)
    moreover have "body_components True rel \<noteq> []"
      using p by (cases "p = ''.''") (auto simp: body_components_def Let_def)
    ultimately show ?thesis by simp
  qed
qed

lemma safe_join_Inr:
  assumes "safe_join root rel = Inr p"
  obtains names where "names \<noteq> []" "list_all is_safe_component names" "p = root @ names"
    "components rel = map Normal names"
  using assms components_nonempty [of rel]
  by (fastforce simp: safe_join_def join_components_Inr split: if_splits)

lemma safe_join_join_slash:
  assumes "ns \<noteq> []" and "list_all is_safe_component ns"
  shows "safe_join root (join_slash ns) = Inr (root @ ns)"
proof -
  have "join_slash ns \<noteq> []" using assms by (cases ns rule: join_slash.cases) (auto dest: safe_nonempty)
  then show ?thesis
    using components_join_slash [OF assms] assms(2) by (auto simp: safe_join_def join_components_Inr)
qed

section \<open>Properties\<close>

text \<open>
  C8: A manifest path that is accepted stays inside the extraction root: the result extends
  the root by at least one name, every added name is safe (no separator, colon, wildcard,
  control character, reserved device name, trailing dot or blank, no \<open>.\<close> or \<open>..\<close>), and any
  refusal is reported as tampering.
\<close>

theorem safe_join_confined:
  "(\<forall>p. safe_join root rel = Inr p \<longrightarrow>
      (\<exists>names. names \<noteq> [] \<and> p = root @ names \<and> list_all is_safe_component names
        \<and> list_all (\<lambda>n. n \<noteq> ''..'' \<and> n \<noteq> ''.'' \<and> drive_prefix n = None \<and> \<not> list_ex is_path_sep n) names))
   \<and> (\<forall>e. safe_join root rel = Inl e \<longrightarrow> e = Tampered)"
proof (intro conjI allI impI)
  fix p
  assume "safe_join root rel = Inr p"
  then obtain names where n: "names \<noteq> []" "list_all is_safe_component names" "p = root @ names"
    by (rule safe_join_Inr)
  have "list_all (\<lambda>n. n \<noteq> ''..'' \<and> n \<noteq> ''.'' \<and> drive_prefix n = None \<and> \<not> list_ex is_path_sep n) names"
    by (rule list.pred_mono_strong [OF n(2)]) (simp add: safe_no_drive safe_nonempty safe_no_sep)
  with n show "\<exists>names. names \<noteq> [] \<and> p = root @ names \<and> list_all is_safe_component names
        \<and> list_all (\<lambda>n. n \<noteq> ''..'' \<and> n \<noteq> ''.'' \<and> drive_prefix n = None \<and> \<not> list_ex is_path_sep n) names"
    by blast
next
  fix e
  assume "safe_join root rel = Inl e"
  then show "e = Tampered" by (auto simp: safe_join_def dest: join_components_Inl split: if_splits)
qed

text \<open>Evaluation rules for concrete names.\<close>

lemmas safe_eval = is_safe_component_def unsafe_char_def RESERVED_NAMES_def name_stem_def
  eq_ignore_ascii_case_def ascii_lower_def String.char_of_eq_iff

lemmas join_eval = safe_join_def components_def is_ascii_alpha_def is_path_sep_def body_components_def
  body_component_def

lemma safe_example: "list_all is_safe_component [''sub'', ''console.log'']"
  by (simp add: safe_eval)

lemma unsafe_example: "safe_join [''out''] ''a/b:c'' = Inl Tampered"
  by (simp add: join_eval) (simp add: safe_eval)

theorem safe_join_confined_witness:
  "(\<exists>names. [''out'', ''sub'', ''console.log''] = [''out''] @ names \<and> list_all is_safe_component names)
   \<and> safe_join [''out''] ''a/b:c'' = Inl Tampered"
  using safe_join_confined [of "[''out'']" "join_slash [''sub'', ''console.log'']"]
    unsafe_example safe_join_join_slash [OF _ safe_example, of "[''out'']"]
  by fastforce

text \<open>
  Every path made of safe names is accepted and yields exactly these names below the
  root: the check refuses no legitimate manifest entry.
\<close>

theorem safe_join_complete:
  assumes "ns \<noteq> []" and "list_all is_safe_component ns"
  shows "safe_join root (join_slash ns) = Inr (root @ ns)"
  using assms by (rule safe_join_join_slash)

theorem safe_join_complete_witness:
  "safe_join [''out''] ''sub/console.log'' = Inr [''out'', ''sub'', ''console.log'']"
  using safe_join_complete [OF _ safe_example, of "[''out'']"] by simp

end
