(* ===== verification/Walk.thy ===== *)
theory Walk
  imports Filesys Safe_Path
begin

text \<open>
  \<open>crates/vault-core/src/walk.rs\<close>: the folder scan that produces the manifest of a lock. The
  walk is recursive over sub-directories; it only reads, so the file system it sees is the one it
  started with and only the tick moves. \<open>walk_items\<close> is the loop of \<open>walk_into\<close> with the
  recursive call inlined, \<open>walk_into\<close> reads a directory and runs the loop. A directory is read by
  one call, which fails or yields all its items; an iterator that fails at a later item is covered
  as that call failing, since both end the scan with the same error.
\<close>

section \<open>The code\<close>

record entry =
  rel_path :: string
  e_size :: u64
  e_mtime :: u64
  e_is_dir :: bool
  e_readonly :: bool

record folder_scan =
  scan_entries :: "entry list"
  scan_total :: u64

definition display :: "path \<Rightarrow> string" where
  "display p = concat (map (\<lambda>n. CHR 0x5C # n) p)"

definition rel_path_of :: "path \<Rightarrow> path \<Rightarrow> verror + string" where
  "rel_path_of root p =
     (if prefix root p then Inr (join_slash (drop (length root) p))
      else Inl (Other (''path escapes root: '' @ display p)))"

text \<open>\<open>meta.modified()\<close> in whole seconds, \<open>meta.len()\<close>.\<close>

definition node_mtime :: "os \<Rightarrow> path \<Rightarrow> node \<Rightarrow> u64" where
  "node_mtime E p n = (case n of File d \<Rightarrow> f_mtime d | _ \<Rightarrow> os_dir_mtime E p)"

definition file_len :: "file_data \<Rightarrow> u64" where
  "file_len d = word_of_nat (length (f_content d))"

definition dir_entry :: "os \<Rightarrow> path \<Rightarrow> string \<Rightarrow> entry" where
  "dir_entry E p rel = \<lparr>rel_path = rel, e_size = 0, e_mtime = node_mtime E p Dir,
     e_is_dir = True, e_readonly = False\<rparr>"

definition file_entry :: "string \<Rightarrow> file_data \<Rightarrow> entry" where
  "file_entry rel d = \<lparr>rel_path = rel, e_size = file_len d, e_mtime = f_mtime d,
     e_is_dir = False, e_readonly = f_readonly d\<rparr>"

type_synonym walk_acc = "entry list \<times> entry list \<times> u64"

definition fs_depth :: "fsmap \<Rightarrow> nat" where
  "fs_depth fs = foldr max (map (\<lambda>(p, _). length p) fs) 0"

lemma fs_depth_bound: "get fs p = Some n \<Longrightarrow> length p \<le> fs_depth fs"
  by (induction fs) (auto simp: get_def fs_depth_def split: if_splits)

lemma symlink_metadata_Inr:
  "symlink_metadata E p w = (Inr n, w') \<Longrightarrow> lookup w p = Some n \<and> w' = w\<lparr>w_tick := Suc (w_tick w)\<rparr>"
  by (auto simp: symlink_metadata_def sysop_def lookup_def Let_def split: if_splits option.splits)

lemma walk_descends:
  assumes "(Inr n, w') = symlink_metadata E (dir @ [item]) w"
  shows "fs_depth (w_fs w) - length dir < Suc (fs_depth (w_fs w)) - length dir"
proof -
  have "lookup w (dir @ [item]) = Some n"
    using symlink_metadata_Inr [OF assms [symmetric]] by simp
  then have "length (dir @ [item]) \<le> fs_depth (w_fs w)"
    unfolding lookup_def by (rule fs_depth_bound)
  then show ?thesis by simp
qed

text \<open>
  The loop over the items of \<open>dir\<close>; the result carries the tick reached.
\<close>

function walk_items ::
  "os \<Rightarrow> path \<Rightarrow> path \<Rightarrow> string list \<Rightarrow> walk_acc \<Rightarrow> world \<Rightarrow> (verror + walk_acc) \<times> nat" where
  "walk_items E root dir [] acc w = (Inr acc, w_tick w)"
| "walk_items E root dir (item # items) (dirs, files, tot) w =
     (let path = dir @ [item] in
      case symlink_metadata E path w of
        (Inl e, w1) \<Rightarrow> (Inl (Io e), w_tick w1)
      | (Inr meta, w1) \<Rightarrow>
          (case rel_path_of root path of
             Inl e \<Rightarrow> (Inl e, w_tick w1)
           | Inr rel \<Rightarrow>
               (case meta of
                  Link \<Rightarrow> (Inl (Unsupported (''symlink or reparse point not supported: '' @ rel)), w_tick w1)
                | Dir \<Rightarrow>
                    (case read_dir E path w1 of
                       (Inl e, w2) \<Rightarrow> (Inl (Io e), w_tick w2)
                     | (Inr subitems, w2) \<Rightarrow>
                         (case walk_items E root path subitems (dirs @ [dir_entry E path rel], files, tot)
                                 (w\<lparr>w_tick := w_tick w2\<rparr>) of
                            (Inl e, t) \<Rightarrow> (Inl e, t)
                          | (Inr acc, t) \<Rightarrow> walk_items E root dir items acc (w\<lparr>w_tick := t\<rparr>)))
                | File d \<Rightarrow>
                    walk_items E root dir items
                      (dirs, files @ [file_entry rel d], tot + file_len d)
                      (w\<lparr>w_tick := w_tick w1\<rparr>))))"
  by pat_completeness auto
termination
  by (relation "measures [\<lambda>(E, root, dir, items, acc, w). Suc (fs_depth (w_fs w)) - length dir,
      \<lambda>(E, root, dir, items, acc, w). length items]") (auto dest!: walk_descends)

definition walk_into :: "os \<Rightarrow> path \<Rightarrow> path \<Rightarrow> walk_acc \<Rightarrow> walk_acc vio" where
  "walk_into E root dir acc w =
     (case read_dir E dir w of
        (Inl e, w1) \<Rightarrow> (Inl (Io e), w1)
      | (Inr items, w1) \<Rightarrow>
          (case walk_items E root dir items acc w1 of (r, t) \<Rightarrow> (r, w1\<lparr>w_tick := t\<rparr>)))"

definition scan :: "os \<Rightarrow> path \<Rightarrow> folder_scan vio" where
  "scan E root =
     bindE (mapE Io (symlink_metadata E root)) (\<lambda>meta.
       if meta \<noteq> Dir then throwE (Unsupported (display root @ '' is not a directory''))
       else bindE (walk_into E root root ([], [], 0)) (\<lambda>(dirs, files, tot).
         returnE \<lparr>scan_entries = dirs @ files, scan_total = tot\<rparr>))"

section \<open>What a scan lists\<close>

definition rel_of :: "path \<Rightarrow> path \<Rightarrow> string" where
  "rel_of root p = join_slash (drop (length root) p)"

definition entry_at :: "os \<Rightarrow> path \<Rightarrow> fsmap \<Rightarrow> path \<Rightarrow> entry" where
  "entry_at E root fs p =
     (case get fs p of Some (File d) \<Rightarrow> file_entry (rel_of root p) d | _ \<Rightarrow> dir_entry E p (rel_of root p))"

definition len_at :: "fsmap \<Rightarrow> path \<Rightarrow> u64" where
  "len_at fs p = (case get fs p of Some (File d) \<Rightarrow> file_len d | _ \<Rightarrow> 0)"

text \<open>
  \<open>ds\<close> and \<open>fl\<close> list the directories and the files at the paths \<open>P\<close>, each once, a directory
  never after something below it; there is no link at \<open>P\<close>.
\<close>

definition listed :: "fsmap \<Rightarrow> path set \<Rightarrow> path list \<Rightarrow> path list \<Rightarrow> bool" where
  "listed fs P ds fl \<longleftrightarrow> distinct ds \<and> distinct fl
     \<and> set ds = {p \<in> P. get fs p = Some Dir} \<and> set fl = {p \<in> P. \<exists>d. get fs p = Some (File d)}
     \<and> (\<forall>p \<in> P. get fs p \<noteq> Some Link) \<and> sorted_wrt (\<lambda>p q. \<not> prefix q p) ds"

definition below_items :: "path \<Rightarrow> string list \<Rightarrow> path set" where
  "below_items dir items = {p. \<exists>i \<in> set items. prefix (dir @ [i]) p}"

lemma below_items_strict: "q \<in> below_items p items \<Longrightarrow> strict_prefix p q"
  unfolding below_items_def by (auto intro: prefix_snocD)

lemma listed_append:
  assumes "listed fs P ds fl" and "listed fs Q es gl"
    and "\<And>p q. p \<in> P \<Longrightarrow> q \<in> Q \<Longrightarrow> \<not> prefix q p"
  shows "listed fs (P \<union> Q) (ds @ es) (fl @ gl)"
  using assms by (auto simp: listed_def sorted_wrt_append)

lemma listed_dir:
  assumes wf: "wf_fs fs" and d: "get fs p = Some Dir" and p: "p \<noteq> []"
    and l: "listed fs (below_items p (children fs p)) ds fl"
  shows "listed fs {q. prefix p q} (p # ds) fl"
proof -
  have split: "q = p \<or> q \<in> below_items p (children fs p)" if pq: "prefix p q" and gq: "get fs q \<noteq> None" for q
  proof -
    obtain r where r: "q = p @ r" using pq by (rule prefixE)
    show ?thesis
    proof (cases r)
      case (Cons i s)
      have "get fs (p @ [i]) \<noteq> None"
        using wf_fs_ancestor [OF wf, of "p @ [i]" s] that(2) r Cons by (cases "s = []") auto
      then have "i \<in> set (children fs p)" by (rule children_iff [THEN iffD2])
      with r Cons show ?thesis by (auto simp: below_items_def)
    qed (simp add: r)
  qed
  note strict = below_items_strict [of _ p "children fs p"]
  have there: "get fs q = Some n \<Longrightarrow> prefix p q \<longleftrightarrow> q = p \<or> q \<in> below_items p (children fs p)" for q n
    using split [of q] strict [of q] by (auto simp: strict_prefix_def)
  have "{q \<in> {q. prefix p q}. get fs q = Some Dir} = set (p # ds)"
    and "{q \<in> {q. prefix p q}. \<exists>d. get fs q = Some (File d)} = set fl"
    and "\<forall>q \<in> {q. prefix p q}. get fs q \<noteq> Some Link"
    using l d by (auto simp: there listed_def)
  moreover have "\<forall>q \<in> set ds. \<not> prefix q p" "p \<notin> set ds"
    using l strict unfolding listed_def by (auto simp: strict_prefix_def dest: prefix_order.antisym)
  ultimately show ?thesis
    using l unfolding listed_def by simp
qed

lemma listed_file:
  assumes "wf_fs fs" and "get fs p = Some (File d)" and "p \<noteq> []"
  shows "listed fs {q. prefix p q} [] [p]"
proof -
  have only: "q = p" if "prefix p q" "get fs q \<noteq> None" for q
    using that wf_fs_ancestor [OF assms(1) _ assms(3)] assms(2) by (auto elim!: prefixE; fastforce)
  then have "get fs q = Some (File d)" if "prefix p q" "get fs q \<noteq> None" for q
    using that assms(2) by blast
  with only assms(2) show ?thesis by (fastforce simp: listed_def)
qed

lemma below_items_apart:
  assumes "item \<notin> set items" and "prefix (dir @ [item]) p" and "q \<in> below_items dir items"
  shows "\<not> prefix q p"
proof
  assume "prefix q p"
  moreover obtain i where "i \<in> set items" "prefix (dir @ [i]) q"
    using assms(3) by (auto simp: below_items_def)
  ultimately show False using assms(1,2) by (auto elim!: prefixE)
qed

lemma below_items_Cons: "below_items dir (item # items) = {p. prefix (dir @ [item]) p} \<union> below_items dir items"
  by (auto simp: below_items_def)

lemma read_dir_Inr:
  "read_dir E p w = (Inr items, w') \<Longrightarrow>
     items = children (w_fs w) p \<and> w' = w\<lparr>w_tick := Suc (w_tick w)\<rparr>"
  by (auto simp: read_dir_def sysop_def Let_def split: if_splits)

lemma listed_nil: "listed fs (below_items dir []) [] []"
  by (simp add: listed_def below_items_def)

text \<open>The listing of one folder appended to an accumulator.\<close>

definition extends ::
  "os \<Rightarrow> path \<Rightarrow> fsmap \<Rightarrow> walk_acc \<Rightarrow> path list \<Rightarrow> path list \<Rightarrow> walk_acc \<Rightarrow> bool" where
  "extends E root fs acc ds fl acc' \<longleftrightarrow>
     (case acc of (dirs, files, tot) \<Rightarrow>
        acc' = (dirs @ map (entry_at E root fs) ds, files @ map (entry_at E root fs) fl,
                tot + sum_list (map (len_at fs) fl)))"

lemma extends_append:
  "extends E root fs a ds fl b \<Longrightarrow> extends E root fs b es gl c \<Longrightarrow>
     extends E root fs a (ds @ es) (fl @ gl) c"
  by (auto simp: extends_def add.assoc)

lemma extends_refl: "extends E root fs a [] [] a"
  by (auto simp: extends_def)

lemma rel_path_of_below: "prefix root dir \<Longrightarrow> rel_path_of root (dir @ [i]) = Inr (rel_of root (dir @ [i]))"
  using prefix_prefix [of root dir "[i]"] by (simp add: rel_path_of_def rel_of_def)

lemma walk_items_lists:
  assumes "walk_items E root dir items acc w = (Inr acc', t)"
    and "wf_fs (w_fs w)" and "prefix root dir" and "distinct items"
  shows "\<exists>ds fl. listed (w_fs w) (below_items dir items) ds fl \<and> extends E root (w_fs w) acc ds fl acc'"
  using assms
proof (induction E root dir items acc w arbitrary: acc' t rule: walk_items.induct)
  case (1 E root dir acc w)
  then have "acc' = acc" by simp
  then show ?case using listed_nil extends_refl by metis
next
  case (2 E root dir item items dirs files tot w)
  let ?p = "dir @ [item]" and ?fs = "w_fs w"
  let ?rel = "rel_of root ?p"
  from 2(4) obtain n w1 where m: "symlink_metadata E ?p w = (Inr n, w1)"
    by (auto simp: Let_def split: prod.splits sum.splits)
  then have gn: "get ?fs ?p = Some n" and w1: "w_fs w1 = ?fs"
    using symlink_metadata_Inr [OF m] by (simp_all add: lookup_def)
  have rel: "rel_path_of root ?p = Inr ?rel" using 2(6) by (rule rel_path_of_below)
  have dist: "item \<notin> set items" "distinct items" using 2(7) by auto
  have apart: "\<And>p q. p \<in> {q. prefix ?p q} \<Longrightarrow> q \<in> below_items dir items \<Longrightarrow> \<not> prefix q p"
    using below_items_apart [OF dist(1)] by blast
  show ?case
  proof (cases n)
    case (File d)
    with 2(4) m rel have w: "walk_items E root dir items (dirs, files @ [file_entry ?rel d], tot + file_len d)
        (w\<lparr>w_tick := w_tick w1\<rparr>) = (Inr acc', t)"
      by (simp add: Let_def)
    obtain ds fl where r: "listed ?fs (below_items dir items) ds fl"
      "extends E root ?fs (dirs, files @ [file_entry ?rel d], tot + file_len d) ds fl acc'"
      using 2(1) [OF refl m [symmetric] refl rel File w] 2(5,6) dist(2) by auto
    have "extends E root ?fs (dirs, files, tot) [] [?p] (dirs, files @ [file_entry ?rel d], tot + file_len d)"
      using gn File by (simp add: extends_def entry_at_def len_at_def)
    from extends_append [OF this r(2)] listed_append [OF listed_file r(1) apart] 2(5) gn File
    show ?thesis unfolding below_items_Cons by auto
  next
    case Dir
    with 2(4) m rel obtain sub w2 where rd: "read_dir E ?p w1 = (Inr sub, w2)"
      by (auto simp: Let_def split: prod.splits sum.splits)
    with 2(4) m rel Dir obtain acc1 t1 where sub: "walk_items E root ?p sub (dirs @ [dir_entry E ?p ?rel], files, tot)
        (w\<lparr>w_tick := w_tick w2\<rparr>) = (Inr acc1, t1)"
      and rest: "walk_items E root dir items acc1 (w\<lparr>w_tick := t1\<rparr>) = (Inr acc', t)"
      by (auto simp: Let_def split: prod.splits sum.splits)
    have ch: "sub = children ?fs ?p" using read_dir_Inr [OF rd] w1 by simp
    have pre: "prefix root ?p" using 2(6) by (rule prefix_prefix)
    have dsub: "distinct sub" using 2(5) ch by (simp add: wf_fs_def distinct_children)
    obtain ds fl where s: "listed ?fs (below_items ?p sub) ds fl"
      "extends E root ?fs (dirs @ [dir_entry E ?p ?rel], files, tot) ds fl acc1"
      using 2(2) [OF refl m [symmetric] refl rel Dir rd [symmetric] refl sub] 2(5) pre dsub by auto
    obtain es gl where r: "listed ?fs (below_items dir items) es gl" "extends E root ?fs acc1 es gl acc'"
      using 2(3) [OF refl m [symmetric] refl rel Dir rd [symmetric] refl sub [symmetric] refl rest] 2(5,6) dist(2) by auto
    have "extends E root ?fs (dirs, files, tot) [?p] [] (dirs @ [dir_entry E ?p ?rel], files, tot)"
      using gn Dir by (simp add: extends_def entry_at_def)
    from extends_append [OF extends_append [OF this s(2)] r(2)]
    have "extends E root ?fs (dirs, files, tot) ((?p # ds) @ es) (fl @ gl) acc'" by simp
    moreover have "listed ?fs {q. prefix ?p q} (?p # ds) fl"
      using listed_dir [OF 2(5)] s(1) ch gn Dir by simp
    then have "listed ?fs ({q. prefix ?p q} \<union> below_items dir items) ((?p # ds) @ es) (fl @ gl)"
      using r(1) apart by (rule listed_append)
    ultimately show ?thesis unfolding below_items_Cons by blast
  next
    case Link
    with 2(4) m rel show ?thesis by (simp add: Let_def)
  qed
qed

lemma listed_cong:
  assumes "\<And>p. get fs p \<noteq> None \<Longrightarrow> p \<in> P \<longleftrightarrow> p \<in> Q"
  shows "listed fs P ds fl \<longleftrightarrow> listed fs Q ds fl"
proof -
  have "{p \<in> P. get fs p = Some n} = {p \<in> Q. get fs p = Some n}" for n
    using assms by auto
  moreover have "{p \<in> P. \<exists>d. get fs p = Some (File d)} = {p \<in> Q. \<exists>d. get fs p = Some (File d)}"
    using assms by auto
  moreover have "(\<forall>p \<in> P. get fs p \<noteq> Some Link) \<longleftrightarrow> (\<forall>p \<in> Q. get fs p \<noteq> Some Link)"
    using assms by (metis option.distinct(1))
  ultimately show ?thesis unfolding listed_def by simp
qed

lemma below_children:
  assumes "wf_fs fs" and "get fs q \<noteq> None" and "p \<noteq> []"
  shows "q \<in> below_items p (children fs p) \<longleftrightarrow> strict_prefix p q"
proof
  show "q \<in> below_items p (children fs p) \<Longrightarrow> strict_prefix p q" by (rule below_items_strict)
next
  assume "strict_prefix p q"
  then obtain i r where q: "q = p @ i # r" by (rule strict_prefixE')
  have "get fs (p @ [i]) \<noteq> None"
    using wf_fs_ancestor [OF assms(1), of "p @ [i]" r] assms(2) q by (cases "r = []") auto
  then have "i \<in> set (children fs p)" by (rule children_iff [THEN iffD2])
  then show "q \<in> below_items p (children fs p)" by (auto simp: q below_items_def)
qed

lemma scan_Inr:
  assumes "scan E root w = (Inr sc, w')"
  obtains w1 w2 dirs files tot t where "symlink_metadata E root w = (Inr Dir, w1)"
    and "read_dir E root w1 = (Inr (children (w_fs w) root), w2)" and "w_fs w2 = w_fs w"
    and "walk_items E root root (children (w_fs w) root) ([], [], 0) w2 = (Inr (dirs, files, tot), t)"
    and "sc = \<lparr>scan_entries = dirs @ files, scan_total = tot\<rparr>" and "w' = w2\<lparr>w_tick := t\<rparr>"
proof -
  from assms obtain w1 where 1: "symlink_metadata E root w = (Inr Dir, w1)"
    and "bindE (walk_into E root root ([], [], 0)) (\<lambda>(dirs, files, tot).
         returnE \<lparr>scan_entries = dirs @ files, scan_total = tot\<rparr>) w1 = (Inr sc, w')"
    by (auto simp: scan_def bindE_Inr_iff mapE_Inr_iff split: if_splits)
  then obtain dirs files tot where 2: "walk_into E root root ([], [], 0) w1 = (Inr (dirs, files, tot), w')"
    and sc: "sc = \<lparr>scan_entries = dirs @ files, scan_total = tot\<rparr>"
    by (auto simp: bindE_Inr_iff)
  have fs1: "w_fs w1 = w_fs w" using symlink_metadata_Inr [OF 1] by simp
  from 2 obtain items w2 t where 3: "read_dir E root w1 = (Inr items, w2)"
    and 4: "walk_items E root root items ([], [], 0) w2 = (Inr (dirs, files, tot), t)" "w' = w2\<lparr>w_tick := t\<rparr>"
    by (auto simp: walk_into_def split: prod.splits sum.splits)
  with read_dir_Inr [OF 3] fs1 1 sc that show ?thesis by simp
qed

lemma scan_listed:
  assumes "scan E root w = (Inr sc, w')" and "wf_fs (w_fs w)" and "root \<noteq> []"
  obtains ds fl where "listed (w_fs w) {p. strict_prefix root p} ds fl"
    and "scan_entries sc = map (entry_at E root (w_fs w)) (ds @ fl)"
    and "scan_total sc = sum_list (map (len_at (w_fs w)) fl)"
    and "get (w_fs w) root = Some Dir" and "w_fs w' = w_fs w"
proof -
  obtain w1 w2 dirs files tot t where s: "symlink_metadata E root w = (Inr Dir, w1)"
    "read_dir E root w1 = (Inr (children (w_fs w) root), w2)" "w_fs w2 = w_fs w"
    "walk_items E root root (children (w_fs w) root) ([], [], 0) w2 = (Inr (dirs, files, tot), t)"
    "sc = \<lparr>scan_entries = dirs @ files, scan_total = tot\<rparr>" "w' = w2\<lparr>w_tick := t\<rparr>"
    using assms(1) by (rule scan_Inr)
  have "distinct (children (w_fs w) root)" using assms(2) by (simp add: wf_fs_def distinct_children)
  then obtain ds fl where l: "listed (w_fs w) (below_items root (children (w_fs w) root)) ds fl"
    and e: "extends E root (w_fs w) ([], [], 0) ds fl (dirs, files, tot)"
    using walk_items_lists [OF s(4)] s(3) assms(2) by auto
  have below: "listed (w_fs w) {p. strict_prefix root p} ds fl"
    by (rule listed_cong [THEN iffD1, OF _ l]) (simp add: below_children assms(2,3))
  have root: "get (w_fs w) root = Some Dir"
    using symlink_metadata_Inr [OF s(1)] by (simp add: lookup_def)
  have same: "w_fs w' = w_fs w" using s(3,6) by simp
  have "scan_entries sc = map (entry_at E root (w_fs w)) (ds @ fl)"
    and "scan_total sc = sum_list (map (len_at (w_fs w)) fl)"
    using e s(5) by (simp_all add: extends_def)
  with below root same show ?thesis by (intro that)
qed

lemma scan_Inr_no_link:
  assumes "scan E root w = (Inr sc, w')" and "wf_fs (w_fs w)" and "root \<noteq> []" and "strict_prefix root p"
  shows "get (w_fs w) p \<noteq> Some Link"
proof -
  obtain ds fl where "listed (w_fs w) {p. strict_prefix root p} ds fl"
    using assms(1-3) by (rule scan_listed)
  with assms(4) show ?thesis by (simp add: listed_def)
qed

section \<open>A sample folder\<close>

definition sample_file :: file_data where
  "sample_file = \<lparr>f_content = [1, 2], f_readonly = True, f_mtime = 5\<rparr>"

definition sample_fs :: fsmap where
  "sample_fs = [([''d''], Dir), ([''d'', ''s''], Dir), ([''d'', ''s'', ''a''], File sample_file),
     ([''l''], Dir), ([''l'', ''x''], Link)]"

definition sample_world :: world where
  "sample_world = \<lparr>w_fs = sample_fs, w_bin = [], w_rng = (\<lambda>_. 0), w_tick = 0, w_progress = []\<rparr>"

definition sample_entries :: "entry list" where
  "sample_entries = [dir_entry calm [''d'', ''s''] ''s'', file_entry ''s/a'' sample_file]"

lemma get_sample_fs:
  "get sample_fs p = (if p = [''d''] \<or> p = [''d'', ''s''] \<or> p = [''l''] then Some Dir
     else if p = [''d'', ''s'', ''a''] then Some (File sample_file)
     else if p = [''l'', ''x''] then Some Link else None)"
  by (simp add: get_def sample_fs_def)

lemma wf_sample_fs [simp]: "wf_fs sample_fs"
  by (auto simp: wf_fs_def get_sample_fs) (simp_all add: sample_fs_def)

lemma scan_sample: "fst (scan calm [''d''] sample_world) =
    Inr \<lparr>scan_entries = sample_entries, scan_total = 2\<rparr>"
proof -
  have ch: "children sample_fs [''d''] = [''s'']" "children sample_fs [''d'', ''s''] = [''a'']"
    by (simp_all add: children_def sample_fs_def)
  have nf: "os_fails calm n = False" for n by (simp add: calm_def)
  show ?thesis
    by (simp add: scan_def bindE_def mapE_def symlink_metadata_def sysop_def Let_def nf lookup_def
        sample_world_def get_sample_fs walk_into_def read_dir_def is_dir_path_def ch rel_path_of_def
        sample_entries_def)
       (simp add: file_len_def sample_file_def)
qed

section \<open>Properties\<close>

text \<open>
  C19: A successful scan lists the folder completely: each directory and each regular file
  strictly below the root appears exactly once, with its relative name, size, read-only flag and
  modification time as the file system has them; directories come first and none before its
  parent, so that creating them in order succeeds; there is no link anywhere below; the total
  is the sum of the file sizes; and the file system is untouched. This for every pattern of I/O
  errors.
\<close>

theorem scan_lists_folder:
  assumes "scan E root w = (Inr sc, w')" and "wf_fs (w_fs w)" and "root \<noteq> []"
  shows "w_fs w' = w_fs w \<and> get (w_fs w) root = Some Dir \<and>
    (\<exists>ds fl. scan_entries sc = map (entry_at E root (w_fs w)) (ds @ fl)
       \<and> scan_total sc = sum_list (map (len_at (w_fs w)) fl)
       \<and> distinct ds \<and> distinct fl
       \<and> set ds = {p. strict_prefix root p \<and> get (w_fs w) p = Some Dir}
       \<and> set fl = {p. strict_prefix root p \<and> (\<exists>d. get (w_fs w) p = Some (File d))}
       \<and> (\<forall>p. strict_prefix root p \<longrightarrow> get (w_fs w) p \<noteq> Some Link)
       \<and> sorted_wrt (\<lambda>p q. \<not> prefix q p) ds)"
proof -
  obtain ds fl where below: "listed (w_fs w) {p. strict_prefix root p} ds fl"
    and en: "scan_entries sc = map (entry_at E root (w_fs w)) (ds @ fl)"
    and tot: "scan_total sc = sum_list (map (len_at (w_fs w)) fl)"
    and root: "get (w_fs w) root = Some Dir" and same: "w_fs w' = w_fs w"
    using assms by (rule scan_listed)
  from en tot below have "scan_entries sc = map (entry_at E root (w_fs w)) (ds @ fl)
       \<and> scan_total sc = sum_list (map (len_at (w_fs w)) fl)
       \<and> distinct ds \<and> distinct fl
       \<and> set ds = {p. strict_prefix root p \<and> get (w_fs w) p = Some Dir}
       \<and> set fl = {p. strict_prefix root p \<and> (\<exists>d. get (w_fs w) p = Some (File d))}
       \<and> (\<forall>p. strict_prefix root p \<longrightarrow> get (w_fs w) p \<noteq> Some Link)
       \<and> sorted_wrt (\<lambda>p q. \<not> prefix q p) ds"
    unfolding listed_def mem_Collect_eq by (intro conjI; (elim conjE; assumption)?; blast)
  then show ?thesis
    by (intro conjI same root) (rule exI [of _ ds], rule exI [of _ fl])
qed

theorem scan_lists_folder_witness:
  "\<exists>ds fl. scan_entries (projr (fst (scan calm [''d''] sample_world)))
       = map (entry_at calm [''d''] sample_fs) (ds @ fl)
     \<and> set ds = {p. strict_prefix [''d''] p \<and> get sample_fs p = Some Dir}
     \<and> set fl = {p. strict_prefix [''d''] p \<and> (\<exists>d. get sample_fs p = Some (File d))}"
proof -
  obtain w' where "scan calm [''d''] sample_world =
      (Inr \<lparr>scan_entries = sample_entries, scan_total = 2\<rparr>, w')"
    using scan_sample by (metis prod.collapse)
  from scan_lists_folder [OF this] show ?thesis
    using wf_sample_fs scan_sample by (auto simp: sample_world_def)
qed

text \<open>Without I/O errors, the only reason to stop is a link.\<close>

lemma walk_items_stops:
  assumes "walk_items E root dir items acc w = (Inl e, t)"
    and "no_fail E" and "wf_fs (w_fs w)" and "prefix root dir" and "set items \<subseteq> set (children (w_fs w) dir)"
  shows "\<exists>p \<in> below_items dir items. get (w_fs w) p = Some Link
           \<and> e = Unsupported (''symlink or reparse point not supported: '' @ rel_of root p)"
  using assms
proof (induction E root dir items acc w arbitrary: e t rule: walk_items.induct)
  case (1 E root dir acc w)
  then show ?case by simp
next
  case (2 E root dir item items dirs files tot w)
  let ?p = "dir @ [item]" and ?fs = "w_fs w"
  let ?rel = "rel_of root ?p"
  have rel: "rel_path_of root ?p = Inr ?rel" using 2(7) by (rule rel_path_of_below)
  have sub: "set items \<subseteq> set (children ?fs dir)" and "get ?fs ?p \<noteq> None"
    using 2(8) children_iff [of item ?fs dir] by auto
  then obtain n where gn: "get ?fs ?p = Some n" by auto
  let ?w1 = "w\<lparr>w_tick := Suc (w_tick w)\<rparr>"
  have m: "symlink_metadata E ?p w = (Inr n, ?w1)"
    using gn 2(5) by (simp add: symlink_metadata_def sysop_def no_fail_def lookup_def)
  show ?case
  proof (cases n)
    case (File d)
    with 2(4) m rel have w: "walk_items E root dir items (dirs, files @ [file_entry ?rel d], tot + file_len d)
        (w\<lparr>w_tick := w_tick ?w1\<rparr>) = (Inl e, t)"
      by (simp add: Let_def)
    show ?thesis
      using 2(1) [OF refl m [symmetric] refl rel File w] 2(5,6,7) sub
      unfolding below_items_Cons by auto
  next
    case Dir
    let ?sub = "children ?fs ?p" and ?w2 = "?w1\<lparr>w_tick := Suc (w_tick ?w1)\<rparr>"
    have rd: "read_dir E ?p ?w1 = (Inr ?sub, ?w2)"
      using gn Dir 2(5) by (simp add: read_dir_def sysop_def no_fail_def is_dir_path_def lookup_def)
    obtain r1 t1 where s: "walk_items E root ?p ?sub (dirs @ [dir_entry E ?p ?rel], files, tot)
        (w\<lparr>w_tick := w_tick ?w2\<rparr>) = (r1, t1)" by fastforce
    have pre: "prefix root ?p" using 2(7) by (rule prefix_prefix)
    have inc: "below_items ?p ?sub \<subseteq> {q. prefix ?p q}"
      using below_items_strict [of _ ?p ?sub] by (auto simp: strict_prefix_def)
    show ?thesis
    proof (cases r1)
      case (Inl e1)
      with 2(4) m rel Dir rd s have "e1 = e" by (simp add: Let_def)
      then show ?thesis
        using 2(2) [OF refl m [symmetric] refl rel Dir rd [symmetric] refl s [unfolded Inl]] 2(5,6) pre inc
        unfolding below_items_Cons by auto
    next
      case (Inr acc1)
      with 2(4) m rel Dir rd s
      have rest: "walk_items E root dir items acc1 (w\<lparr>w_tick := t1\<rparr>) = (Inl e, t)"
        by (simp add: Let_def)
      show ?thesis
        using 2(3) [OF refl m [symmetric] refl rel Dir rd [symmetric] refl s [symmetric] Inr rest] 2(5,6,7) sub
        unfolding below_items_Cons by auto
    qed
  next
    case Link
    with 2(4) m rel gn show ?thesis unfolding below_items_Cons by (simp add: Let_def) auto
  qed
qed

lemma scan_stops:
  assumes "no_fail E" and "wf_fs (w_fs w)" and "root \<noteq> []" and "get (w_fs w) root = Some Dir"
    and "fst (scan E root w) = Inl e"
  shows "\<exists>p. strict_prefix root p \<and> get (w_fs w) p = Some Link
      \<and> e = Unsupported (''symlink or reparse point not supported: '' @ rel_of root p)"
proof -
  let ?fs = "w_fs w" and ?w1 = "w\<lparr>w_tick := Suc (w_tick w)\<rparr>"
  let ?ch = "children ?fs root" and ?w2 = "?w1\<lparr>w_tick := Suc (w_tick ?w1)\<rparr>"
  have m: "symlink_metadata E root w = (Inr Dir, ?w1)"
    using assms(1,4) by (simp add: symlink_metadata_def sysop_def no_fail_def lookup_def)
  have rd: "read_dir E root ?w1 = (Inr ?ch, ?w2)"
    using assms(1,4) by (simp add: read_dir_def sysop_def no_fail_def is_dir_path_def lookup_def)
  obtain r t where wi: "walk_items E root root ?ch ([], [], 0) ?w2 = (r, t)" by fastforce
  have "fst (scan E root w) =
      (case r of Inl e \<Rightarrow> Inl e | Inr (dirs, files, tot) \<Rightarrow> Inr \<lparr>scan_entries = dirs @ files, scan_total = tot\<rparr>)"
    using m rd wi by (auto simp: scan_def walk_into_def bindE_def mapE_def split: sum.splits prod.splits)
  then have "r = Inl e" using assms(5) by (auto split: sum.splits)
  then show ?thesis
    using walk_items_stops [OF wi [unfolded \<open>r = Inl e\<close>] assms(1)] assms(2)
      below_children [OF assms(2) _ assms(3)] by fastforce
qed

lemma scan_runs:
  assumes "no_fail E" and "wf_fs (w_fs w)" and "root \<noteq> []" and "get (w_fs w) root = Some Dir"
    and "\<And>p. strict_prefix root p \<Longrightarrow> get (w_fs w) p \<noteq> Some Link"
  shows "succeeds (scan E root) w"
  using scan_stops [OF assms(1-4)] assms(5) unfolding succeeds_def by (metis obj_sumE prod.collapse)

text \<open>
  C20: A folder is scanned fully or not at all: on a file system that reports no error, the
  scan of a directory succeeds exactly when nothing strictly below it is a symbolic link or
  reparse point, and otherwise it reports such a link by its relative name.
\<close>

theorem scan_all_or_nothing:
  assumes "no_fail E" and "wf_fs (w_fs w)" and "root \<noteq> []" and "get (w_fs w) root = Some Dir"
  shows "((\<exists>sc. fst (scan E root w) = Inr sc) \<longleftrightarrow>
            (\<forall>p. strict_prefix root p \<longrightarrow> get (w_fs w) p \<noteq> Some Link))
    \<and> (\<forall>e. fst (scan E root w) = Inl e \<longrightarrow>
          (\<exists>p. strict_prefix root p \<and> get (w_fs w) p = Some Link
             \<and> e = Unsupported (''symlink or reparse point not supported: '' @ rel_of root p)))"
proof -
  have "get (w_fs w) p \<noteq> Some Link" if "fst (scan E root w) = Inr sc" "strict_prefix root p" for sc p
    using that scan_Inr_no_link [OF _ assms(2,3)] by (metis prod.collapse)
  then show ?thesis using scan_stops [OF assms] by (metis obj_sumE)
qed

theorem scan_all_or_nothing_witness:
  "fst (scan calm [''l''] sample_world) =
     Inl (Unsupported ''symlink or reparse point not supported: x'')"
proof -
  have only: "p = [''l'', ''x'']" if "get sample_fs p = Some Link" for p
    using that by (auto simp: get_sample_fs split: if_splits)
  have l: "w_fs sample_world = sample_fs" "get sample_fs [''l''] = Some Dir"
    "strict_prefix [''l''] [''l'', ''x'']" "get sample_fs [''l'', ''x''] = Some Link"
    by (simp_all add: sample_world_def get_sample_fs strict_prefix_def)
  note t = scan_all_or_nothing [OF no_fail_calm, of sample_world "[''l'']", unfolded l(1), OF wf_sample_fs _ l(2)]
  from t l(3,4) obtain e where e: "fst (scan calm [''l''] sample_world) = Inl e"
    by (metis list.distinct(1) obj_sumE)
  with t only have "e = Unsupported (''symlink or reparse point not supported: '' @ rel_of [''l''] [''l'', ''x''])"
    by (metis list.distinct(1))
  with e show ?thesis by (simp add: rel_of_def)
qed

end
