(* ===== verification/Frames.thy ===== *)
theory Frames
  imports Filesys
begin

text \<open>
  Encrypted frames on disk: \<open>ChunkCipher::seal_to\<close> (\<open>crypto.rs\<close>) writes them, \<open>read_frame_into\<close>
  and \<open>verify_structure\<close> (\<open>format.rs\<close>) read them. A reader is the list of bytes not yet read;
  every read is a system call that may fail. Writes through a \<open>BufWriter\<close> are modelled as
  reaching the file in the order they are made, so that a file being written always holds a
  first part of the stream.
\<close>

section \<open>The code\<close>

definition MAX_MANIFEST_LEN :: nat where "MAX_MANIFEST_LEN = 256 * 1024 * 1024"

text \<open>\<open>Read::read_exact\<close> on \<open>n\<close> bytes, and \<open>Read::read\<close> with a buffer of \<open>n\<close> bytes.\<close>

definition read_exact :: "os \<Rightarrow> nat \<Rightarrow> byte list \<Rightarrow> (byte list \<times> byte list) io" where
  "read_exact E n rest = sysop E unspoiled (\<lambda>w.
     if length rest < n then (Inl UnexpectedEof, w) else (Inr (take n rest, drop n rest), w))"

definition read_some :: "os \<Rightarrow> nat \<Rightarrow> byte list \<Rightarrow> (byte list \<times> byte list) io" where
  "read_some E n rest = sysop E unspoiled (\<lambda>w. (Inr (take n rest, drop n rest), w))"

definition seal_to :: "crypto \<Rightarrow> os \<Rightarrow> path \<Rightarrow> chunk_cipher \<Rightarrow> u64 \<Rightarrow> byte list \<Rightarrow> unit io" where
  "seal_to cr E p cc seq plain w =
     (let (nonce, r) = fill_bytes NONCE_LEN (w_rng w);
          scratch = seal_blob cr cc seq plain (w_rng w)
      in bindE (append_file E p nonce) (\<lambda>_.
         bindE (append_file E p (u32_to_le (word_of_nat (length scratch)))) (\<lambda>_.
           append_file E p scratch)) (w\<lparr>w_rng := r\<rparr>))"

definition read_frame_into :: "os \<Rightarrow> nat \<Rightarrow> byte list \<Rightarrow> (byte list \<times> byte list \<times> byte list) vio" where
  "read_frame_into E max_len rest =
     bindE (mapE Io (read_exact E NONCE_LEN rest)) (\<lambda>(nonce, rest).
     bindE (mapE Io (read_exact E 4 rest)) (\<lambda>(len_bytes, rest).
       let len = unat (u32_from_le len_bytes)
       in if len < TAG_LEN \<or> max_len < len then throwE Tampered
          else bindE (mapE Io (read_exact E len rest)) (\<lambda>(blob, rest).
            returnE (nonce, blob, rest))))"

definition read_frame :: "os \<Rightarrow> nat \<Rightarrow> byte list \<Rightarrow> (byte list \<times> byte list \<times> byte list) vio" where
  "read_frame E max_len rest =
     bindE (read_frame_into E max_len rest) (\<lambda>(nonce, blob, rest). returnE (nonce, blob, rest))"

definition inspect :: "crypto \<Rightarrow> os \<Rightarrow> path \<Rightarrow> byte list \<Rightarrow> header vio" where
  "inspect cr E container hmac_key =
     bindE (mapE Io (open_read E container)) (\<lambda>f.
     bindE (mapE Io (read_exact E HEADER_LEN f)) (\<lambda>(hb, _).
       liftR (from_bytes cr hmac_key hb)))"

text \<open>
  The body of the frame loop of \<open>verify_structure\<close> after the probe byte: eleven bytes of nonce,
  the length, and \<open>len\<close> bytes copied to a sink (any shortfall or error is tampering).
\<close>

definition verify_frame :: "os \<Rightarrow> byte list \<Rightarrow> byte list vio" where
  "verify_frame E rest =
     bindE (mapE Io (read_exact E (NONCE_LEN - 1) rest)) (\<lambda>(_, rest).
     bindE (mapE Io (read_exact E 4 rest)) (\<lambda>(len_bytes, rest).
       let len = unat (u32_from_le len_bytes)
       in if len < TAG_LEN \<or> CHUNK_SIZE + TAG_LEN < len then throwE Tampered
          else bindE (mapE (\<lambda>_. Tampered) (read_exact E len rest)) (\<lambda>(_, rest). returnE rest)))"

lemma read_exact_Inr:
  "read_exact E n rest w = (Inr (a, b), w') \<Longrightarrow>
     rest = a @ b \<and> length a = n \<and> w' = w\<lparr>w_tick := Suc (w_tick w)\<rparr>"
  by (auto simp: read_exact_def sysop_def Let_def split: if_splits)

lemma read_some_Inr:
  "read_some E n rest w = (Inr (a, b), w') \<Longrightarrow>
     a = take n rest \<and> b = drop n rest \<and> w' = w\<lparr>w_tick := Suc (w_tick w)\<rparr>"
  by (auto simp: read_some_def sysop_def Let_def split: if_splits)

lemma verify_frame_shrinks: "verify_frame E rest w = (Inr rest', w') \<Longrightarrow> length rest' \<le> length rest"
  by (auto simp: verify_frame_def bindE_Inr_iff mapE_Inr_iff Let_def
      dest!: read_exact_Inr split: if_splits)

function verify_loop :: "os \<Rightarrow> byte list \<Rightarrow> u64 \<Rightarrow> u64 vio" where
  "verify_loop E r frames w =
     (case read_some E 1 r w of
        (Inl e, w) \<Rightarrow> (Inl (Io e), w)
      | (Inr (probe, rest), w) \<Rightarrow>
          if probe = [] then (Inr frames, w)
          else (case verify_frame E rest w of
                  (Inl e, w) \<Rightarrow> (Inl e, w)
                | (Inr rest, w) \<Rightarrow> verify_loop E rest (frames + 1) w))"
  by pat_completeness auto
termination
proof (relation "measure (\<lambda>(E, r, frames, w). length r)")
  fix E r frames w res w1 x probe rest res2 w2 rest2
  assume "(res, w1) = read_some E 1 r w" "res = Inr x" "(probe, rest) = x" "probe \<noteq> []"
    and "(res2, w2) = verify_frame E rest w1" "res2 = Inr rest2"
  then have "read_some E 1 r w = (Inr (probe, rest), w1)" "verify_frame E rest w1 = (Inr rest2, w2)"
    by simp_all
  then have "length rest2 < length r"
    using \<open>probe \<noteq> []\<close> by (cases r) (auto dest!: read_some_Inr verify_frame_shrinks)
  then show "((E, rest2, frames + 1, w2), E, r, frames, w) \<in> measure (\<lambda>(E, r, frames, w). length r)"
    by simp
qed simp

declare verify_loop.simps [simp del]

definition verify_structure :: "crypto \<Rightarrow> os \<Rightarrow> path \<Rightarrow> byte list \<Rightarrow> u64 vio" where
  "verify_structure cr E container hmac_key =
     bindE (mapE Io (open_read E container)) (\<lambda>f.
     bindE (mapE Io (read_exact E HEADER_LEN f)) (\<lambda>(hb, r).
     bindE (liftR (from_bytes cr hmac_key hb)) (\<lambda>_.
     bindE (read_frame E MAX_MANIFEST_LEN r) (\<lambda>(_, _, r).
       verify_loop E r 0))))"

section \<open>Frames as a self-delimiting code\<close>

type_synonym frame = "byte list \<times> byte list"

definition frame_bytes :: "frame \<Rightarrow> byte list" where
  "frame_bytes f = fst f @ u32_to_le (word_of_nat (length (snd f))) @ snd f"

definition frame_ok :: "nat \<Rightarrow> frame \<Rightarrow> bool" where
  "frame_ok mx f \<longleftrightarrow> length (fst f) = NONCE_LEN \<and> TAG_LEN \<le> length (snd f) \<and> length (snd f) \<le> mx"

text \<open>
  The interface of a format whose items tell their own length: a stream splits into items in
  one way only, so a reader that takes items off the front reads what was written.
\<close>

locale self_delimiting =
  fixes item :: "'f \<Rightarrow> byte list"
    and ok :: "'f \<Rightarrow> bool"
  assumes item_nonempty: "ok f \<Longrightarrow> item f \<noteq> []"
    and item_front: "ok f \<Longrightarrow> ok g \<Longrightarrow> item f @ r = item g @ s \<Longrightarrow> f = g \<and> r = s"
begin

lemma stream_unique:
  "list_all ok fs \<Longrightarrow> list_all ok gs \<Longrightarrow> concat (map item fs) = concat (map item gs) \<Longrightarrow> fs = gs"
proof (induction fs arbitrary: gs)
  case Nil
  then show ?case using item_nonempty by (cases gs) auto
next
  case (Cons f fs)
  then obtain g gs' where gs: "gs = g # gs'" using item_nonempty by (cases gs) auto
  with Cons.prems have "f = g \<and> concat (map item fs) = concat (map item gs')"
    by (intro item_front) auto
  with gs Cons show ?case by simp
qed

lemma stream_count:
  "list_all ok fs \<Longrightarrow> list_all ok gs \<Longrightarrow> concat (map item fs) = concat (map item gs) \<Longrightarrow>
     length fs = length gs"
  using stream_unique by blast

end

lemma frame_len_word:
  assumes "n < 2 ^ 32"
  shows "unat (word_of_nat n :: u32) = n"
  using assms by (simp add: unat_of_nat)

lemma frame_front:
  assumes f: "frame_ok mx f" and g: "frame_ok mx g" and mx: "mx < 2 ^ 32"
    and e: "frame_bytes f @ r = frame_bytes g @ s"
  shows "f = g \<and> r = s"
proof -
  have n: "fst f = fst g" "u32_to_le (word_of_nat (length (snd f))) @ snd f @ r =
      u32_to_le (word_of_nat (length (snd g))) @ snd g @ s"
    using e f g by (simp_all add: frame_bytes_def frame_ok_def)
  then have "u32_to_le (word_of_nat (length (snd f))) = u32_to_le (word_of_nat (length (snd g)))
      \<and> snd f @ r = snd g @ s"
    by (intro append_eq_append_conv [THEN iffD1]) simp_all
  then have w: "(word_of_nat (length (snd f)) :: u32) = word_of_nat (length (snd g))"
    and rest: "snd f @ r = snd g @ s"
    by (simp_all add: le32.enc_inj)
  have "length (snd f) < 2 ^ 32" "length (snd g) < 2 ^ 32"
    using f g mx by (simp_all add: frame_ok_def)
  then have "length (snd f) = length (snd g)"
    using arg_cong [OF w, of unat] by (simp only: frame_len_word)
  with rest have "snd f = snd g" "r = s" by simp_all
  with n(1) show ?thesis by (simp add: prod_eq_iff)
qed

interpretation chunk_frames: self_delimiting frame_bytes "frame_ok (CHUNK_SIZE + TAG_LEN)"
proof
  show "frame_bytes f \<noteq> []" if "frame_ok (CHUNK_SIZE + TAG_LEN) f" for f
    using that by (auto simp: frame_bytes_def frame_ok_def NONCE_LEN_def)
  show "f = g \<and> r = s" if "frame_ok (CHUNK_SIZE + TAG_LEN) f" "frame_ok (CHUNK_SIZE + TAG_LEN) g"
    "frame_bytes f @ r = frame_bytes g @ s" for f g r s
    by (rule frame_front [OF that(1,2) _ that(3)]) (simp add: CHUNK_SIZE_def TAG_LEN_def)
qed

interpretation manifest_frames: self_delimiting frame_bytes "frame_ok MAX_MANIFEST_LEN"
proof
  show "frame_bytes f \<noteq> []" if "frame_ok MAX_MANIFEST_LEN f" for f
    using that by (auto simp: frame_bytes_def frame_ok_def NONCE_LEN_def)
  show "f = g \<and> r = s" if "frame_ok MAX_MANIFEST_LEN f" "frame_ok MAX_MANIFEST_LEN g"
    "frame_bytes f @ r = frame_bytes g @ s" for f g r s
    by (rule frame_front [OF that(1,2) _ that(3)]) (simp add: MAX_MANIFEST_LEN_def)
qed

section \<open>Reading frames\<close>

definition only_ticks :: "world \<Rightarrow> world \<Rightarrow> bool" where
  "only_ticks w w' \<longleftrightarrow> w' = w\<lparr>w_tick := w_tick w'\<rparr>"

lemma only_ticks_step: "only_ticks w (w\<lparr>w_tick := n\<rparr>)"
  by (simp add: only_ticks_def)

lemma only_ticks_trans: "only_ticks u v \<Longrightarrow> only_ticks v w \<Longrightarrow> only_ticks u w"
  unfolding only_ticks_def by (metis (no_types, lifting) world.surjective world.update_convs(4))

lemma only_ticks_refl [simp]: "only_ticks w w"
  by (simp add: only_ticks_def)

lemma only_ticks_fs: "only_ticks w w' \<Longrightarrow> w_fs w' = w_fs w"
  unfolding only_ticks_def by (metis world.select_convs(1) world.surjective world.update_convs(4))

lemma read_exact_runs:
  "no_fail E \<Longrightarrow> length a = n \<Longrightarrow> read_exact E n (a @ b) w = (Inr (a, b), w\<lparr>w_tick := Suc (w_tick w)\<rparr>)"
  by (simp add: read_exact_def sysop_def no_fail_def Let_def)

lemma read_probe_runs:
  "no_fail E \<Longrightarrow> read_some E 1 r w = (Inr (take 1 r, tl r), w\<lparr>w_tick := Suc (w_tick w)\<rparr>)"
  by (cases r) (simp_all add: read_some_def sysop_def no_fail_def Let_def)

lemma read_frame_into_Inr:
  assumes "read_frame_into E mx rest w = (Inr (nonce, blob, rest'), w')"
  shows "frame_ok mx (nonce, blob) \<and> rest = frame_bytes (nonce, blob) @ rest' \<and> only_ticks w w'"
proof -
  from assms obtain w1 lb r1 w2 r2 where 1: "read_exact E NONCE_LEN rest w = (Inr (nonce, r1), w1)"
    and 2: "read_exact E 4 r1 w1 = (Inr (lb, r2), w2)"
    and 3: "read_exact E (unat (u32_from_le lb)) r2 w2 = (Inr (blob, rest'), w')"
    and l: "TAG_LEN \<le> unat (u32_from_le lb)" "unat (u32_from_le lb) \<le> mx"
    by (auto simp: read_frame_into_def bindE_Inr_iff mapE_Inr_iff Let_def split: if_splits)
  note r = 1 2 3 [THEN read_exact_Inr]
  have "u32_to_le (word_of_nat (length blob)) = lb"
    using read_exact_Inr [OF 2] read_exact_Inr [OF 3] by (simp add: le32.enc_dec)
  moreover have "only_ticks w w'"
    using read_exact_Inr [OF 1] read_exact_Inr [OF 2] read_exact_Inr [OF 3] by (simp add: only_ticks_def)
  ultimately show ?thesis
    using read_exact_Inr [OF 1] read_exact_Inr [OF 2] read_exact_Inr [OF 3] l
    by (simp add: frame_ok_def frame_bytes_def)
qed

lemma frame_len_read:
  assumes "frame_ok mx f" and "mx < 2 ^ 32"
  shows "unat (u32_from_le (u32_to_le (word_of_nat (length (snd f))))) = length (snd f)"
  using assms frame_len_word [of "length (snd f)"] by (simp add: frame_ok_def)

lemma read_frame_into_runs:
  assumes "no_fail E" and f: "frame_ok mx f" and "mx < 2 ^ 32"
  shows "\<exists>w'. read_frame_into E mx (frame_bytes f @ r) w = (Inr (fst f, snd f, r), w') \<and> only_ticks w w'"
proof -
  let ?lb = "u32_to_le (word_of_nat (length (snd f)))"
  have "length (fst f) = NONCE_LEN" "TAG_LEN \<le> length (snd f)" "length (snd f) \<le> mx"
    using f by (simp_all add: frame_ok_def)
  then show ?thesis
    using read_exact_runs [OF assms(1)] frame_len_read [OF f assms(3)]
    by (simp add: read_frame_into_def frame_bytes_def bindE_def mapE_def Let_def only_ticks_def)
qed

lemma verify_frame_Inr:
  assumes "verify_frame E rest w = (Inr rest', w')"
  shows "\<exists>f. frame_ok (CHUNK_SIZE + TAG_LEN) f \<and> b # rest = frame_bytes f @ rest' \<and> only_ticks w w'"
proof -
  from assms obtain n w1 lb r1 w2 r2 blob where 1: "read_exact E (NONCE_LEN - 1) rest w = (Inr (n, r1), w1)"
    and 2: "read_exact E 4 r1 w1 = (Inr (lb, r2), w2)"
    and 3: "read_exact E (unat (u32_from_le lb)) r2 w2 = (Inr (blob, rest'), w')"
    and l: "TAG_LEN \<le> unat (u32_from_le lb)" "unat (u32_from_le lb) \<le> CHUNK_SIZE + TAG_LEN"
    by (auto simp: verify_frame_def bindE_Inr_iff mapE_Inr_iff Let_def split: if_splits)
  have "u32_to_le (word_of_nat (length blob)) = lb"
    using read_exact_Inr [OF 2] read_exact_Inr [OF 3] by (simp add: le32.enc_dec)
  moreover have "only_ticks w w'"
    using read_exact_Inr [OF 1] read_exact_Inr [OF 2] read_exact_Inr [OF 3] by (simp add: only_ticks_def)
  ultimately show ?thesis
    using read_exact_Inr [OF 1] read_exact_Inr [OF 2] read_exact_Inr [OF 3] l
    by (intro exI [of _ "(b # n, blob)"]) (simp add: frame_ok_def frame_bytes_def NONCE_LEN_def)
qed

lemma verify_frame_runs:
  assumes "no_fail E" and f: "frame_ok (CHUNK_SIZE + TAG_LEN) f"
  shows "\<exists>w'. verify_frame E (tl (frame_bytes f @ r)) w = (Inr r, w') \<and> only_ticks w w'"
proof -
  obtain b n where n: "fst f = b # n" "length n = NONCE_LEN - 1"
    using f by (cases "fst f") (auto simp: frame_ok_def NONCE_LEN_def)
  have "TAG_LEN \<le> length (snd f)" "length (snd f) \<le> CHUNK_SIZE + TAG_LEN"
    using f by (simp_all add: frame_ok_def)
  moreover have "CHUNK_SIZE + TAG_LEN < 2 ^ 32" by (simp add: CHUNK_SIZE_def TAG_LEN_def)
  ultimately show ?thesis
    using read_exact_runs [OF assms(1)] frame_len_read [OF f] n
    by (simp add: verify_frame_def frame_bytes_def bindE_def mapE_def Let_def only_ticks_def)
qed

abbreviation chunk_frame :: "frame \<Rightarrow> bool" where
  "chunk_frame \<equiv> frame_ok (CHUNK_SIZE + TAG_LEN)"

lemma verify_loop_end:
  "read_some E 1 r w = (Inr ([], rest), w1) \<Longrightarrow> verify_loop E r frames w = (Inr frames, w1)"
  by (subst verify_loop.simps) (simp del: One_nat_def)

lemma verify_loop_next:
  "read_some E 1 r w = (Inr (probe, rest), w1) \<Longrightarrow> probe \<noteq> [] \<Longrightarrow>
     verify_frame E rest w1 = (Inr rest2, w2) \<Longrightarrow>
     verify_loop E r frames w = verify_loop E rest2 (frames + 1) w2"
  by (subst verify_loop.simps) (simp del: One_nat_def)

lemma verify_loop_Inr:
  "verify_loop E r frames w = (Inr n, w') \<Longrightarrow>
     \<exists>fs. list_all chunk_frame fs \<and> r = concat (map frame_bytes fs)
        \<and> n = frames + word_of_nat (length fs) \<and> only_ticks w w'"
proof (induction E r frames w arbitrary: n w' rule: verify_loop.induct)
  case (1 E r frames w)
  from 1(2) obtain probe rest w1 where rd: "read_some E 1 r w = (Inr (probe, rest), w1)"
    by (subst (asm) verify_loop.simps) (auto split: prod.splits sum.splits)
  have t1: "only_ticks w w1" and r: "probe = take 1 r" "rest = drop 1 r"
    using read_some_Inr [OF rd] by (simp_all add: only_ticks_def)
  show ?case
  proof (cases "probe = []")
    case True
    have "verify_loop E r frames w = (Inr frames, w1)"
      by (rule verify_loop_end [OF rd [unfolded True]])
    with 1(2) have "n = frames" "w' = w1" by simp_all
    moreover have "r = []" using True r(1) by (cases r) auto
    ultimately show ?thesis using t1 by (intro exI [of _ "[]"]) simp
  next
    case False
    with r obtain b where b: "r = b # rest" by (cases r) auto
    from 1(2) rd False obtain rest2 w2 where vf: "verify_frame E rest w1 = (Inr rest2, w2)"
      and rec: "verify_loop E rest2 (frames + 1) w2 = (Inr n, w')"
      by (subst (asm) verify_loop.simps) (auto split: prod.splits sum.splits)
    obtain f where f: "chunk_frame f" "b # rest = frame_bytes f @ rest2" "only_ticks w1 w2"
      using verify_frame_Inr [OF vf] by blast
    obtain fs where "list_all chunk_frame fs" "rest2 = concat (map frame_bytes fs)"
      "n = frames + 1 + word_of_nat (length fs)" "only_ticks w2 w'"
      using "1.IH" [OF rd [symmetric] refl refl False vf [symmetric] refl rec] by blast
    with f b t1 show ?thesis
      by (intro exI [of _ "f # fs"]) (auto intro: only_ticks_trans)
  qed
qed

lemma verify_loop_runs:
  assumes "no_fail E" and "list_all chunk_frame fs"
  shows "\<exists>w'. verify_loop E (concat (map frame_bytes fs)) frames w = (Inr (frames + word_of_nat (length fs)), w')"
  using assms(2)
proof (induction fs arbitrary: frames w)
  case Nil
  show ?case
    using verify_loop_end [of E "[]" w "[]"] read_probe_runs [OF assms(1), of "[]"] by simp
next
  case (Cons f fs)
  then have f: "chunk_frame f" by simp
  have ne: "frame_bytes f \<noteq> []" using f by (rule chunk_frames.item_nonempty)
  let ?r = "frame_bytes f @ concat (map frame_bytes fs)" and ?w1 = "w\<lparr>w_tick := Suc (w_tick w)\<rparr>"
  have rd: "read_some E 1 ?r w = (Inr (take 1 ?r, tl ?r), ?w1)"
    using assms(1) by (rule read_probe_runs)
  obtain w2 where vf: "verify_frame E (tl ?r) ?w1 = (Inr (concat (map frame_bytes fs)), w2)"
    using verify_frame_runs [OF assms(1) f] by blast
  have "take 1 ?r \<noteq> []" using ne by (cases ?r) simp_all
  then have "verify_loop E ?r frames w = verify_loop E (concat (map frame_bytes fs)) (frames + 1) w2"
    by (rule verify_loop_next [OF rd _ vf])
  moreover obtain w' where "verify_loop E (concat (map frame_bytes fs)) (frames + 1) w2 =
      (Inr (frames + 1 + word_of_nat (length fs)), w')"
    using Cons by auto
  ultimately show ?case by (simp add: add.assoc)
qed

text \<open>A concrete container file: the sample header, an empty manifest frame and two empty chunks.\<close>

definition sample_frame :: frame where
  "sample_frame = (replicate 12 0, replicate 16 0)"

definition sample_container :: "frame list \<Rightarrow> byte list" where
  "sample_container fs = to_bytes toy_crypto [] sample_header @ frame_bytes sample_frame @ concat (map frame_bytes fs)"

definition container_world :: "byte list \<Rightarrow> world" where
  "container_world bs = \<lparr>w_fs = [([''c''], File \<lparr>f_content = bs, f_readonly = False, f_mtime = 0\<rparr>)],
     w_bin = [], w_rng = (\<lambda>_. 0), w_tick = 0, w_progress = []\<rparr>"

lemma sample_header_parses: "from_bytes toy_crypto [] (to_bytes toy_crypto [] sample_header) = Inr (sample_header\<lparr>hmac_ok := True\<rparr>)"
  using from_bytes_fields [OF wf_sample_header] to_bytes_eq [OF wf_sample_header toy_hmac_len] toy_hmac_len
  by (simp add: hmac_len_ok_def)

lemma length_sample_header: "length (to_bytes toy_crypto [] sample_header) = HEADER_LEN"
  by (simp add: length_to_bytes HEADER_LEN_def)

lemma sample_frame_ok [simp]: "16 \<le> mx \<Longrightarrow> frame_ok mx sample_frame"
  by (simp add: frame_ok_def sample_frame_def NONCE_LEN_def TAG_LEN_def)

lemma lookup_container_world [simp]:
  "lookup (container_world bs) [''c''] = Some (File \<lparr>f_content = bs, f_readonly = False, f_mtime = 0\<rparr>)"
  by (simp add: container_world_def lookup_def get_def)

section \<open>Properties\<close>

text \<open>A container file without its keys: a header block that parses, one manifest frame, chunk frames.\<close>

definition framed_as :: "crypto \<Rightarrow> byte list \<Rightarrow> byte list \<Rightarrow> header \<Rightarrow> frame \<Rightarrow> frame list \<Rightarrow> bool" where
  "framed_as cr k content h m fs \<longleftrightarrow>
     (\<exists>hb. content = hb @ frame_bytes m @ concat (map frame_bytes fs) \<and> length hb = HEADER_LEN
        \<and> from_bytes cr k hb = Inr h)
     \<and> frame_ok MAX_MANIFEST_LEN m \<and> list_all chunk_frame fs"

lemma sample_framed:
  "framed_as toy_crypto [] (sample_container (replicate n sample_frame)) (sample_header\<lparr>hmac_ok := True\<rparr>)
     sample_frame (replicate n sample_frame)"
  unfolding framed_as_def
  by (intro conjI exI [of _ "to_bytes toy_crypto [] sample_header"])
     (simp_all add: sample_container_def sample_header_parses length_sample_header MAX_MANIFEST_LEN_def
       TAG_LEN_def list_all_iff)

lemma verify_structure_Inr:
  assumes "verify_structure cr E p k w = (Inr n, w')"
  shows "\<exists>d h m fs. lookup w p = Some (File d) \<and> framed_as cr k (f_content d) h m fs
           \<and> n = word_of_nat (length fs)"
proof -
  from assms obtain f w1 hb r w2 h nonce blob r2 w3 where 1: "open_read E p w = (Inr f, w1)"
    and 2: "read_exact E HEADER_LEN f w1 = (Inr (hb, r), w2)" and h: "from_bytes cr k hb = Inr h"
    and 3: "read_frame_into E MAX_MANIFEST_LEN r w2 = (Inr (nonce, blob, r2), w3)"
    and 4: "verify_loop E r2 0 w3 = (Inr n, w')"
    by (auto simp: verify_structure_def read_frame_def bindE_Inr_iff mapE_Inr_iff)
  obtain d where "lookup w p = Some (File d)" "f = f_content d"
    using 1 by (auto simp: open_read_def sysop_def lookup_def Let_def split: if_splits option.splits node.splits)
  then show ?thesis
    using read_exact_Inr [OF 2] h read_frame_into_Inr [OF 3] verify_loop_Inr [OF 4]
    unfolding framed_as_def by fastforce
qed

lemma verify_structure_runs:
  assumes nf: "no_fail E" and d: "lookup w p = Some (File d)" and fr: "framed_as cr k (f_content d) h m fs"
  shows "fst (verify_structure cr E p k w) = Inr (word_of_nat (length fs))"
proof -
  let ?w1 = "w\<lparr>w_tick := Suc (w_tick w)\<rparr>" let ?w2 = "?w1\<lparr>w_tick := Suc (w_tick ?w1)\<rparr>"
  let ?r = "concat (map frame_bytes fs)"
  obtain hb where hb: "f_content d = hb @ frame_bytes m @ ?r" "length hb = HEADER_LEN"
    "from_bytes cr k hb = Inr h"
    using fr by (auto simp: framed_as_def)
  have m: "frame_ok MAX_MANIFEST_LEN m" and fs: "list_all chunk_frame fs"
    using fr by (simp_all add: framed_as_def)
  have 1: "open_read E p w = (Inr (f_content d), ?w1)"
    using nf d by (simp add: open_read_def sysop_def no_fail_def lookup_def Let_def)
  have 2: "read_exact E HEADER_LEN (f_content d) ?w1 = (Inr (hb, frame_bytes m @ ?r), ?w2)"
    unfolding hb(1) using nf hb(2) by (rule read_exact_runs)
  obtain w3 where 3: "read_frame_into E MAX_MANIFEST_LEN (frame_bytes m @ ?r) ?w2 = (Inr (fst m, snd m, ?r), w3)"
    using read_frame_into_runs [OF nf m] by (auto simp: MAX_MANIFEST_LEN_def)
  obtain w4 where "verify_loop E ?r 0 w3 = (Inr (word_of_nat (length fs)), w4)"
    using verify_loop_runs [OF nf fs, of 0 w3] by auto
  with 1 2 3 hb(3) show ?thesis
    by (simp add: verify_structure_def read_frame_def bindE_def mapE_def)
qed

text \<open>
  C21: \<open>verify_structure\<close> accepts exactly the well-formed container files: if it reports \<open>n\<close>
  frames, whatever I/O errors occurred before, the file is a header block that parses followed
  by one manifest frame and \<open>n\<close> chunk frames up to its very end, each with a length in range; and
  every such file is accepted, with this count, when no I/O error occurs.
\<close>

theorem verify_structure_exact:
  "(\<forall>n w'. verify_structure cr E p k w = (Inr n, w') \<longrightarrow>
      (\<exists>d h m fs. lookup w p = Some (File d) \<and> framed_as cr k (f_content d) h m fs
         \<and> n = word_of_nat (length fs)))
   \<and> (\<forall>d h m fs. no_fail E \<longrightarrow> lookup w p = Some (File d) \<longrightarrow> framed_as cr k (f_content d) h m fs \<longrightarrow>
      fst (verify_structure cr E p k w) = Inr (word_of_nat (length fs)))"
  using verify_structure_Inr verify_structure_runs by blast

theorem verify_structure_exact_witness:
  "fst (verify_structure toy_crypto calm [''c''] [] (container_world (sample_container [sample_frame, sample_frame])))
     = Inr 2"
proof -
  let ?fs = "replicate 2 sample_frame"
  have "fst (verify_structure toy_crypto calm [''c''] [] (container_world (sample_container ?fs)))
      = Inr (word_of_nat (length ?fs))"
    using verify_structure_exact [THEN conjunct2, rule_format, OF no_fail_calm lookup_container_world]
      sample_framed [of 2] by simp
  then show ?thesis by (simp add: numeral_2_eq_2)
qed

text \<open>
  C22: The structural check does not notice a container cut off between frames: it accepts the
  shortened file too, only with a smaller count.
\<close>

theorem verify_structure_misses_truncation:
  assumes "no_fail E" and "lookup w p = Some (File d)" and "framed_as cr k (f_content d) h m (fs @ gs)"
    and "lookup w2 p = Some (File (d\<lparr>f_content :=
           take (length (f_content d) - length (concat (map frame_bytes gs))) (f_content d)\<rparr>))"
  shows "fst (verify_structure cr E p k w) = Inr (word_of_nat (length (fs @ gs)))
    \<and> fst (verify_structure cr E p k w2) = Inr (word_of_nat (length fs))"
proof -
  have "framed_as cr k (take (length (f_content d) - length (concat (map frame_bytes gs))) (f_content d)) h m fs"
    using assms(3) unfolding framed_as_def by auto
  then show ?thesis
    using verify_structure_runs [OF assms(1,4)] verify_structure_runs [OF assms(1-3)] by simp
qed

theorem verify_structure_misses_truncation_witness:
  "fst (verify_structure toy_crypto calm [''c''] [] (container_world (sample_container [sample_frame, sample_frame])))
     = Inr 2
   \<and> fst (verify_structure toy_crypto calm [''c''] [] (container_world (sample_container [sample_frame]))) = Inr 1"
proof -
  have cut: "take (length (sample_container [sample_frame, sample_frame]) - length (concat (map frame_bytes [sample_frame])))
      (sample_container [sample_frame, sample_frame]) = sample_container [sample_frame]"
    by (simp add: sample_container_def)
  have "framed_as toy_crypto [] (sample_container [sample_frame, sample_frame]) (sample_header\<lparr>hmac_ok := True\<rparr>)
      sample_frame ([sample_frame] @ [sample_frame])"
    using sample_framed [of 2] by (simp add: numeral_2_eq_2)
  then show ?thesis
    using verify_structure_misses_truncation [OF no_fail_calm, of
        "container_world (sample_container [sample_frame, sample_frame])" "[''c'']"
        "\<lparr>f_content = sample_container [sample_frame, sample_frame], f_readonly = False, f_mtime = 0\<rparr>"
        toy_crypto "[]" "sample_header\<lparr>hmac_ok := True\<rparr>" sample_frame "[sample_frame]" "[sample_frame]"
        "container_world (sample_container [sample_frame])"] cut
    by simp
qed

end
