(* ===== verification/Recovery.thy ===== *)
theory Recovery
  imports Header
begin

text \<open>
  \<open>crates/vault-core/src/recovery.rs\<close>: the master recovery key. The recovery code is a
  Crockford base-32 text of the 256-bit secret with a checksum; sealing and opening a data
  key is an X25519 sealed box. A \<open>char\<close> of the code is a Unicode scalar value; the cast
  \<open>c as u8\<close> keeps its low eight bits.
\<close>

section \<open>The code\<close>

type_synonym uchar = "32 word"

text \<open>\<open>b"0123456789ABCDEFGHJKMNPQRSTVWXYZ"\<close>.\<close>

definition CROCKFORD :: "byte list" where
  "CROCKFORD = [48, 49, 50, 51, 52, 53, 54, 55, 56, 57,
     65, 66, 67, 68, 69, 70, 71, 72, 74, 75, 77, 78, 80, 81, 82, 83, 84, 86, 87, 88, 89, 90]"

definition CODE_DATA_CHARS :: nat where "CODE_DATA_CHARS = 52"
definition CODE_CHECK_CHARS :: nat where "CODE_CHECK_CHARS = 4"

text \<open>The inner \<open>while bits >= 5 && emitted < n_chars\<close> loop, then the loop over the bytes.\<close>

function emit_loop :: "u32 \<Rightarrow> nat \<Rightarrow> nat \<Rightarrow> nat \<Rightarrow> byte list \<Rightarrow> nat \<times> nat \<times> byte list" where
  "emit_loop acc n_chars bits emitted out =
     (if 5 \<le> bits \<and> emitted < n_chars
      then emit_loop acc n_chars (bits - 5) (emitted + 1)
             (out @ [CROCKFORD ! unat (drop_bit (bits - 5) acc AND 31)])
      else (bits, emitted, out))"
  by pat_completeness auto
termination
  by (relation "measure (\<lambda>(acc, n, bits, emitted, out). bits)") auto

declare emit_loop.simps [simp del]

primrec base32_loop ::
  "nat \<Rightarrow> byte list \<Rightarrow> u32 \<Rightarrow> nat \<Rightarrow> nat \<Rightarrow> byte list \<Rightarrow> u32 \<times> nat \<times> nat \<times> byte list" where
  "base32_loop n_chars [] acc bits emitted out = (acc, bits, emitted, out)"
| "base32_loop n_chars (b # bs) acc bits emitted out =
     (let acc = push_bit 8 acc OR ucast b;
          (bits, emitted, out) = emit_loop acc n_chars (bits + 8) emitted out
      in base32_loop n_chars bs acc bits emitted out)"

definition encode_base32 :: "byte list \<Rightarrow> nat \<Rightarrow> byte list \<Rightarrow> byte list" where
  "encode_base32 bytes n_chars out =
     (let (acc, bits, emitted, out) = base32_loop n_chars bytes 0 0 0 out
      in if emitted < n_chars
         then out @ [CROCKFORD ! unat (push_bit (5 - bits) acc AND 31)] else out)"

text \<open>\<open>chunks(4)\<close> and \<open>join("-")\<close> on the collected characters.\<close>

function (sequential) chunks4 :: "'a list \<Rightarrow> 'a list list" where
  "chunks4 [] = []"
| "chunks4 xs = take 4 xs # chunks4 (drop 4 xs)"
  by pat_completeness auto
termination
  by (relation "measure length") auto

fun join_sep :: "'a \<Rightarrow> 'a list list \<Rightarrow> 'a list" where
  "join_sep s [] = []"
| "join_sep s [g] = g"
| "join_sep s (g # gs) = g @ s # join_sep s gs"

definition encode_code :: "crypto \<Rightarrow> byte list \<Rightarrow> uchar list" where
  "encode_code cr secret =
     (let chars = encode_base32 secret CODE_DATA_CHARS [];
          check = sha256 cr secret;
          chars = encode_base32 (take 3 check) CODE_CHECK_CHARS chars
      in join_sep 0x2D (chunks4 (map ucast chars)))"

definition to_ascii_uppercase :: "uchar \<Rightarrow> uchar" where
  "to_ascii_uppercase c = (if 0x61 \<le> c \<and> c \<le> 0x7A then c - 0x20 else c)"

text \<open>\<open>CROCKFORD.iter().position(|&a| a == c as u8)\<close>.\<close>

fun position :: "('a \<Rightarrow> bool) \<Rightarrow> 'a list \<Rightarrow> nat option" where
  "position p [] = None"
| "position p (x # xs) = (if p x then Some 0 else map_option Suc (position p xs))"

text \<open>
  One turn of the symbol loop: \<open>Some None\<close> for a separator (\<open>continue\<close>), \<open>Some (Some v)\<close> for a
  symbol, \<open>None\<close> when the code is refused.
\<close>

definition read_symbol :: "uchar \<Rightarrow> nat option option" where
  "read_symbol c =
     (let c = to_ascii_uppercase c
      in if c = 0x2D \<or> c = 0x20 then Some None
         else let c = (if c = 0x49 \<or> c = 0x4C then 0x31 else if c = 0x4F then 0x30 else c)
         in map_option Some (position (\<lambda>a. a = ucast c) CROCKFORD))"

fun code_values :: "uchar list \<Rightarrow> nat list option" where
  "code_values [] = Some []"
| "code_values (c # cs) =
     (case read_symbol c of
        None \<Rightarrow> None
      | Some None \<Rightarrow> code_values cs
      | Some (Some v) \<Rightarrow> map_option (\<lambda>vs. v # vs) (code_values cs))"

text \<open>The bit accumulator of the decoder: \<open>secret\<close> is a 32-byte array written by index.\<close>

primrec decode_loop ::
  "nat list \<Rightarrow> u32 \<Rightarrow> nat \<Rightarrow> nat \<Rightarrow> byte list \<Rightarrow> nat \<times> byte list" where
  "decode_loop [] acc bits idx secret = (idx, secret)"
| "decode_loop (v # vs) acc bits idx secret =
     (let acc = push_bit 5 acc OR word_of_nat v;
          bits = bits + 5
      in if 8 \<le> bits
         then let bits = bits - 8
              in if idx < 32
                 then decode_loop vs acc bits (idx + 1)
                        (secret[idx := ucast (drop_bit bits acc AND 0xFF)])
                 else decode_loop vs acc bits idx secret
         else decode_loop vs acc bits idx secret)"

definition decode_vals :: "crypto \<Rightarrow> nat list \<Rightarrow> byte list option" where
  "decode_vals cr vals =
     (if length vals \<noteq> CODE_DATA_CHARS + CODE_CHECK_CHARS then None
      else let (idx, secret) = decode_loop (take CODE_DATA_CHARS vals) 0 0 0 (replicate 32 0)
      in if idx \<noteq> 32 then None
      else let expect = encode_base32 (take 3 (sha256 cr secret)) CODE_CHECK_CHARS [];
               got = map (\<lambda>v. CROCKFORD ! v) (drop CODE_DATA_CHARS vals)
      in if got \<noteq> expect then None else Some secret)"

definition decode_code :: "crypto \<Rightarrow> uchar list \<Rightarrow> byte list option" where
  "decode_code cr code = Option.bind (code_values code) (decode_vals cr)"

text \<open>\<open>b"fvlt-master-kek-v1"\<close>.\<close>

definition MASTER_KEK_LABEL :: "byte list" where
  "MASTER_KEK_LABEL = [102, 118, 108, 116, 45, 109, 97, 115, 116, 101, 114, 45, 107, 101, 107, 45, 118, 49]"

definition kek_from_shared :: "crypto \<Rightarrow> byte list \<Rightarrow> key" where
  "kek_from_shared cr shared = hmac_sha256 cr MASTER_KEK_LABEL shared"

record master_key_pair =
  mk_public :: "byte list"
  mk_code :: "uchar list"

definition generate_master :: "crypto \<Rightarrow> rng \<Rightarrow> master_key_pair \<times> rng" where
  "generate_master cr r =
     (let (sk, r) = fill_bytes 32 r
      in (\<lparr>mk_public = x25519_public cr sk, mk_code = encode_code cr sk\<rparr>, r))"

definition seal_dk :: "crypto \<Rightarrow> byte list \<Rightarrow> key \<Rightarrow> rng \<Rightarrow> byte list \<times> rng" where
  "seal_dk cr master_pub dk r =
     (let (eph, r) = fill_bytes 32 r;
          eph_pub = x25519_public cr eph;
          kek = kek_from_shared cr (x25519_dh cr eph master_pub);
          out = replicate MASTER_WRAP_LEN 0;
          out = blit out 0 eph_pub;
          (wrapped, r) = wrap_key cr kek dk r;
          out = blit out 32 wrapped
      in (out, r))"

definition open_dk :: "crypto \<Rightarrow> uchar list \<Rightarrow> byte list \<Rightarrow> key option" where
  "open_dk cr code wrap =
     (case decode_code cr code of
        None \<Rightarrow> None
      | Some sk \<Rightarrow> unwrap_key cr (kek_from_shared cr (x25519_dh cr sk (sub_bytes wrap 0 32))) (drop 32 wrap))"

definition is_enrolled :: "byte list \<Rightarrow> bool" where
  "is_enrolled wrap = list_ex (\<lambda>b. b \<noteq> 0) wrap"

section \<open>Positional numbers\<close>

text \<open>
  Encoder and decoder convert between radix 256 and radix 32. The value of a digit list,
  most significant digit first, and the facts that hold in every radix.
\<close>

definition num_of :: "nat \<Rightarrow> nat list \<Rightarrow> nat" where
  "num_of base ds = foldl (\<lambda>a d. a * base + d) 0 ds"

locale radix =
  fixes base :: nat
  assumes base_gt_1: "1 < base"
begin

lemma num_Nil: "num_of base [] = 0"
  by (simp add: num_of_def)

lemma num_snoc: "num_of base (ds @ [d]) = num_of base ds * base + d"
  by (simp add: num_of_def)

lemma num_inj:
  "length ds = length es \<Longrightarrow> list_all (\<lambda>d. d < base) ds \<Longrightarrow> list_all (\<lambda>d. d < base) es \<Longrightarrow>
     num_of base ds = num_of base es \<Longrightarrow> ds = es"
proof (induction ds arbitrary: es rule: rev_induct)
  case Nil
  then show ?case by simp
next
  case (snoc d ds)
  then obtain e es' where es: "es = es' @ [e]"
    by (metis append_Nil2 length_0_conv length_append_singleton nat.distinct(1) rev_exhaust)
  from snoc.prems es have eq: "num_of base ds * base + d = num_of base es' * base + e"
    and "d < base" and "e < base" by (simp_all add: num_snoc)
  then have "(num_of base ds * base + d) mod base = (num_of base es' * base + e) mod base"
    and "(num_of base ds * base + d) div base = (num_of base es' * base + e) div base"
    by simp_all
  with \<open>d < base\<close> \<open>e < base\<close> have "d = e" and "num_of base ds = num_of base es'"
    by simp_all
  with snoc es show ?case by simp
qed

end

interpretation r32: radix 32
  by unfold_locales simp

interpretation r256: radix 256
  by unfold_locales simp

text \<open>
  One step of a bit accumulator: shifting in \<open>k\<close> bits, and reading the top ones.
\<close>

lemma unat_shift_in:
  assumes "v < 2 ^ k" and "bits + k \<le> 32"
  shows "unat (push_bit k (acc :: u32) OR word_of_nat v) mod 2 ^ (bits + k)
     = unat acc mod 2 ^ bits * 2 ^ k + v"
proof -
  have k: "k \<le> 32" using assms(2) by simp
  have v32: "v < 2 ^ 32"
    using assms(1) k by (meson less_le_trans one_le_numeral power_increasing)
  have uv: "unat (word_of_nat v :: u32) = v"
    using v32 by (simp add: unat_of_nat)
  have "unat (push_bit k acc OR word_of_nat v) = unat (push_bit k acc) OR v"
    by (simp add: unsigned_or_eq uv)
  also have "take_bit (bits + k) \<dots> = take_bit (bits + k) (push_bit k (unat acc)) OR take_bit (bits + k) v"
    using assms(2) by (simp add: unsigned_push_bit_eq)
  also have "take_bit (bits + k) v = v"
    using assms(1) by (simp add: take_bit_nat_eq_self_iff less_le_trans power_increasing)
  also have "take_bit (bits + k) (push_bit k (unat acc)) = push_bit k (take_bit bits (unat acc))"
    by (simp add: push_bit_take_bit add.commute)
  also have "push_bit k (take_bit bits (unat acc)) OR v = push_bit k (take_bit bits (unat acc)) + v"
  proof (rule disjunctive_add [symmetric])
    fix n
    show "\<not> bit (push_bit k (take_bit bits (unat acc))) n \<or> \<not> bit v n"
    proof (cases "n < k")
      case True
      then show ?thesis by (simp add: bit_push_bit_iff)
    next
      case False
      then have "v < 2 ^ n" using assms(1) by (meson less_le_trans not_less one_le_numeral power_increasing)
      then show ?thesis by (simp add: bit_iff_odd)
    qed
  qed
  finally show ?thesis
    by (simp add: take_bit_eq_mod push_bit_eq_mult)
qed

lemma unat_read_top:
  "unat (drop_bit m (acc :: u32) AND mask n) = unat acc div 2 ^ m mod 2 ^ n"
proof -
  have "drop_bit m acc AND mask n = take_bit n (drop_bit m acc)"
    by (simp add: take_bit_eq_mask)
  then have "unat (drop_bit m acc AND mask n) = take_bit n (drop_bit m (unat acc))"
    by (simp only: unsigned_take_bit_eq unat_drop_bit_eq)
  then show ?thesis by (simp only: take_bit_eq_mod drop_bit_eq_div)
qed

lemma mod_split_top:
  "k \<le> bits \<Longrightarrow>
     (a::nat) mod 2 ^ bits = a div 2 ^ (bits - k) mod 2 ^ k * 2 ^ (bits - k) + a mod 2 ^ (bits - k)"
  using mod_mult2_eq [of a "2 ^ (bits - k)" "2 ^ k"]
  by (simp add: power_add [symmetric] mult.commute)

section \<open>The encoder writes the radix-32 digits\<close>

text \<open>Read as a number, digits written plus the bits still in the accumulator never change.\<close>

lemma emit_loop_spec:
  assumes "5 * emitted + bits \<le> 5 * n + 4"
  shows "\<exists>bits' vs. emit_loop acc n bits emitted out =
        (bits', emitted + length vs, out @ map ((!) CROCKFORD) vs)
      \<and> bits' < 5 \<and> 5 * length vs + bits' = bits \<and> list_all (\<lambda>v. v < 32) vs
      \<and> (\<forall>ws. num_of 32 ws * 2 ^ bits + unat acc mod 2 ^ bits
             = num_of 32 (ws @ vs) * 2 ^ bits' + unat acc mod 2 ^ bits')"
  using assms
proof (induction acc n bits emitted out rule: emit_loop.induct)
  case (1 acc n bits emitted out)
  show ?case
  proof (cases "5 \<le> bits \<and> emitted < n")
    case False
    with "1.prems" have "bits < 5" by auto
    with False show ?thesis
      by (intro exI [of _ bits] exI [of _ "[]"]) (simp add: emit_loop.simps [of acc])
  next
    case True
    let ?v = "unat acc div 2 ^ (bits - 5) mod 32"
    have v: "unat (drop_bit (bits - 5) acc AND 31) = ?v"
      using unat_read_top [of "bits - 5" acc 5] by (simp add: mask_eq_exp_minus_1)
    from True "1.prems" have "5 * (emitted + 1) + (bits - 5) \<le> 5 * n + 4" by simp
    from "1.IH" [OF True this] obtain bits' vs where
      run: "emit_loop acc n (bits - 5) (emitted + 1)
          (out @ [CROCKFORD ! unat (drop_bit (bits - 5) acc AND 31)])
        = (bits', emitted + 1 + length vs,
           (out @ [CROCKFORD ! unat (drop_bit (bits - 5) acc AND 31)]) @ map ((!) CROCKFORD) vs)"
      and b: "bits' < 5" "5 * length vs + bits' = bits - 5" "list_all (\<lambda>v. v < 32) vs"
      and num: "\<And>ws. num_of 32 ws * 2 ^ (bits - 5) + unat acc mod 2 ^ (bits - 5)
             = num_of 32 (ws @ vs) * 2 ^ bits' + unat acc mod 2 ^ bits'"
      by blast
    have "num_of 32 ws * 2 ^ bits + unat acc mod 2 ^ bits
        = num_of 32 (ws @ ?v # vs) * 2 ^ bits' + unat acc mod 2 ^ bits'" for ws
    proof -
      have "(2::nat) ^ bits = 32 * 2 ^ (bits - 5)"
        using True power_add [of "2::nat" 5 "bits - 5"] by simp
      then have "num_of 32 ws * 2 ^ bits + unat acc mod 2 ^ bits
          = num_of 32 (ws @ [?v]) * 2 ^ (bits - 5) + unat acc mod 2 ^ (bits - 5)"
        using True mod_split_top [of 5 bits "unat acc"] by (simp add: r32.num_snoc algebra_simps)
      then show ?thesis using num [of "ws @ [?v]"] by simp
    qed
    moreover have "emit_loop acc n bits emitted out
        = (bits', emitted + length (?v # vs), out @ map ((!) CROCKFORD) (?v # vs))"
      by (subst emit_loop.simps) (use True run v in simp)
    moreover have "5 * length (?v # vs) + bits' = bits" using True b(2) by auto
    moreover have "list_all (\<lambda>v. v < 32) (?v # vs)" using b(3) by simp
    ultimately show ?thesis using b(1) by blast
  qed
qed

lemma base32_loop_spec:
  assumes "bits < 5" and "8 * length bs + 5 * emitted + bits \<le> 5 * n + 4"
    and "num_of 32 ws * 2 ^ bits + unat acc mod 2 ^ bits = num_of 256 ps"
  shows "\<exists>acc' bits' vs. base32_loop n bs acc bits emitted out =
        (acc', bits', emitted + length vs, out @ map ((!) CROCKFORD) vs)
      \<and> bits' < 5 \<and> 5 * length vs + bits' = 8 * length bs + bits \<and> list_all (\<lambda>v. v < 32) vs
      \<and> num_of 32 (ws @ vs) * 2 ^ bits' + unat acc' mod 2 ^ bits' = num_of 256 (ps @ map unat bs)"
  using assms
proof (induction bs arbitrary: acc bits emitted out ws ps)
  case Nil
  then show ?case by (intro exI [of _ acc] exI [of _ bits] exI [of _ "[]"]) simp
next
  case (Cons b bs)
  let ?acc = "push_bit 8 acc OR ucast b :: u32"
  have "unat ?acc mod 2 ^ (bits + 8) = unat acc mod 2 ^ bits * 256 + unat b"
    using unat_shift_in [of "unat b" 8 bits acc] Cons.prems(1) by simp
  then have start: "num_of 32 ws * 2 ^ (bits + 8) + unat ?acc mod 2 ^ (bits + 8) = num_of 256 (ps @ [unat b])"
    using Cons.prems(3) by (simp add: r256.num_snoc power_add algebra_simps)
  have "5 * emitted + (bits + 8) \<le> 5 * n + 4" using Cons.prems(2) by simp
  from emit_loop_spec [OF this, of ?acc out] obtain bits1 us where
    run1: "emit_loop ?acc n (bits + 8) emitted out = (bits1, emitted + length us, out @ map ((!) CROCKFORD) us)"
    and b1: "bits1 < 5" "5 * length us + bits1 = bits + 8" "list_all (\<lambda>v. v < 32) us"
    and num1: "\<And>ws. num_of 32 ws * 2 ^ (bits + 8) + unat ?acc mod 2 ^ (bits + 8)
             = num_of 32 (ws @ us) * 2 ^ bits1 + unat ?acc mod 2 ^ bits1"
    by blast
  have "8 * length bs + 5 * (emitted + length us) + bits1 \<le> 5 * n + 4"
    using Cons.prems(2) b1(2) by simp
  from Cons.IH [OF b1(1) this, of "ws @ us" ?acc "ps @ [unat b]" "out @ map ((!) CROCKFORD) us"]
    num1 [of ws] start obtain acc' bits' vs where
    run2: "base32_loop n bs ?acc bits1 (emitted + length us) (out @ map ((!) CROCKFORD) us) =
        (acc', bits', emitted + length us + length vs,
         (out @ map ((!) CROCKFORD) us) @ map ((!) CROCKFORD) vs)"
    and b2: "bits' < 5" "5 * length vs + bits' = 8 * length bs + bits1" "list_all (\<lambda>v. v < 32) vs"
    and num2: "num_of 32 ((ws @ us) @ vs) * 2 ^ bits' + unat acc' mod 2 ^ bits'
        = num_of 256 ((ps @ [unat b]) @ map unat bs)"
    by metis
  show ?case
    by (intro exI [of _ acc'] exI [of _ bits'] exI [of _ "us @ vs"])
      (use run1 run2 b1 b2 num2 in \<open>simp add: Let_def\<close>)
qed

text \<open>
  The whole encoder, for the two shapes it is used at: 32 bytes into 52 symbols (four zero
  bits appended) and 3 bytes into 4 symbols (the last four bits dropped).
\<close>

lemma encode_data:
  assumes "length bytes = 32"
  shows "\<exists>vs. encode_base32 bytes 52 out = out @ map ((!) CROCKFORD) vs
     \<and> length vs = 52 \<and> list_all (\<lambda>v. v < 32) vs \<and> num_of 32 vs = num_of 256 (map unat bytes) * 16"
proof -
  have "\<exists>acc' bits' vs. base32_loop 52 bytes 0 0 0 out =
        (acc', bits', 0 + length vs, out @ map ((!) CROCKFORD) vs)
      \<and> bits' < 5 \<and> 5 * length vs + bits' = 8 * length bytes + 0 \<and> list_all (\<lambda>v. v < 32) vs
      \<and> num_of 32 ([] @ vs) * 2 ^ bits' + unat acc' mod 2 ^ bits' = num_of 256 ([] @ map unat bytes)"
    by (rule base32_loop_spec) (simp_all add: assms r32.num_Nil r256.num_Nil)
  then obtain acc bits vs where run: "base32_loop 52 bytes 0 0 0 out =
        (acc, bits, length vs, out @ map ((!) CROCKFORD) vs)"
    and b: "bits < 5" "5 * length vs + bits = 256" and small: "list_all (\<lambda>v. v < 32) vs"
    and num: "num_of 32 vs * 2 ^ bits + unat acc mod 2 ^ bits = num_of 256 (map unat bytes)"
    using assms by auto
  from b have bits: "bits = 1" and len: "length vs = 51" by presburger+
  let ?v = "unat (push_bit 4 acc AND 31)"
  have "push_bit 4 acc AND 31 = take_bit 5 (push_bit 4 acc)"
    by (simp add: take_bit_eq_mask mask_eq_exp_minus_1)
  also have "\<dots> = push_bit 4 (take_bit 1 acc)"
    by (simp add: take_bit_push_bit)
  finally have "?v = unat (push_bit 4 (take_bit 1 acc))" by simp
  also have "\<dots> = take_bit 32 (push_bit 4 (unat (take_bit 1 acc)))"
    by (simp only: unsigned_push_bit_eq) simp
  also have "unat (take_bit 1 acc) = unat acc mod 2"
    by (simp only: unsigned_take_bit_eq take_bit_eq_mod) (simp add: unat_mod_distrib)
  also have "take_bit 32 (push_bit 4 (unat acc mod 2)) = take_bit 32 (unat acc mod 2 * 16)"
    by (simp only: push_bit_eq_mult) simp
  also have "take_bit 32 (unat acc mod 2 * 16) = unat acc mod 2 * 16"
    by (rule take_bit_nat_eq_self) (use mod_less_divisor [of 2 "unat acc"] in simp)
  finally have v: "?v = unat acc mod 2 * 16" .
  then have "?v < 32" by simp
  moreover have "num_of 32 (vs @ [?v]) = num_of 256 (map unat bytes) * 16"
    using num bits v by (simp add: r32.num_snoc)
  moreover have "encode_base32 bytes 52 out = out @ map ((!) CROCKFORD) (vs @ [?v])"
    using run len bits by (simp add: encode_base32_def)
  ultimately show ?thesis
    using small len by (intro exI [of _ "vs @ [?v]"]) simp
qed

lemma encode_check:
  assumes "length bytes = 3"
  shows "\<exists>vs. \<forall>out. encode_base32 bytes 4 out = out @ map ((!) CROCKFORD) vs
     \<and> length vs = 4 \<and> list_all (\<lambda>v. v < 32) vs"
proof -
  have ex: "\<exists>acc' bits' vs. base32_loop 4 bytes 0 0 0 out =
        (acc', bits', 0 + length vs, out @ map ((!) CROCKFORD) vs)
      \<and> bits' < 5 \<and> 5 * length vs + bits' = 8 * length bytes + 0 \<and> list_all (\<lambda>v. v < 32) vs
      \<and> num_of 32 ([] @ vs) * 2 ^ bits' + unat acc' mod 2 ^ bits' = num_of 256 ([] @ map unat bytes)" for out
    by (rule base32_loop_spec) (simp_all add: assms r32.num_Nil r256.num_Nil)
  have shape: "\<exists>vs. encode_base32 bytes 4 out = out @ map ((!) CROCKFORD) vs
      \<and> length vs = 4 \<and> list_all (\<lambda>v. v < 32) vs \<and> num_of 32 vs = num_of 256 (map unat bytes) div 16" for out
  proof -
    from ex [of out] obtain acc bits vs where run: "base32_loop 4 bytes 0 0 0 out =
        (acc, bits, length vs, out @ map ((!) CROCKFORD) vs)"
      and b: "bits < 5" "5 * length vs + bits = 24" and small: "list_all (\<lambda>v. v < 32) vs"
      and num: "num_of 32 vs * 2 ^ bits + unat acc mod 2 ^ bits = num_of 256 (map unat bytes)"
      using assms by auto
    from b have bits: "bits = 4" and len: "length vs = 4" by presburger+
    have "num_of 32 vs = num_of 256 (map unat bytes) div 16"
      unfolding num [symmetric] bits by simp
    then show ?thesis using run len small by (intro exI [of _ vs]) (simp add: encode_base32_def)
  qed
  from shape [of "[]"] obtain vs where vs: "length vs = 4" "list_all (\<lambda>v. v < 32) vs"
    "num_of 32 vs = num_of 256 (map unat bytes) div 16" by auto
  have "encode_base32 bytes 4 out = out @ map ((!) CROCKFORD) vs" for out
  proof -
    from shape [of out] obtain us where us: "encode_base32 bytes 4 out = out @ map ((!) CROCKFORD) us"
      "length us = 4" "list_all (\<lambda>v. v < 32) us" "num_of 32 us = num_of 256 (map unat bytes) div 16"
      by blast
    have "us = vs" by (rule r32.num_inj) (use us(2-4) vs in simp_all)
    with us(1) show ?thesis by simp
  qed
  with vs show ?thesis by blast
qed

section \<open>The decoder reads them back\<close>

lemma take_update_snoc:
  "i < length xs \<Longrightarrow> take (Suc i) (xs[i := x]) = take i xs @ [x]"
  by (simp add: take_Suc_conv_app_nth)

lemma decode_loop_spec:
  assumes "bits < 8" and "8 * idx + bits + 5 * length vs \<le> 263" and "length secret = 32"
    and "list_all (\<lambda>v. v < 32) vs"
    and "num_of 256 (map unat (take idx secret)) * 2 ^ bits + unat acc mod 2 ^ bits = num_of 32 ws"
  shows "\<exists>idx' secret' bits' rest. decode_loop vs acc bits idx secret = (idx', secret')
      \<and> bits' < 8 \<and> 8 * idx' + bits' = 8 * idx + bits + 5 * length vs \<and> length secret' = 32
      \<and> rest < 2 ^ bits'
      \<and> num_of 256 (map unat (take idx' secret')) * 2 ^ bits' + rest = num_of 32 (ws @ vs)"
  using assms
proof (induction vs arbitrary: acc bits idx secret ws)
  case Nil
  then show ?case
    by (intro exI [of _ idx] exI [of _ secret] exI [of _ bits] exI [of _ "unat acc mod 2 ^ bits"]) simp
next
  case (Cons v vs)
  let ?acc = "push_bit 5 acc OR word_of_nat v :: u32"
  have v: "v < 32" using Cons.prems(4) by simp
  have "unat ?acc mod 2 ^ (bits + 5) = unat acc mod 2 ^ bits * 32 + v"
    using unat_shift_in [of v 5 bits acc] v Cons.prems(1) by simp
  then have start: "num_of 256 (map unat (take idx secret)) * 2 ^ (bits + 5) + unat ?acc mod 2 ^ (bits + 5)
      = num_of 32 (ws @ [v])"
    using Cons.prems(5) by (simp add: r32.num_snoc power_add algebra_simps)
  show ?case
  proof (cases "8 \<le> bits + 5")
    case False
    then have "bits + 5 < 8" by simp
    from Cons.IH [OF this, of idx secret ?acc "ws @ [v]"] start Cons.prems False
    obtain idx' secret' bits' rest where
      "decode_loop vs ?acc (bits + 5) idx secret = (idx', secret')" and "bits' < 8"
      and "8 * idx' + bits' = 8 * idx + (bits + 5) + 5 * length vs" and "length secret' = 32"
      and "rest < 2 ^ bits'"
      and "num_of 256 (map unat (take idx' secret')) * 2 ^ bits' + rest = num_of 32 (ws @ v # vs)"
      by auto
    with False show ?thesis
      by (intro exI [of _ idx'] exI [of _ secret'] exI [of _ bits'] exI [of _ rest]) (simp add: Let_def)
  next
    case True
    define b where "b = bits + 5 - 8"
    have b: "b < 8" "bits + 5 = b + 8" using True Cons.prems(1) by (simp_all add: b_def)
    have idx: "idx < 32" using Cons.prems(2) b(2) by simp
    let ?x = "ucast (drop_bit b ?acc AND 0xFF) :: byte"
    have "unat (drop_bit b ?acc AND 0xFF) = unat ?acc div 2 ^ b mod 256"
      using unat_read_top [of b ?acc 8] by (simp add: mask_eq_exp_minus_1)
    then have x: "unat ?x = unat ?acc div 2 ^ b mod 256"
      by (simp add: unsigned_ucast_eq take_bit_eq_mod)
    have "num_of 256 (map unat (take idx secret)) * 2 ^ (b + 8) + unat ?acc mod 2 ^ (b + 8)
        = num_of 256 (map unat (take idx secret) @ [unat ?x]) * 2 ^ b + unat ?acc mod 2 ^ b"
      using mod_split_top [of 8 "b + 8" "unat ?acc"] x
      by (simp add: r256.num_snoc power_add algebra_simps)
    then have next_num: "num_of 256 (map unat (take (idx + 1) (secret[idx := ?x]))) * 2 ^ b
        + unat ?acc mod 2 ^ b = num_of 32 (ws @ [v])"
      using start b(2) idx Cons.prems(3) by (simp add: take_update_snoc)
    from Cons.IH [OF b(1), of "idx + 1" "secret[idx := ?x]" ?acc "ws @ [v]"] next_num Cons.prems b(2)
    obtain idx' secret' bits' rest where
      "decode_loop vs ?acc b (idx + 1) (secret[idx := ?x]) = (idx', secret')" and "bits' < 8"
      and "8 * idx' + bits' = 8 * (idx + 1) + b + 5 * length vs" and "length secret' = 32"
      and "rest < 2 ^ bits'"
      and "num_of 256 (map unat (take idx' secret')) * 2 ^ bits' + rest = num_of 32 (ws @ v # vs)"
      by auto
    with True b idx show ?thesis
      by (intro exI [of _ idx'] exI [of _ secret'] exI [of _ bits'] exI [of _ rest])
        (simp add: Let_def b_def [symmetric])
  qed
qed

text \<open>52 symbols always fill the 32 bytes, with the value of the symbols divided by 16.\<close>

lemma decode_data:
  assumes "length vs = 52" and "list_all (\<lambda>v. v < 32) vs"
  shows "\<exists>secret. decode_loop vs 0 0 0 (replicate 32 0) = (32, secret) \<and> length secret = 32
     \<and> num_of 256 (map unat secret) = num_of 32 vs div 16"
proof -
  have "\<exists>idx' secret' bits' rest. decode_loop vs 0 0 0 (replicate 32 0) = (idx', secret')
      \<and> bits' < 8 \<and> 8 * idx' + bits' = 8 * 0 + 0 + 5 * length vs \<and> length secret' = 32
      \<and> rest < 2 ^ bits'
      \<and> num_of 256 (map unat (take idx' secret')) * 2 ^ bits' + rest = num_of 32 ([] @ vs)"
    by (rule decode_loop_spec) (simp_all add: assms r32.num_Nil r256.num_Nil)
  then obtain idx secret bits rest where run: "decode_loop vs 0 0 0 (replicate 32 0) = (idx, secret)"
    and b: "bits < 8" "8 * idx + bits = 260" and len: "length secret = 32" and rest: "rest < 2 ^ bits"
    and num: "num_of 256 (map unat (take idx secret)) * 2 ^ bits + rest = num_of 32 vs"
    using assms by auto
  from b have "idx = 32" and "bits = 4" by presburger+
  with run len rest num show ?thesis by (intro exI [of _ secret]) auto
qed

lemma unat_digits [simp]: "list_all (\<lambda>d. d < 256) (map unat (bs :: byte list))"
  by (simp add: list_all_iff)

lemma bytes_eqI:
  assumes "length (bs :: byte list) = length cs"
    and "num_of 256 (map unat bs) = num_of 256 (map unat cs)"
  shows "bs = cs"
proof -
  have "map unat bs = map unat cs"
    by (rule r256.num_inj) (use assms in simp_all)
  then show ?thesis by (rule map_injective) (auto intro: injI)
qed

section \<open>Symbols and separators\<close>

lemma position_nth:
  "distinct xs \<Longrightarrow> i < length xs \<Longrightarrow> position (\<lambda>a. a = xs ! i) xs = Some i"
  by (induction xs arbitrary: i) (auto simp: nth_Cons split: nat.splits)

lemma position_bound: "position p xs = Some i \<Longrightarrow> i < length xs"
  by (induction xs arbitrary: i) (auto split: if_splits)

lemma CROCKFORD_facts:
  "length CROCKFORD = 32" "distinct CROCKFORD"
  "list_all (\<lambda>b. to_ascii_uppercase (ucast b) = ucast b \<and> (ucast b :: uchar) \<noteq> 0x2D
     \<and> (ucast b :: uchar) \<noteq> 0x20 \<and> (ucast b :: uchar) \<noteq> 0x49 \<and> (ucast b :: uchar) \<noteq> 0x4C
     \<and> (ucast b :: uchar) \<noteq> 0x4F) CROCKFORD"
  by (simp_all add: CROCKFORD_def to_ascii_uppercase_def word_le_nat_alt)

lemma read_symbol_CROCKFORD:
  assumes "v < 32"
  shows "read_symbol (ucast (CROCKFORD ! v)) = Some (Some v)"
proof -
  have "CROCKFORD ! v \<in> set CROCKFORD" using assms CROCKFORD_facts(1) by simp
  with CROCKFORD_facts(3) have "to_ascii_uppercase (ucast (CROCKFORD ! v)) = ucast (CROCKFORD ! v)"
    and "(ucast (CROCKFORD ! v) :: uchar) \<notin> {0x2D, 0x20, 0x49, 0x4C, 0x4F}"
    by (auto simp: list_all_iff)
  moreover have "ucast (ucast (CROCKFORD ! v) :: uchar) = CROCKFORD ! v"
    by (simp add: ucast_down_ucast_id is_down)
  ultimately show ?thesis
    using position_nth [OF CROCKFORD_facts(2), of v] CROCKFORD_facts(1) assms
    by (simp add: read_symbol_def Let_def)
qed

lemma read_symbol_bound: "read_symbol c = Some (Some v) \<Longrightarrow> v < 32"
  using position_bound CROCKFORD_facts(1) by (fastforce simp: read_symbol_def Let_def split: if_splits)

lemma code_values_bound: "code_values cs = Some vs \<Longrightarrow> list_all (\<lambda>v. v < 32) vs"
  by (induction cs arbitrary: vs) (auto split: option.splits intro: read_symbol_bound)

lemma read_symbol_dash [simp]: "read_symbol 0x2D = Some None"
  by (simp add: read_symbol_def to_ascii_uppercase_def word_le_nat_alt)

lemma code_values_append:
  "code_values (xs @ ys) =
     (case code_values xs of None \<Rightarrow> None
      | Some us \<Rightarrow> map_option (\<lambda>vs. us @ vs) (code_values ys))"
  by (cases "code_values ys"; induction xs; auto split: option.splits)

lemma code_values_join: "code_values (join_sep 0x2D gs) = code_values (concat gs)"
  by (induction "0x2D :: uchar" gs rule: join_sep.induct)
    (auto simp: code_values_append split: option.splits)

lemma concat_chunks4: "concat (chunks4 xs) = xs"
  by (induction xs rule: chunks4.induct) (simp_all add: append_take_drop_id del: take_Suc_Cons drop_Suc_Cons)

lemma code_values_symbols:
  "list_all (\<lambda>v. v < 32) vs \<Longrightarrow> code_values (map ucast (map ((!) CROCKFORD) vs)) = Some vs"
  by (induction vs) (simp_all add: read_symbol_CROCKFORD)

text \<open>The symbols of a printed code: the data digits of the secret, then the checksum.\<close>

definition sha_len_ok :: "crypto \<Rightarrow> bool" where
  "sha_len_ok cr \<longleftrightarrow> (\<forall>m. length (sha256 cr m) = 32)"

lemma encode_code_symbols:
  assumes "length secret = 32" and "sha_len_ok cr"
  obtains vs ws where "code_values (encode_code cr secret) = Some (vs @ ws)"
    and "length vs = 52" and "list_all (\<lambda>v. v < 32) vs" and "num_of 32 vs = num_of 256 (map unat secret) * 16"
    and "length ws = 4" and "list_all (\<lambda>v. v < 32) ws"
    and "encode_base32 (take 3 (sha256 cr secret)) CODE_CHECK_CHARS [] = map ((!) CROCKFORD) ws"
proof -
  from encode_data [OF assms(1), of "[]"] obtain vs where
    vs: "encode_base32 secret 52 [] = map ((!) CROCKFORD) vs" "length vs = 52"
      "list_all (\<lambda>v. v < 32) vs" "num_of 32 vs = num_of 256 (map unat secret) * 16"
    by auto
  have "length (take 3 (sha256 cr secret)) = 3" using assms(2) by (simp add: sha_len_ok_def)
  from encode_check [OF this] obtain ws where
    ws: "\<And>out. encode_base32 (take 3 (sha256 cr secret)) 4 out = out @ map ((!) CROCKFORD) ws"
      "length ws = 4" "list_all (\<lambda>v. v < 32) ws"
    by blast
  have "encode_code cr secret = join_sep 0x2D (chunks4 (map ucast (map ((!) CROCKFORD) (vs @ ws))))"
    by (simp add: encode_code_def CODE_DATA_CHARS_def CODE_CHECK_CHARS_def vs(1) ws(1))
  then have "code_values (encode_code cr secret) = Some (vs @ ws)"
    using vs(3) ws(3) by (simp only: code_values_join concat_chunks4) (rule code_values_symbols, simp)
  with vs ws show ?thesis by (intro that) (simp_all add: CODE_CHECK_CHARS_def)
qed

lemma decode_vals_data:
  assumes "length vs = 52" and "list_all (\<lambda>v. v < 32) vs" and "length ws = 4"
    and "length secret = 32" and "num_of 256 (map unat secret) = num_of 32 vs div 16"
  shows "decode_vals cr (vs @ ws) =
     (if map ((!) CROCKFORD) ws = encode_base32 (take 3 (sha256 cr secret)) CODE_CHECK_CHARS []
      then Some secret else None)"
proof -
  from decode_data [OF assms(1,2)] obtain s where
    s: "decode_loop vs 0 0 0 (replicate 32 0) = (32, s)" "length s = 32"
      "num_of 256 (map unat s) = num_of 32 vs div 16" by blast
  have "s = secret" by (rule bytes_eqI) (use s assms in simp_all)
  with s(1) assms show ?thesis
    by (simp add: decode_vals_def CODE_DATA_CHARS_def CODE_CHECK_CHARS_def)
qed

lemma decode_vals_Some:
  assumes "decode_vals cr vals = Some secret" and "list_all (\<lambda>v. v < 32) vals"
  shows "length vals = 56 \<and> length secret = 32
    \<and> num_of 256 (map unat secret) = num_of 32 (take 52 vals) div 16
    \<and> map ((!) CROCKFORD) (drop 52 vals) = encode_base32 (take 3 (sha256 cr secret)) CODE_CHECK_CHARS []"
proof -
  have len: "length vals = 56"
    using assms(1) by (auto simp: decode_vals_def CODE_DATA_CHARS_def CODE_CHECK_CHARS_def split: if_splits)
  have "list_all (\<lambda>v. v < 32) (take 52 vals)"
    using assms(2) by (auto simp: list_all_iff dest: in_set_takeD)
  from decode_data [OF _ this] len obtain s where
    s: "length (s :: byte list) = 32" "num_of 256 (map unat s) = num_of 32 (take 52 vals) div 16" by auto
  have "decode_vals cr (take 52 vals @ drop 52 vals) =
     (if map ((!) CROCKFORD) (drop 52 vals) = encode_base32 (take 3 (sha256 cr s)) CODE_CHECK_CHARS []
      then Some s else None)"
    by (rule decode_vals_data) (use len s \<open>list_all (\<lambda>v. v < 32) (take 52 vals)\<close> in simp_all)
  with assms(1) len s show ?thesis by (auto split: if_splits)
qed

lemma decode_encode_code:
  assumes "length secret = 32" and "sha_len_ok cr"
  shows "decode_code cr (encode_code cr secret) = Some secret"
proof -
  from encode_code_symbols [OF assms] obtain vs ws where
    "code_values (encode_code cr secret) = Some (vs @ ws)"
    and "length vs = 52" "list_all (\<lambda>v. v < 32) vs" "num_of 32 vs = num_of 256 (map unat secret) * 16"
    and "length ws = 4"
    and "encode_base32 (take 3 (sha256 cr secret)) CODE_CHECK_CHARS [] = map ((!) CROCKFORD) ws"
    by metis
  then show ?thesis
    using decode_vals_data [of vs ws secret cr] assms(1) by (simp add: decode_code_def)
qed

section \<open>Properties\<close>

text \<open>
  The ways a user may retype a code: letters in lower case, \<open>I\<close> or \<open>L\<close> for one and \<open>O\<close> for
  zero, dashes and blanks dropped or inserted anywhere.
\<close>

definition is_sep :: "uchar \<Rightarrow> bool" where
  "is_sep c \<longleftrightarrow> c = 0x2D \<or> c = 0x20"

definition same_symbol :: "uchar \<Rightarrow> uchar \<Rightarrow> bool" where
  "same_symbol c d \<longleftrightarrow> d = c \<or> (0x41 \<le> c \<and> c \<le> 0x5A \<and> d = c + 0x20)
     \<or> (c = 0x31 \<and> d \<in> {0x49, 0x4C, 0x69, 0x6C}) \<or> (c = 0x30 \<and> d \<in> {0x4F, 0x6F})"

inductive retyped :: "uchar list \<Rightarrow> uchar list \<Rightarrow> bool" where
  nothing: "retyped [] []"
| symbol: "same_symbol c d \<Longrightarrow> retyped cs ds \<Longrightarrow> retyped (c # cs) (d # ds)"
| dropped: "is_sep c \<Longrightarrow> retyped cs ds \<Longrightarrow> retyped (c # cs) ds"
| inserted: "is_sep d \<Longrightarrow> retyped cs ds \<Longrightarrow> retyped cs (d # ds)"

lemma read_symbol_sep: "is_sep c \<Longrightarrow> read_symbol c = Some None"
  by (auto simp: is_sep_def read_symbol_def to_ascii_uppercase_def word_le_nat_alt)

lemma uppercase_upper: "0x41 \<le> c \<Longrightarrow> c \<le> 0x5A \<Longrightarrow> to_ascii_uppercase c = c"
  by (simp add: to_ascii_uppercase_def word_le_nat_alt)

lemma uppercase_lower:
  assumes "0x41 \<le> c" and "c \<le> 0x5A"
  shows "to_ascii_uppercase (c + 0x20) = c"
proof -
  have "unat c + 32 < 4294967296" using assms by (simp add: word_le_nat_alt)
  then have "unat (c + 0x20) = unat c + 32" by (simp add: unat_word_ariths)
  with assms show ?thesis by (simp add: to_ascii_uppercase_def word_le_nat_alt)
qed

lemma read_symbol_same: "same_symbol c d \<Longrightarrow> read_symbol d = read_symbol c"
  by (auto simp: same_symbol_def read_symbol_def uppercase_upper uppercase_lower)
    (simp_all add: to_ascii_uppercase_def word_le_nat_alt)

lemma retyped_values: "retyped cs ds \<Longrightarrow> code_values ds = code_values cs"
  by (induction rule: retyped.induct) (auto simp: read_symbol_same read_symbol_sep split: option.split)

lemma retyped_decodes:
  assumes "length secret = 32" and "sha_len_ok cr" and "retyped (encode_code cr secret) typed"
  shows "decode_code cr typed = Some secret"
proof -
  have "decode_code cr typed = decode_code cr (encode_code cr secret)"
    using retyped_values [OF assms(3)] by (simp add: decode_code_def)
  then show ?thesis using decode_encode_code [OF assms(1,2)] by simp
qed

text \<open>
  C17: The recovery code printed for a 256-bit secret is read back as that secret, and so
  is every retyping of it with changed case, confusable letters, or separators dropped or
  inserted.
\<close>

theorem recovery_code_roundtrip:
  assumes "length secret = 32" and "sha_len_ok cr" and "retyped (encode_code cr secret) typed"
  shows "decode_code cr typed = Some secret"
  using assms by (rule retyped_decodes)

lemma toy_sha_len [simp]: "sha_len_ok toy_crypto"
  by (simp add: sha_len_ok_def toy_crypto_def)

lemma retyped_same: "retyped cs cs"
  by (induction cs) (auto intro: retyped.intros simp: same_symbol_def)

theorem recovery_code_roundtrip_witness:
  "decode_code toy_crypto (0x20 # encode_code toy_crypto (replicate 32 0xAB)) = Some (replicate 32 0xAB)"
  by (rule recovery_code_roundtrip) (auto intro: retyped.inserted retyped_same simp: is_sep_def)

text \<open>The 52nd symbol carries one bit of the secret; its low four bits are not part of it.\<close>

lemma num_data_split:
  assumes "length vs = 52" and "list_all (\<lambda>v. v < 32) vs"
  shows "num_of 32 vs div 16 = num_of 32 (take 51 vs) * 2 + vs ! 51 div 16" and "vs ! 51 div 16 < 2"
proof -
  obtain us u where vs: "vs = us @ [u]" using assms(1) by (cases vs rule: rev_cases) auto
  with assms show "num_of 32 vs div 16 = num_of 32 (take 51 vs) * 2 + vs ! 51 div 16"
    and "vs ! 51 div 16 < 2"
    by (auto simp: r32.num_snoc nth_append)
qed

lemma even_odd_split:
  "(a::nat) = x * 2 + d \<Longrightarrow> d < 2 \<Longrightarrow> b = y * 2 + e \<Longrightarrow> e < 2 \<Longrightarrow> a = b \<Longrightarrow> x = y \<and> d = e"
proof -
  assume a: "a = x * 2 + d" "d < 2" and b: "b = y * 2 + e" "e < 2" and ab: "a = b"
  from a have "a div 2 = x" "a mod 2 = d" by simp_all
  moreover from b have "b div 2 = y" "b mod 2 = e" by simp_all
  ultimately show ?thesis using ab by blast
qed

lemma data_symbols_eq:
  assumes "length vs = 52" and "list_all (\<lambda>v. v < 32) vs"
    and "length us = 52" and "list_all (\<lambda>v. v < 32) us"
    and "num_of 32 vs div 16 = num_of 32 us div 16"
  shows "take 51 vs = take 51 us" and "vs ! 51 div 16 = us ! 51 div 16"
proof -
  note split = num_data_split [OF assms(1,2)] num_data_split [OF assms(3,4)]
  have "num_of 32 (take 51 vs) = num_of 32 (take 51 us) \<and> vs ! 51 div 16 = us ! 51 div 16"
    by (rule even_odd_split [OF split(1,2,3,4) assms(5)])
  moreover have "list_all (\<lambda>v. v < 32) (take 51 vs)" "list_all (\<lambda>v. v < 32) (take 51 us)"
    using assms by (auto simp: list_all_iff dest: in_set_takeD)
  ultimately show "take 51 vs = take 51 us" and "vs ! 51 div 16 = us ! 51 div 16"
    using r32.num_inj [of "take 51 vs" "take 51 us"] assms(1,3) by simp_all
qed

lemma check_symbols_eq:
  assumes "map ((!) CROCKFORD) ws = map ((!) CROCKFORD) us"
    and "list_all (\<lambda>v. v < 32) ws" and "list_all (\<lambda>v. v < 32) us"
  shows "ws = us"
proof (rule map_inj_on [OF assms(1)])
  show "inj_on ((!) CROCKFORD) (set ws \<union> set us)"
    using CROCKFORD_facts(1,2) assms(2,3) by (auto simp: inj_on_def list_all_iff nth_eq_iff_index_eq)
qed

lemma decode_vals_last_symbol:
  assumes "decode_vals cr vals = Some secret" and "list_all (\<lambda>v. v < 32) vals"
    and "v < 32" and "v div 16 = vals ! 51 div 16"
  shows "decode_vals cr (vals[51 := v]) = Some secret"
proof -
  let ?vs = "take 52 vals" and ?ws = "drop 52 vals"
  note acc = decode_vals_Some [OF assms(1,2)]
  have vs: "length ?vs = 52" "list_all (\<lambda>v. v < 32) ?vs" "?vs ! 51 = vals ! 51"
    using acc assms(2) by (auto simp: list_all_iff dest: in_set_takeD)
  have vs': "length (?vs[51 := v]) = 52" "list_all (\<lambda>v. v < 32) (?vs[51 := v])"
    using vs assms(3) by (auto simp: list_all_iff dest!: set_update_subset_insert [THEN subsetD])
  have "num_of 32 (?vs[51 := v]) div 16 = num_of 32 ?vs div 16"
    using num_data_split [OF vs'] num_data_split [OF vs(1,2)] vs assms(4) by simp
  then have "decode_vals cr (?vs[51 := v] @ ?ws) = Some secret"
    using decode_vals_data [OF vs', of ?ws secret cr] acc by simp
  moreover have "vals[51 := v] = ?vs[51 := v] @ ?ws"
    using vs(1) by (simp add: list_update_append1 [symmetric])
  ultimately show ?thesis by simp
qed

text \<open>
  C18: What the checksum guarantees. A code that is accepted has exactly 56 symbols and
  agrees with the printed code of the secret it yields in every symbol but the 52nd, and in
  the top bit of that one; conversely, changing the low four bits of the 52nd symbol is never
  noticed. So a typing error in that symbol can go undetected, but cannot yield another secret.
\<close>

theorem recovery_code_acceptance:
  assumes "sha_len_ok cr" and "decode_code cr code = Some secret"
  shows "\<exists>vals us. code_values code = Some vals \<and> code_values (encode_code cr secret) = Some us
    \<and> length vals = 56 \<and> length us = 56
    \<and> take 51 vals = take 51 us \<and> vals ! 51 div 16 = us ! 51 div 16 \<and> drop 52 vals = drop 52 us
    \<and> (\<forall>v < 32. v div 16 = vals ! 51 div 16 \<longrightarrow> decode_vals cr (vals[51 := v]) = Some secret)"
proof -
  from assms(2) obtain vals where vals: "code_values code = Some vals" "decode_vals cr vals = Some secret"
    by (auto simp: decode_code_def bind_eq_Some_conv)
  have small: "list_all (\<lambda>v. v < 32) vals" using vals(1) by (rule code_values_bound)
  note acc = decode_vals_Some [OF vals(2) small]
  from acc have "length secret = 32" by blast
  from encode_code_symbols [OF this assms(1)] obtain vs ws where
    enc: "code_values (encode_code cr secret) = Some (vs @ ws)"
    and vs: "length vs = 52" "list_all (\<lambda>v. v < 32) vs" "num_of 32 vs = num_of 256 (map unat secret) * 16"
    and ws: "length ws = 4" "list_all (\<lambda>v. v < 32) ws"
      "encode_base32 (take 3 (sha256 cr secret)) CODE_CHECK_CHARS [] = map ((!) CROCKFORD) ws"
    by metis
  have t: "length (take 52 vals) = 52" "list_all (\<lambda>v. v < 32) (take 52 vals)" "list_all (\<lambda>v. v < 32) (drop 52 vals)"
    using acc small by (auto simp: list_all_iff dest: in_set_takeD in_set_dropD)
  have "take 51 (take 52 vals) = take 51 vs" and "take 52 vals ! 51 div 16 = vs ! 51 div 16"
    by (rule data_symbols_eq; use t vs acc in simp)+
  moreover have "drop 52 vals = ws"
    by (rule check_symbols_eq) (use acc ws t in simp_all)
  ultimately show ?thesis
    using vals(1) enc vs(1) ws(1) acc decode_vals_last_symbol [OF vals(2) small]
    by (intro exI [of _ vals] exI [of _ "vs @ ws"]) (simp add: nth_append min_def)
qed

theorem recovery_code_acceptance_witness:
  "\<exists>vals. code_values (encode_code toy_crypto (replicate 32 0xAB)) = Some vals \<and> length vals = 56"
  using recovery_code_acceptance [OF toy_sha_len decode_encode_code [OF _ toy_sha_len, of "replicate 32 0xAB"]]
  by auto

text \<open>
  The cast \<open>c as u8\<close> accepts characters outside the alphabet: every character whose low
  eight bits are those of a capital letter or digit of the alphabet reads as that symbol, for
  example U+0130 as the digit zero. A code with such characters is accepted like the real one.
\<close>

theorem recovery_code_accepts_foreign_characters:
  assumes "0x7A < c" and "ucast c = CROCKFORD ! v" and "v < 32"
  shows "read_symbol c = Some (Some v)
    \<and> (\<forall>cs ds. decode_code cr (cs @ c # ds) = decode_code cr (cs @ ucast (CROCKFORD ! v) # ds))"
proof -
  have "to_ascii_uppercase c = c" and "c \<notin> {0x2D, 0x20, 0x49, 0x4C, 0x4F}"
    using assms(1) by (auto simp: to_ascii_uppercase_def word_le_nat_alt word_less_nat_alt)
  then have "read_symbol c = Some (Some v)"
    using position_nth [OF CROCKFORD_facts(2), of v] CROCKFORD_facts(1) assms(2,3)
    by (simp add: read_symbol_def Let_def)
  then show ?thesis
    by (auto simp: decode_code_def code_values_append read_symbol_CROCKFORD [OF assms(3)] split: option.split)
qed

theorem recovery_code_accepts_foreign_characters_witness:
  "read_symbol 0x130 = Some (Some 0)"
  using recovery_code_accepts_foreign_characters [of "0x130" 0 toy_crypto]
  by (simp add: CROCKFORD_def word_less_nat_alt)

text \<open>Documented behaviour of X25519: the two sides compute the same shared secret.\<close>

definition dh_laws :: "crypto \<Rightarrow> bool" where
  "dh_laws cr \<longleftrightarrow>
     (\<forall>a b. x25519_dh cr a (x25519_public cr b) = x25519_dh cr b (x25519_public cr a)) \<and>
     (\<forall>a. length a = 32 \<longrightarrow> length (x25519_public cr a) = 32)"

lemma seal_dk_eq:
  assumes "gcm_laws cr" and "dh_laws cr" and "length dk = 32"
  shows "fst (seal_dk cr pub dk r) = x25519_public cr (map r [0..<32]) @
      fst (wrap_key cr (kek_from_shared cr (x25519_dh cr (map r [0..<32]) pub)) dk (\<lambda>i. r (i + 32)))"
proof -
  have "length (x25519_public cr (map r [0..<32])) = 32" using assms(2) by (simp add: dh_laws_def)
  then show ?thesis
    using length_wrap_key [OF assms(1,3)]
    by (simp add: seal_dk_def fill_bytes_def case_prod_beta MASTER_WRAP_LEN_def len_defs buf_simps)
qed

lemma length_seal_dk:
  "gcm_laws cr \<Longrightarrow> dh_laws cr \<Longrightarrow> length dk = 32 \<Longrightarrow> length (fst (seal_dk cr pub dk r)) = 92"
  by (simp add: seal_dk_eq length_wrap_key dh_laws_def)

lemma snd_seal_dk: "snd (seal_dk cr pub dk r) = (\<lambda>i. r (i + 44))"
  by (simp add: seal_dk_def fill_bytes_def case_prod_beta add.assoc)

lemma open_seal_dk:
  assumes "gcm_laws cr" and "dh_laws cr" and "sha_len_ok cr" and "length dk = 32"
    and "retyped (mk_code (fst (generate_master cr r0))) typed"
  shows "open_dk cr typed (fst (seal_dk cr (mk_public (fst (generate_master cr r0))) dk r)) = Some dk"
proof -
  let ?sk = "map r0 [0..<32]" and ?eph = "map r [0..<32]"
  have gen: "mk_code (fst (generate_master cr r0)) = encode_code cr ?sk"
    "mk_public (fst (generate_master cr r0)) = x25519_public cr ?sk"
    by (simp_all add: generate_master_def fill_bytes_def)
  have dec: "decode_code cr typed = Some ?sk"
    by (rule retyped_decodes [OF _ assms(3)]) (use assms(5) gen in simp_all)
  have "length (x25519_public cr ?eph) = 32" using assms(2) by (simp add: dh_laws_def)
  then show ?thesis
    using assms(2) unwrap_wrap_key [OF assms(1,4)]
    by (simp add: open_dk_def dec gen seal_dk_eq [OF assms(1,2,4)] buf_simps dh_laws_def)
qed

text \<open>
  A data key sealed to a master public key at lock time is opened by the recovery
  code shown when that key pair was generated, however the user retypes it.
\<close>

theorem recovery_code_opens_sealed_key:
  assumes "gcm_laws cr" and "dh_laws cr" and "sha_len_ok cr" and "length dk = 32"
    and "retyped (mk_code (fst (generate_master cr r0))) typed"
  shows "open_dk cr typed (fst (seal_dk cr (mk_public (fst (generate_master cr r0))) dk r)) = Some dk"
  using assms by (rule open_seal_dk)

lemma map2_add_commute: "map2 (+) (xs :: byte list) ys = map2 (+) ys xs"
  by (induction xs arbitrary: ys) (auto simp: zip_Cons1 add.commute split: list.splits)

lemma toy_dh_laws [simp]: "dh_laws toy_crypto"
  by (simp add: dh_laws_def toy_crypto_def map2_add_commute)

theorem recovery_code_opens_sealed_key_witness:
  "open_dk toy_crypto (mk_code (fst (generate_master toy_crypto (\<lambda>i. of_nat i))))
     (fst (seal_dk toy_crypto (mk_public (fst (generate_master toy_crypto (\<lambda>i. of_nat i)))) (replicate 32 7) (\<lambda>i. 1)))
   = Some (replicate 32 7)"
  by (rule recovery_code_opens_sealed_key) (simp_all add: retyped_same)

end
