(* ===== verification/Container.thy ===== *)
theory Container
  imports Walk Frames Recovery
begin

text \<open>
  \<open>crates/vault-core/src/format.rs\<close>: writing a container (\<open>write_container\<close>), wiping the
  original (\<open>wipe_tree\<close>), extracting (\<open>extract_entries\<close>) and rewriting the header in place. The
  serialisation of the manifest (\<open>bincode\<close>) is a parameter.
\<close>

section \<open>Parameters and options\<close>

record 'a codec =
  ser :: "'a \<Rightarrow> string + byte list"
  de :: "byte list \<Rightarrow> 'a option"

definition codec_ok :: "'a codec \<Rightarrow> bool" where
  "codec_ok c \<longleftrightarrow> (\<forall>x b. ser c x = Inr b \<longrightarrow> de c b = Some x)"

record lock_options =
  lo_kdf :: "kdf_params option"
  lo_master_pub :: "byte list option"
  secure_delete :: bool
  recycle_original :: bool
  readonly_container :: bool

section \<open>Writing a container\<close>

definition note_progress :: "u64 \<Rightarrow> u64 \<Rightarrow> world \<Rightarrow> world" where
  "note_progress dn tot w = w\<lparr>w_progress := (dn, tot) # w_progress w\<rparr>"

definition changed :: "string \<Rightarrow> verror" where
  "changed rel = Other (rel @ '' changed while locking'')"

text \<open>\<open>remaining.min(CHUNK_SIZE as u64)\<close>.\<close>

definition next_chunk :: "u64 \<Rightarrow> nat" where
  "next_chunk remaining = min (unat remaining) CHUNK_SIZE"

lemma next_chunk_decreases:
  assumes "remaining \<noteq> 0"
  shows "unat (remaining - word_of_nat (next_chunk remaining)) = unat remaining - next_chunk remaining"
    and "0 < next_chunk remaining"
proof -
  have le: "next_chunk remaining \<le> unat remaining" by (simp add: next_chunk_def)
  then have u: "unat (word_of_nat (next_chunk remaining) :: u64) = next_chunk remaining"
    by (simp add: unat_of_nat mod_less order_le_less_trans [OF _ unat_bound(3)])
  then have "word_of_nat (next_chunk remaining) \<le> remaining"
    using le by (simp add: word_le_nat_alt)
  then show "unat (remaining - word_of_nat (next_chunk remaining)) = unat remaining - next_chunk remaining"
    using u by (simp add: unat_sub)
  show "0 < next_chunk remaining"
    using assms by (simp add: next_chunk_def unat_gt_0)
qed

lemma next_chunk_less:
  "remaining \<noteq> 0 \<Longrightarrow> unat (remaining - word_of_nat (next_chunk remaining)) < unat remaining"
  using next_chunk_decreases [of remaining] by (simp add: unat_gt_0)

text \<open>The \<open>while remaining > 0\<close> loop over one file: reader, sequence number, bytes dn.\<close>

function write_chunks ::
  "crypto \<Rightarrow> os \<Rightarrow> chunk_cipher \<Rightarrow> path \<Rightarrow> string \<Rightarrow> u64 \<Rightarrow> u64 \<Rightarrow> byte list \<Rightarrow> u64 \<Rightarrow> u64 \<Rightarrow>
     (byte list \<times> u64 \<times> u64) vio" where
  "write_chunks cr E cc tmp rel tot remaining f seq dn w =
     (if remaining = 0 then (Inr (f, seq, dn), w)
      else let n = next_chunk remaining in
        case read_exact E n f w of
          (Inl _, w) \<Rightarrow> (Inl (changed rel), w)
        | (Inr (buf, f), w) \<Rightarrow>
            (case seal_to cr E tmp cc seq buf w of
               (Inl e, w) \<Rightarrow> (Inl (Io e), w)
             | (Inr _, w) \<Rightarrow>
                 write_chunks cr E cc tmp rel tot (remaining - word_of_nat n) f (seq + 1)
                   (dn + word_of_nat n) (note_progress (dn + word_of_nat n) tot w)))"
  by pat_completeness auto
termination
  by (relation "measure (\<lambda>(cr, E, cc, tmp, rel, tot, remaining, f, seq, dn, w). unat remaining)")
     (auto simp: next_chunk_less)

declare write_chunks.simps [simp del]

primrec write_files ::
  "crypto \<Rightarrow> os \<Rightarrow> chunk_cipher \<Rightarrow> path \<Rightarrow> path \<Rightarrow> u64 \<Rightarrow> entry list \<Rightarrow> u64 \<Rightarrow> u64 \<Rightarrow> unit vio" where
  "write_files cr E cc src tmp tot [] seq dn = returnE ()"
| "write_files cr E cc src tmp tot (e # es) seq dn =
     (if e_is_dir e then write_files cr E cc src tmp tot es seq dn
      else
        bindE (liftR (safe_join src (rel_path e))) (\<lambda>p.
        bindE (mapE Io (open_read E p)) (\<lambda>f.
        bindE (write_chunks cr E cc tmp (rel_path e) tot (e_size e) f seq dn) (\<lambda>(f, seq, dn).
        bindE (mapE (\<lambda>_. changed (rel_path e)) (read_some E 1 f)) (\<lambda>(buf, _).
          if buf \<noteq> [] then throwE (changed (rel_path e))
          else write_files cr E cc src tmp tot es seq dn)))))"

definition new_header ::
  "crypto \<Rightarrow> lock_options \<Rightarrow> byte list \<Rightarrow> byte list \<Rightarrow> key \<Rightarrow> key \<Rightarrow> nat \<Rightarrow> u64 \<Rightarrow> rng \<Rightarrow> header \<times> rng" where
  "new_header cr opts uuid salt kek dk n_entries total_bytes r =
     (let (pw, r) = wrap_key cr kek dk r;
          (mk, r) = (case lo_master_pub opts of Some p \<Rightarrow> seal_dk cr p dk r | None \<Rightarrow> (replicate MASTER_WRAP_LEN 0, r))
      in (\<lparr>h_uuid = uuid, h_salt = salt, h_kdf = (case lo_kdf opts of Some k \<Rightarrow> k | None \<Rightarrow> kdf_default),
           wrapped_dk_pw = pw, wrapped_dk_mk = mk, h_lockout = lockout_default,
           entry_count = word_of_nat n_entries, payload_len = total_bytes, hmac_ok = True\<rparr>, r))"

definition write_container ::
  "crypto \<Rightarrow> entry list codec \<Rightarrow> os \<Rightarrow> path \<Rightarrow> path \<Rightarrow> entry list \<Rightarrow> u64 \<Rightarrow> byte list \<Rightarrow> byte list \<Rightarrow>
     lock_options \<Rightarrow> byte list vio" where
  "write_container cr bc E src tmp entries total_bytes password hmac_key opts w =
     (let kdf = (case lo_kdf opts of Some k \<Rightarrow> k | None \<Rightarrow> kdf_default);
          (uuid, r) = fill_bytes 16 (w_rng w);
          (salt, r) = fill_bytes 16 r;
          (dk, r) = random_key r
      in case derive_kek cr password salt kdf of
           Inl e \<Rightarrow> (Inl e, w\<lparr>w_rng := r\<rparr>)
         | Inr kek \<Rightarrow>
             (let (header, r) = new_header cr opts uuid salt kek dk (length entries) total_bytes r;
                  cc = cc_new dk uuid
              in bindE (mapE Io (create_file E tmp)) (\<lambda>_.
                 bindE (mapE Io (append_file E tmp (to_bytes cr hmac_key header))) (\<lambda>_.
                 bindE (liftR (case ser bc entries of Inl e \<Rightarrow> Inl (Other (''manifest: '' @ e)) | Inr m \<Rightarrow> Inr m)) (\<lambda>manifest.
                   if MAX_MANIFEST_LEN - TAG_LEN < length manifest
                   then throwE (Other ''folder has too many entries'')
                   else
                     bindE (mapE Io (seal_to cr E tmp cc MANIFEST_SEQ manifest)) (\<lambda>_.
                     bindE (write_files cr E cc src tmp total_bytes entries 0 0) (\<lambda>_.
                     bindE (mapE Io (sync_all E)) (\<lambda>_.
                     bindE (mapE Io (sync_all E)) (\<lambda>_.
                       returnE uuid))))))) (w\<lparr>w_rng := r\<rparr>)))"

section \<open>Wiping the original\<close>

function wipe_loop :: "os \<Rightarrow> path \<Rightarrow> u64 \<Rightarrow> nat \<Rightarrow> world \<Rightarrow> world" where
  "wipe_loop E p remaining pos w =
     (if remaining = 0 then w
      else let n = next_chunk remaining in
        case write_at E p pos (replicate n 0) w of
          (Inl _, w) \<Rightarrow> w
        | (Inr _, w) \<Rightarrow> wipe_loop E p (remaining - word_of_nat n) (pos + n) w)"
  by pat_completeness auto
termination
  by (relation "measure (\<lambda>(E, p, remaining, pos, w). unat remaining)") (auto simp: next_chunk_less)

declare wipe_loop.simps [simp del]

definition wipe_file :: "os \<Rightarrow> path \<Rightarrow> u64 \<Rightarrow> world \<Rightarrow> world" where
  "wipe_file E p sz w =
     (let w = (case metadata E p w of
                 (Inr meta, w) \<Rightarrow> if node_readonly meta then snd (set_permissions E p False w) else w
               | (Inl _, w) \<Rightarrow> w)
      in case open_rw E p w of
           (Inl _, w) \<Rightarrow> w
         | (Inr _, w) \<Rightarrow> snd (sync_all E (wipe_loop E p sz 0 w)))"

primrec wipe_tree :: "os \<Rightarrow> path \<Rightarrow> entry list \<Rightarrow> world \<Rightarrow> world" where
  "wipe_tree E src [] w = w"
| "wipe_tree E src (e # es) w =
     (if e_is_dir e \<or> e_size e = 0 then wipe_tree E src es w
      else case safe_join src (rel_path e) of
             Inl _ \<Rightarrow> wipe_tree E src es w
           | Inr p \<Rightarrow> wipe_tree E src es (wipe_file E p (e_size e) w))"

section \<open>Extracting\<close>

function extract_chunks ::
  "crypto \<Rightarrow> os \<Rightarrow> chunk_cipher \<Rightarrow> path \<Rightarrow> u64 \<Rightarrow> u64 \<Rightarrow> byte list \<Rightarrow> u64 \<Rightarrow> u64 \<Rightarrow>
     (byte list \<times> u64 \<times> u64) vio" where
  "extract_chunks cr E cc target plen remaining r seq dn w =
     (if remaining = 0 then (Inr (r, seq, dn), w)
      else let expected = next_chunk remaining in
        case read_frame_into E (CHUNK_SIZE + TAG_LEN) r w of
          (Inl e, w) \<Rightarrow> (Inl e, w)
        | (Inr (nonce, frame, r), w) \<Rightarrow>
            (case open_in_place cr cc seq nonce frame of
               Inl e \<Rightarrow> (Inl e, w)
             | Inr plain \<Rightarrow>
                 if length plain \<noteq> expected then (Inl Tampered, w)
                 else (case append_file E target plain w of
                         (Inl e, w) \<Rightarrow> (Inl (Io e), w)
                       | (Inr _, w) \<Rightarrow>
                           extract_chunks cr E cc target plen (remaining - word_of_nat expected) r
                             (seq + 1) (dn + word_of_nat expected)
                             (note_progress (dn + word_of_nat expected) plen w))))"
  by pat_completeness auto
termination
  by (relation "measure (\<lambda>(cr, E, cc, target, pl, remaining, r, seq, dn, w). unat remaining)")
     (auto simp: next_chunk_less)

declare extract_chunks.simps [simp del]

primrec extract_entries ::
  "crypto \<Rightarrow> os \<Rightarrow> chunk_cipher \<Rightarrow> path \<Rightarrow> u64 \<Rightarrow> entry list \<Rightarrow> byte list \<Rightarrow> u64 \<Rightarrow> u64 \<Rightarrow> unit vio" where
  "extract_entries cr E cc tmpdir plen [] r seq dn = returnE ()"
| "extract_entries cr E cc tmpdir plen (e # es) r seq dn =
     bindE (liftR (safe_join tmpdir (rel_path e))) (\<lambda>target.
       if e_is_dir e
       then bindE (mapE Io (create_dir_all E target)) (\<lambda>_.
              extract_entries cr E cc tmpdir plen es r seq dn)
       else
         bindE (case parent target of Some p \<Rightarrow> mapE Io (create_dir_all E p) | None \<Rightarrow> returnE ()) (\<lambda>_.
         bindE (mapE Io (create_file E target)) (\<lambda>_.
         bindE (extract_chunks cr E cc target plen (e_size e) r seq dn) (\<lambda>(r, seq, dn).
         bindE (mapE Io (sync_all E)) (\<lambda>_.
         bindE (if 0 < e_mtime e then ignoreE (set_modified E target (e_mtime e)) else returnE ()) (\<lambda>_.
         bindE (if e_readonly e
                then bindE (mapE Io (metadata E target)) (\<lambda>_. mapE Io (set_permissions E target True))
                else returnE ()) (\<lambda>_.
           extract_entries cr E cc tmpdir plen es r seq dn)))))))"

section \<open>Rewriting the header\<close>

definition rewrite_header :: "crypto \<Rightarrow> os \<Rightarrow> path \<Rightarrow> header \<Rightarrow> byte list \<Rightarrow> unit vio" where
  "rewrite_header cr E f h hmac_key =
     bindE (mapE Io (overwrite_start E f (to_bytes cr hmac_key h))) (\<lambda>_. mapE Io (sync_all E))"

section \<open>What a container holds\<close>

text \<open>The chunks of a file, as a reference definition.\<close>

function (sequential) split_chunks :: "byte list \<Rightarrow> byte list list" where
  "split_chunks [] = []"
| "split_chunks bs = take CHUNK_SIZE bs # split_chunks (drop CHUNK_SIZE bs)"
  by pat_completeness auto
termination
  by (relation "measure length") auto

declare split_chunks.simps(2) [simp del]

lemma split_chunks_nonempty:
  "bs \<noteq> [] \<Longrightarrow> split_chunks bs = take CHUNK_SIZE bs # split_chunks (drop CHUNK_SIZE bs)"
  by (cases bs) (simp_all add: split_chunks.simps(2))

lemma concat_split_chunks [simp]: "concat (split_chunks bs) = bs"
  by (induction bs rule: split_chunks.induct) (simp_all add: split_chunks_nonempty)

text \<open>
  \<open>frames_open\<close>: the frames decrypt, in order and at these sequence numbers, to the plaintexts.
  \<open>payload_opens\<close>: what follows the header decrypts to the manifest and the file contents.
\<close>

fun frames_open :: "crypto \<Rightarrow> chunk_cipher \<Rightarrow> u64 \<Rightarrow> frame list \<Rightarrow> byte list list \<Rightarrow> bool" where
  "frames_open cr cc seq [] [] \<longleftrightarrow> True"
| "frames_open cr cc seq (f # fs) (p # ps) \<longleftrightarrow>
     chunk_frame f \<and> open_in_place cr cc seq (fst f) (snd f) = Inr p \<and> frames_open cr cc (seq + 1) fs ps"
| "frames_open cr cc seq _ _ \<longleftrightarrow> False"

definition payload_opens ::
  "crypto \<Rightarrow> entry list codec \<Rightarrow> chunk_cipher \<Rightarrow> byte list \<Rightarrow> entry list \<Rightarrow> byte list list \<Rightarrow> bool" where
  "payload_opens cr bc cc payload entries datas \<longleftrightarrow>
     (\<exists>m fs manifest. payload = frame_bytes m @ concat (map frame_bytes fs)
        \<and> frame_ok MAX_MANIFEST_LEN m
        \<and> open_in_place cr cc MANIFEST_SEQ (fst m) (snd m) = Inr manifest
        \<and> de bc manifest = Some entries
        \<and> frames_open cr cc 0 fs (concat (map split_chunks datas)))"

lemma frames_open_append:
  "frames_open cr cc seq fs ps \<Longrightarrow> frames_open cr cc (seq + word_of_nat (length fs)) gs qs \<Longrightarrow>
     frames_open cr cc seq (fs @ gs) (ps @ qs)"
  by (induction cr cc seq fs ps rule: frames_open.induct) (auto simp: add.assoc)

lemma frames_open_all_ok: "frames_open cr cc seq fs ps \<Longrightarrow> list_all chunk_frame fs"
  by (induction cr cc seq fs ps rule: frames_open.induct) auto

lemma seal_to_touches: "P p \<Longrightarrow> keeps (changes_only P) (seal_to cr E p cc seq plain)"
proof (rule keepsI)
  fix w :: world
  assume p: "P p"
  let ?m = "bindE (append_file E p (fst (fill_bytes NONCE_LEN (w_rng w)))) (\<lambda>_.
      bindE (append_file E p (u32_to_le (word_of_nat (length (seal_blob cr cc seq plain (w_rng w)))))) (\<lambda>_.
        append_file E p (seal_blob cr cc seq plain (w_rng w))))"
  have "keeps (changes_only P) ?m" by (intro keeps_bindE touches p)
  then have "changes_only P (w\<lparr>w_rng := snd (fill_bytes NONCE_LEN (w_rng w))\<rparr>)
      (snd (?m (w\<lparr>w_rng := snd (fill_bytes NONCE_LEN (w_rng w))\<rparr>)))"
    by (simp add: keeps_def)
  then show "changes_only P w (snd (seal_to cr E p cc seq plain w))"
    by (simp add: seal_to_def changes_only_def case_prod_unfold Let_def)
qed

text \<open>A successful \<open>seal_to\<close> appends one frame, which opens to the plaintext at its position.\<close>

lemma seal_to_Inr:
  assumes "gcm_laws cr" and "seal_to cr E p cc seq plain w = (Inr u, w')" and d: "lookup w p = Some (File d)"
  shows "\<exists>f. lookup w' p = Some (File (d\<lparr>f_content := f_content d @ frame_bytes f\<rparr>))
     \<and> length (fst f) = NONCE_LEN \<and> length (snd f) = length plain + 16
     \<and> open_in_place cr cc seq (fst f) (snd f) = Inr plain"
proof -
  let ?n = "fst (fill_bytes NONCE_LEN (w_rng w))" and ?s = "seal_blob cr cc seq plain (w_rng w)"
  let ?w0 = "w\<lparr>w_rng := snd (fill_bytes NONCE_LEN (w_rng w))\<rparr>"
  from assms(2) obtain u1 w1 u2 w2 where 1: "append_file E p ?n ?w0 = (Inr u1, w1)"
    and 2: "append_file E p (u32_to_le (word_of_nat (length ?s))) w1 = (Inr u2, w2)"
    and 3: "append_file E p ?s w2 = (Inr u, w')"
    by (auto simp: seal_to_def case_prod_unfold Let_def bindE_Inr_iff)
  have "lookup ?w0 p = Some (File d)" using d by simp
  from append_file_Inr [OF 3 append_file_Inr [OF 2 append_file_Inr [OF 1 this]]]
  show ?thesis
    using open_seal_blob [OF assms(1)] length_seal_blob [OF assms(1)]
    by (intro exI [of _ "(?n, ?s)"]) (simp add: frame_bytes_def)
qed

text \<open>The two copying loops as one turn followed by the loop.\<close>

definition report :: "u64 \<Rightarrow> u64 \<Rightarrow> unit vio" where
  "report dn tot w = (Inr (), note_progress dn tot w)"

lemma report_touches: "keeps (changes_only P) (report dn tot)"
  by (simp add: keeps_def report_def note_progress_def changes_only_def)

lemma read_touches:
  "keeps (changes_only P) (read_exact E n f)" "keeps (changes_only P) (read_some E n f)"
  unfolding read_exact_def read_some_def
  by (intro sysop_changes unspoiled_changes; simp add: changes_only_def)+

lemma write_chunks_turn:
  "write_chunks cr E cc tmp rel tot remaining f seq dn =
     (if remaining = 0 then returnE (f, seq, dn)
      else let n = next_chunk remaining in
        bindE (mapE (\<lambda>_. changed rel) (read_exact E n f)) (\<lambda>(buf, f).
        bindE (mapE Io (seal_to cr E tmp cc seq buf)) (\<lambda>_.
        bindE (report (dn + word_of_nat n) tot) (\<lambda>_.
          write_chunks cr E cc tmp rel tot (remaining - word_of_nat n) f (seq + 1) (dn + word_of_nat n)))))"
  by (rule ext, subst write_chunks.simps)
     (auto simp: bindE_def mapE_def report_def Let_def split: sum.splits prod.splits)

lemma extract_chunks_turn:
  "extract_chunks cr E cc target plen remaining r seq dn =
     (if remaining = 0 then returnE (r, seq, dn)
      else let n = next_chunk remaining in
        bindE (read_frame_into E (CHUNK_SIZE + TAG_LEN) r) (\<lambda>(nonce, frame, r).
        bindE (liftR (open_in_place cr cc seq nonce frame)) (\<lambda>plain.
          if length plain \<noteq> n then throwE Tampered
          else bindE (mapE Io (append_file E target plain)) (\<lambda>_.
            bindE (report (dn + word_of_nat n) plen) (\<lambda>_.
              extract_chunks cr E cc target plen (remaining - word_of_nat n) r (seq + 1) (dn + word_of_nat n))))))"
  by (rule ext, subst extract_chunks.simps)
     (auto simp: bindE_def mapE_def report_def Let_def split: sum.splits prod.splits)

lemma write_chunks_touches: "P tmp \<Longrightarrow> keeps (changes_only P) (write_chunks cr E cc tmp rel tot remaining f seq dn)"
proof (induction "unat remaining" arbitrary: remaining f seq dn rule: less_induct)
  case less
  show ?case
    by (subst write_chunks_turn, unfold Let_def)
       (intro keeps_intros touches read_touches seal_to_touches report_touches less next_chunk_less; assumption)
qed

lemma extract_chunks_touches: "P target \<Longrightarrow> keeps (changes_only P) (extract_chunks cr E cc target plen remaining r seq dn)"
proof (induction "unat remaining" arbitrary: remaining r seq dn rule: less_induct)
  case less
  have rf: "keeps (changes_only P) (read_frame_into E n r)" for n r
    unfolding read_frame_into_def by (intro keeps_intros touches read_touches)
  show ?case
    by (subst extract_chunks_turn, unfold Let_def)
       (intro keeps_intros touches rf report_touches less next_chunk_less; assumption)
qed

lemma changes_trans:
  "changes_only P a b \<Longrightarrow> changes_only P b c \<Longrightarrow> changes_only P a c"
  using preorder_changes unfolding preorderS_def by blast

lemma write_chunks_Inr:
  assumes "gcm_laws cr"
  shows "write_chunks cr E cc tmp rel tot remaining f seq dn w = (Inr (f', seq', dn'), w') \<Longrightarrow>
      lookup w tmp = Some (File d) \<Longrightarrow>
      \<exists>data fs. f = data @ f' \<and> length data = unat remaining
        \<and> frames_open cr cc seq fs (split_chunks data) \<and> seq' = seq + word_of_nat (length fs)
        \<and> lookup w' tmp = Some (File (d\<lparr>f_content := f_content d @ concat (map frame_bytes fs)\<rparr>))"
proof (induction "unat remaining" arbitrary: remaining f seq dn w d rule: less_induct)
  case less
  show ?case
  proof (cases "remaining = 0")
    case True
    with less.prems have "f' = f" "seq' = seq" "w' = w"
      by (simp_all add: write_chunks_turn)
    with True less.prems(2) show ?thesis by (intro exI [of _ "[]"]) simp
  next
    case False
    let ?n = "next_chunk remaining"
    from less.prems(1) False obtain buf g w1 w2 u where
      rd: "read_exact E ?n f w = (Inr (buf, g), w1)"
      and sl: "seal_to cr E tmp cc seq buf w1 = (Inr u, w2)"
      and rec: "write_chunks cr E cc tmp rel tot (remaining - word_of_nat ?n) g (seq + 1) (dn + word_of_nat ?n)
          (note_progress (dn + word_of_nat ?n) tot w2) = (Inr (f', seq', dn'), w')"
      by (subst (asm) write_chunks_turn)
         (auto simp: bindE_Inr_iff mapE_Inr_iff report_def Let_def)
    note r = read_exact_Inr [OF rd]
    have "lookup w1 tmp = Some (File d)" using r less.prems(2) by simp
    from seal_to_Inr [OF assms sl this] obtain fr where
      l2: "lookup w2 tmp = Some (File (d\<lparr>f_content := f_content d @ frame_bytes fr\<rparr>))"
      and fr: "length (fst fr) = NONCE_LEN" "length (snd fr) = length buf + 16"
        "open_in_place cr cc seq (fst fr) (snd fr) = Inr buf" by blast
    from l2 have "lookup (note_progress (dn + word_of_nat ?n) tot w2) tmp =
        Some (File (d\<lparr>f_content := f_content d @ frame_bytes fr\<rparr>))"
      by (simp add: note_progress_def)
    from less.hyps [OF next_chunk_less [OF False] rec this] obtain data fs where
      d: "g = data @ f'" "length data = unat remaining - ?n" "frames_open cr cc (seq + 1) fs (split_chunks data)"
      "seq' = seq + 1 + word_of_nat (length fs)"
      "lookup w' tmp = Some (File (d\<lparr>f_content := (f_content d @ frame_bytes fr) @ concat (map frame_bytes fs)\<rparr>))"
      using next_chunk_decreases(1) [OF False] by auto
    have len: "length (buf @ data) = unat remaining"
      using r d(2) by (simp add: next_chunk_def)
    have "split_chunks (buf @ data) = buf # split_chunks data"
    proof -
      have "take CHUNK_SIZE (buf @ data) = buf \<and> drop CHUNK_SIZE (buf @ data) = data"
        using r d(2) by (cases "unat remaining \<le> CHUNK_SIZE") (auto simp: next_chunk_def)
      moreover have "buf @ data \<noteq> []" using r next_chunk_decreases(2) [OF False] by auto
      ultimately show ?thesis by (simp add: split_chunks_nonempty)
    qed
    moreover have "chunk_frame fr"
      using fr r by (simp add: frame_ok_def TAG_LEN_def next_chunk_def)
    ultimately have "frames_open cr cc seq (fr # fs) (split_chunks (buf @ data))"
      using fr d(3) by simp
    with d(1,4,5) len r show ?thesis
      by (intro exI [of _ "buf @ data"] exI [of _ "fr # fs"]) simp
  qed
qed

text \<open>The file an entry names, as the file system holds it.\<close>

definition file_of :: "world \<Rightarrow> path \<Rightarrow> entry \<Rightarrow> byte list \<Rightarrow> bool" where
  "file_of w src e data \<longleftrightarrow>
     (\<exists>p d. safe_join src (rel_path e) = Inr p \<and> lookup w p = Some (File d) \<and> f_content d = data
        \<and> length data = unat (e_size e))"

lemma safe_join_strict: "safe_join root rel = Inr p \<Longrightarrow> strict_prefix root p"
  by (erule safe_join_Inr) (simp add: strict_prefix_def)

lemma file_of_unchanged:
  assumes "changes_only (\<lambda>q. q = tmp) w w'" and "\<not> strict_prefix src tmp" and "file_of w' src e data"
  shows "file_of w src e data"
proof -
  obtain q d where q: "safe_join src (rel_path e) = Inr q" "lookup w' q = Some (File d)"
    "f_content d = data" "length data = unat (e_size e)"
    using assms(3) by (auto simp: file_of_def)
  have "q \<noteq> tmp" using safe_join_strict [OF q(1)] assms(2) by auto
  with q changes_onlyD [OF assms(1)] show ?thesis by (auto simp: file_of_def)
qed

lemma write_files_Inr:
  assumes laws: "gcm_laws cr" and apart: "\<not> strict_prefix src tmp"
  shows "write_files cr E cc src tmp tot es seq dn w = (Inr u, w') \<Longrightarrow>
      lookup w tmp = Some (File d) \<Longrightarrow>
      \<exists>datas fs. list_all2 (file_of w src) (filter (\<lambda>e. \<not> e_is_dir e) es) datas
        \<and> frames_open cr cc seq fs (concat (map split_chunks datas))
        \<and> lookup w' tmp = Some (File (d\<lparr>f_content := f_content d @ concat (map frame_bytes fs)\<rparr>))
        \<and> changes_only (\<lambda>q. q = tmp) w w'"
proof (induction es arbitrary: seq dn w d)
  case Nil
  then show ?case by (auto simp: changes_only_def intro!: exI [of _ "[]"])
next
  case (Cons e es)
  show ?case
  proof (cases "e_is_dir e")
    case True
    with Cons show ?thesis by simp
  next
    case False
    from Cons.prems(1) False obtain p f w1 g seq1 dn1 w2 rest2 w3 where
      sj: "safe_join src (rel_path e) = Inr p"
      and op: "open_read E p w = (Inr f, w1)"
      and wc: "write_chunks cr E cc tmp (rel_path e) tot (e_size e) f seq dn w1 = (Inr (g, seq1, dn1), w2)"
      and eof: "read_some E 1 g w2 = (Inr ([], rest2), w3)"
      and rec: "write_files cr E cc src tmp tot es seq1 dn1 w3 = (Inr u, w')"
      by (auto simp: bindE_Inr_iff mapE_Inr_iff split: if_splits simp del: One_nat_def)
    obtain fd where fd: "lookup w p = Some (File fd)" "f = f_content fd" "w1 = w\<lparr>w_tick := Suc (w_tick w)\<rparr>"
      using open_read_Inr [OF op] by blast
    have g: "g = []" and w3: "w3 = w2\<lparr>w_tick := Suc (w_tick w2)\<rparr>"
      using read_some_Inr [OF eof] by (cases g; simp)+
    have ne: "p \<noteq> tmp" using safe_join_strict [OF sj] apart by auto
    have "lookup w1 tmp = Some (File d)" using fd(3) Cons.prems(2) by simp
    from write_chunks_Inr [OF laws wc this] g fd(2) obtain fs where
      fs: "frames_open cr cc seq fs (split_chunks f)" "seq1 = seq + word_of_nat (length fs)"
        "length f = unat (e_size e)"
        "lookup w2 tmp = Some (File (d\<lparr>f_content := f_content d @ concat (map frame_bytes fs)\<rparr>))"
      by auto
    have c2: "changes_only (\<lambda>q. q = tmp) w w3"
      using keepsD [OF write_chunks_touches wc, of "\<lambda>q. q = tmp"] fd(3) w3
      by (simp add: changes_only_def)
    have l3: "lookup w3 tmp = Some (File (d\<lparr>f_content := f_content d @ concat (map frame_bytes fs)\<rparr>))"
      using fs(4) w3 by simp
    from Cons.IH [OF rec l3] obtain datas gs where
      r: "list_all2 (file_of w3 src) (filter (\<lambda>e. \<not> e_is_dir e) es) datas"
        "frames_open cr cc seq1 gs (concat (map split_chunks datas))"
        "lookup w' tmp = Some (File (d\<lparr>f_content := (f_content d @ concat (map frame_bytes fs)) @ concat (map frame_bytes gs)\<rparr>))"
        "changes_only (\<lambda>q. q = tmp) w3 w'" by auto
    have "list_all2 (file_of w src) (filter (\<lambda>e. \<not> e_is_dir e) es) datas"
      using r(1) by (rule list_all2_mono) (rule file_of_unchanged [OF c2 apart])
    moreover have "file_of w src e f"
      using sj fd fs(3) by (auto simp: file_of_def)
    ultimately have "list_all2 (file_of w src) (filter (\<lambda>e. \<not> e_is_dir e) (e # es)) (f # datas)"
      using False by simp
    moreover have "frames_open cr cc seq (fs @ gs) (concat (map split_chunks (f # datas)))"
      using frames_open_append [OF fs(1)] r(2) fs(2) by simp
    ultimately show ?thesis
      using r(3) changes_trans [OF c2 r(4)] by (intro exI [of _ "f # datas"] exI [of _ "fs @ gs"]) simp
  qed
qed

text \<open>
  \<open>sealed_container\<close>: these bytes are a container that the password opens, with data key
  \<open>dk\<close>, manifest \<open>entries\<close> and file contents \<open>datas\<close>.
\<close>

definition crypto_ok :: "crypto \<Rightarrow> bool" where
  "crypto_ok cr \<longleftrightarrow> gcm_laws cr \<and> hmac_len_ok cr \<and> dh_laws cr"

definition password_opens :: "crypto \<Rightarrow> byte list \<Rightarrow> header \<Rightarrow> key \<Rightarrow> bool" where
  "password_opens cr pw h dk \<longleftrightarrow>
     (\<exists>kek. derive_kek cr pw (h_salt h) (h_kdf h) = Inr kek \<and> unwrap_key cr kek (wrapped_dk_pw h) = Some dk)"

definition sealed_container ::
  "crypto \<Rightarrow> entry list codec \<Rightarrow> byte list \<Rightarrow> byte list \<Rightarrow> byte list \<Rightarrow> header \<Rightarrow> key \<Rightarrow> entry list \<Rightarrow>
     byte list list \<Rightarrow> bool" where
  "sealed_container cr bc hk pw content h dk entries datas \<longleftrightarrow>
     (\<exists>payload. content = to_bytes cr hk h @ payload
        \<and> payload_opens cr bc (cc_new dk (h_uuid h)) payload entries datas)
     \<and> wf_header h \<and> h_lockout h = lockout_default \<and> hmac_ok h
     \<and> entry_count h = word_of_nat (length entries) \<and> password_opens cr pw h dk"

definition enrolled_with :: "crypto \<Rightarrow> lock_options \<Rightarrow> header \<Rightarrow> key \<Rightarrow> bool" where
  "enrolled_with cr opts h dk \<longleftrightarrow>
     (case lo_master_pub opts of None \<Rightarrow> wrapped_dk_mk h = replicate MASTER_WRAP_LEN 0
      | Some pub \<Rightarrow> \<exists>r. wrapped_dk_mk h = fst (seal_dk cr pub dk r))"

lemma new_header_opens:
  assumes ok: "crypto_ok cr" and len: "length uuid = 16" "length salt = 16" "length dk = 32"
    and kek: "derive_kek cr pw salt (case lo_kdf opts of Some k \<Rightarrow> k | None \<Rightarrow> kdf_default) = Inr kek"
    and h: "new_header cr opts uuid salt kek dk n tot r = (h, r')"
  shows "wf_header h" and "h_lockout h = lockout_default" and "hmac_ok h" and "h_uuid h = uuid"
    and "entry_count h = word_of_nat n" and "password_opens cr pw h dk" and "enrolled_with cr opts h dk"
    and "payload_len h = tot"
proof -
  have laws: "gcm_laws cr" "dh_laws cr" using ok by (simp_all add: crypto_ok_def)
  note lens = length_wrap_key [OF laws(1) len(3)] length_seal_dk [OF laws len(3)]
  show "wf_header h"
    using h len lens by (auto simp: new_header_def case_prod_unfold Let_def wf_header_def MASTER_WRAP_LEN_def
        len_defs split: option.splits)
  show "password_opens cr pw h dk"
    using h kek unwrap_wrap_key [OF laws(1) len(3)]
    by (auto simp: new_header_def case_prod_unfold Let_def password_opens_def)
  show "enrolled_with cr opts h dk"
    using h by (auto simp: new_header_def case_prod_unfold Let_def enrolled_with_def split: option.splits)
qed (use h in \<open>auto simp: new_header_def case_prod_unfold Let_def\<close>)

lemma write_container_Inr:
  assumes ok: "crypto_ok cr" "codec_ok bc" and apart: "\<not> strict_prefix src tmp"
    and wr: "write_container cr bc E src tmp entries tot pw hk opts w = (Inr uuid, w')"
  shows "\<exists>d h dk datas. lookup w' tmp = Some (File d)
     \<and> sealed_container cr bc hk pw (f_content d) h dk entries datas
     \<and> h_uuid h = uuid \<and> payload_len h = tot \<and> enrolled_with cr opts h dk
     \<and> list_all2 (file_of w src) (filter (\<lambda>e. \<not> e_is_dir e) entries) datas"
proof -
  define kdf where "kdf = (case lo_kdf opts of Some k \<Rightarrow> k | None \<Rightarrow> kdf_default)"
  obtain id r1 where 1: "fill_bytes 16 (w_rng w) = (id, r1)" by fastforce
  obtain salt r2 where 2: "fill_bytes 16 r1 = (salt, r2)" by fastforce
  obtain dk r3 where 3: "random_key r2 = (dk, r3)" by fastforce
  have lens: "length id = 16" "length salt = 16" "length dk = 32"
    using 1 2 3 length_fill_bytes fst_conv unfolding random_key_def KEY_LEN_def by metis+
  obtain kek where kek: "derive_kek cr pw salt kdf = Inr kek"
    using wr 1 2 3 by (cases "derive_kek cr pw salt kdf") (auto simp: write_container_def kdf_def Let_def)
  obtain h r4 where h: "new_header cr opts id salt kek dk (length entries) tot r3 = (h, r4)" by fastforce
  note hd = new_header_opens [OF ok(1) lens kek [unfolded kdf_def] h]
  let ?w0 = "w\<lparr>w_rng := r4\<rparr>" and ?cc = "cc_new dk id"
  from wr obtain u1 w1 u2 w2 m u3 w3 u4 w4 u5 w5 u6 where
    a: "create_file E tmp ?w0 = (Inr u1, w1)" "append_file E tmp (to_bytes cr hk h) w1 = (Inr u2, w2)"
    and m: "ser bc entries = Inr m" "length m \<le> MAX_MANIFEST_LEN - TAG_LEN"
    and b: "seal_to cr E tmp ?cc MANIFEST_SEQ m w2 = (Inr u3, w3)"
    and c: "write_files cr E ?cc src tmp tot entries 0 0 w3 = (Inr u4, w4)"
    and e: "sync_all E w4 = (Inr u5, w5)" "sync_all E w5 = (Inr u6, w')" and id: "uuid = id"
    by (auto simp: write_container_def 1 2 3 kek h kdf_def [symmetric] Let_def bindE_Inr_iff mapE_Inr_iff
        split: sum.splits if_splits)
  obtain d1 where "lookup w1 tmp = Some (File d1)" "f_content d1 = []"
    using create_file_Inr [OF a(1)] by blast
  from append_file_Inr [OF a(2) this(1)] this(2)
  have l2: "lookup w2 tmp = Some (File (d1\<lparr>f_content := to_bytes cr hk h\<rparr>))" by simp
  have laws: "gcm_laws cr" using ok(1) by (simp add: crypto_ok_def)
  from seal_to_Inr [OF laws b l2] obtain f where
    l3: "lookup w3 tmp = Some (File (d1\<lparr>f_content := to_bytes cr hk h @ frame_bytes f\<rparr>))"
    and f: "length (fst f) = NONCE_LEN" "length (snd f) = length m + 16"
      "open_in_place cr ?cc MANIFEST_SEQ (fst f) (snd f) = Inr m" by auto
  from write_files_Inr [OF laws apart c l3] obtain datas fs where
    w: "list_all2 (file_of w3 src) (filter (\<lambda>e. \<not> e_is_dir e) entries) datas"
      "frames_open cr ?cc 0 fs (concat (map split_chunks datas))"
      "lookup w4 tmp = Some (File (d1\<lparr>f_content := (to_bytes cr hk h @ frame_bytes f) @ concat (map frame_bytes fs)\<rparr>))"
    by auto
  have same: "lookup w3 q = lookup w q" if "q \<noteq> tmp" for q
    using that keepsD [OF writing_touches(2) a(1), of "\<lambda>q. q = tmp"] keepsD [OF writing_touches(3) a(2), of "\<lambda>q. q = tmp"]
      keepsD [OF seal_to_touches b, of "\<lambda>q. q = tmp"]
    by (simp add: changes_only_def)
  have "changes_only (\<lambda>q. q = tmp) w w3" using same by (rule changes_only_I)
  have files: "list_all2 (file_of w src) (filter (\<lambda>e. \<not> e_is_dir e) entries) datas"
    using w(1) by (rule list_all2_mono) (rule file_of_unchanged [OF \<open>changes_only _ w w3\<close> apart])
  have "frame_ok MAX_MANIFEST_LEN f"
    using f m(2) by (simp add: frame_ok_def TAG_LEN_def MAX_MANIFEST_LEN_def)
  moreover have "de bc m = Some entries" using ok(2) m(1) by (simp add: codec_ok_def)
  ultimately have "payload_opens cr bc ?cc (frame_bytes f @ concat (map frame_bytes fs)) entries datas"
    using f(3) w(2) unfolding payload_opens_def by blast
  moreover have "lookup w' tmp = Some (File (d1\<lparr>f_content := to_bytes cr hk h @ (frame_bytes f @ concat (map frame_bytes fs))\<rparr>))"
    using w(3) sync_all_Inr [OF e(1)] sync_all_Inr [OF e(2)] by simp
  ultimately show ?thesis
    using hd files id unfolding sealed_container_def by fastforce
qed

lemma write_files_touches: "P tmp \<Longrightarrow> keeps (changes_only P) (write_files cr E cc src tmp tot es seq dn)"
proof (induction es arbitrary: seq dn)
  case Nil
  show ?case unfolding write_files.simps by (intro keeps_intros touches)
next
  case (Cons e es)
  show ?case unfolding write_files.simps
    by (intro keeps_intros touches read_touches write_chunks_touches Cons)
qed

lemma write_container_touches:
  assumes "P tmp"
  shows "keeps (changes_only P) (write_container cr bc E src tmp entries tot pw hk opts)"
proof (rule keepsI)
  fix w :: world
  have shift: "keeps (changes_only P) m \<Longrightarrow> changes_only P w (snd (m (w\<lparr>w_rng := r\<rparr>)))"
    for m :: "byte list vio" and r
    using keepsD [OF _ prod.collapse [symmetric], of "changes_only P" m "w\<lparr>w_rng := r\<rparr>"]
    by (simp add: changes_only_def)
  show "changes_only P w (snd (write_container cr bc E src tmp entries tot pw hk opts w))"
  proof (cases "derive_kek cr pw (fst (fill_bytes 16 (snd (fill_bytes 16 (w_rng w)))))
      (case lo_kdf opts of Some k \<Rightarrow> k | None \<Rightarrow> kdf_default)")
    case (Inl e)
    then show ?thesis
      by (simp add: write_container_def case_prod_unfold Let_def changes_only_def)
  next
    case (Inr kek)
    show ?thesis
      unfolding write_container_def case_prod_unfold Let_def Inr sum.case
      by (rule shift) (intro keeps_intros touches seal_to_touches write_files_touches assms)
  qed
qed

text \<open>Without I/O errors nothing stands in the way of writing.\<close>

lemma read_runs [runs]:
  "no_fail E \<Longrightarrow> n \<le> length f \<Longrightarrow> succeeds (read_exact E n f) w"
  "no_fail E \<Longrightarrow> succeeds (read_some E n f) w"
  by (simp_all add: succeeds_def read_exact_def read_some_def sysop_runs)

lemma seal_to_runs [runs]: "no_fail E \<Longrightarrow> succeeds (seal_to cr E p cc seq plain) w"
proof -
  assume nf: "no_fail E"
  have "succeeds (bindE (append_file E p a) (\<lambda>_. bindE (append_file E p b) (\<lambda>_. append_file E p c))) w'"
    for a b c w'
    by (intro succeeds_bindE runs nf)
  then show ?thesis unfolding succeeds_def seal_to_def case_prod_unfold Let_def .
qed

lemma report_runs: "succeeds (report dn tot) w"
  by (simp add: succeeds_def report_def)

lemma write_chunks_runs:
  assumes "no_fail E"
  shows "unat remaining \<le> length f \<Longrightarrow> succeeds (write_chunks cr E cc tmp rel tot remaining f seq dn) w"
proof (induction "unat remaining" arbitrary: remaining f seq dn w rule: less_induct)
  case (less remaining f seq dn w)
  show ?case
  proof (cases "remaining = 0")
    case False
    have "succeeds (bindE (mapE (\<lambda>_. changed rel) (read_exact E (next_chunk remaining) f)) (\<lambda>(buf, f).
        bindE (mapE Io (seal_to cr E tmp cc seq buf)) (\<lambda>_.
        bindE (report (dn + word_of_nat (next_chunk remaining)) tot) (\<lambda>_.
          write_chunks cr E cc tmp rel tot (remaining - word_of_nat (next_chunk remaining)) f (seq + 1)
            (dn + word_of_nat (next_chunk remaining)))))) w"
    proof (rule succeeds_bindE)
      have "next_chunk remaining \<le> length f" using less.prems by (simp add: next_chunk_def)
      then show "succeeds (mapE (\<lambda>_. changed rel) (read_exact E (next_chunk remaining) f)) w"
        by (intro succeeds_mapE runs assms)
    next
      fix x t
      assume r: "mapE (\<lambda>_. changed rel) (read_exact E (next_chunk remaining) f) w = (Inr x, t)"
      obtain buf g where x: "x = (buf, g)" by fastforce
      have "f = buf @ g" "length buf = next_chunk remaining"
        using read_exact_Inr [of E _ f w buf g t] r x by (simp_all add: mapE_Inr_iff)
      then have "unat (remaining - word_of_nat (next_chunk remaining)) \<le> length g"
        using less.prems next_chunk_decreases(1) [OF False] by simp
      then show "succeeds (case x of (buf, f) \<Rightarrow>
          bindE (mapE Io (seal_to cr E tmp cc seq buf)) (\<lambda>_.
          bindE (report (dn + word_of_nat (next_chunk remaining)) tot) (\<lambda>_.
            write_chunks cr E cc tmp rel tot (remaining - word_of_nat (next_chunk remaining)) f (seq + 1)
              (dn + word_of_nat (next_chunk remaining))))) t"
        unfolding x prod.case
        by (intro succeeds_bindE succeeds_mapE runs report_runs assms less.hyps next_chunk_less False)
    qed
    with False show ?thesis by (subst write_chunks_turn) (simp add: Let_def)
  qed (subst write_chunks_turn, simp add: succeeds_returnE)
qed

lemma write_files_runs:
  assumes nf: "no_fail E" and laws: "gcm_laws cr" and apart: "\<not> strict_prefix src tmp"
  shows "lookup w tmp = Some (File d) \<Longrightarrow> \<forall>e \<in> set es. \<not> e_is_dir e \<longrightarrow> (\<exists>data. file_of w src e data) \<Longrightarrow>
      succeeds (write_files cr E cc src tmp tot es seq dn) w"
proof (induction es arbitrary: seq dn w d)
  case Nil
  show ?case unfolding write_files.simps by (rule succeeds_returnE)
next
  case (Cons e es)
  show ?case
  proof (cases "e_is_dir e")
    case True
    with Cons show ?thesis by simp
  next
    case False
    from Cons.prems(2) False obtain data where "file_of w src e data" by auto
    then obtain p fd where sj: "safe_join src (rel_path e) = Inr p" and l: "lookup w p = Some (File fd)"
      and len: "length (f_content fd) = unat (e_size e)" by (auto simp: file_of_def)
    let ?w1 = "w\<lparr>w_tick := Suc (w_tick w)\<rparr>"
    have op: "open_read E p w = (Inr (f_content fd), ?w1)"
      using nf l by (simp add: open_read_def sysop_runs)
    have "succeeds (write_chunks cr E cc tmp (rel_path e) tot (e_size e) (f_content fd) seq dn) ?w1"
      using len by (intro write_chunks_runs nf) simp
    then obtain g seq1 dn1 w2 where
      wc: "write_chunks cr E cc tmp (rel_path e) tot (e_size e) (f_content fd) seq dn ?w1 = (Inr (g, seq1, dn1), w2)"
      by (auto elim!: succeedsE)
    have "lookup ?w1 tmp = Some (File d)" using Cons.prems(1) by simp
    from write_chunks_Inr [OF laws wc this] len obtain d2 where
      g: "g = []" and l2: "lookup w2 tmp = Some (File d2)" by auto
    let ?w3 = "w2\<lparr>w_tick := Suc (w_tick w2)\<rparr>"
    have rd: "read_some E 1 g w2 = (Inr ([], []), ?w3)"
      using nf g by (simp add: read_some_def sysop_runs)
    have c: "changes_only (\<lambda>q. q = tmp) w ?w3"
      using keepsD [OF write_chunks_touches wc, of "\<lambda>q. q = tmp"] by (simp add: changes_only_def)
    have keep: "file_of ?w3 src e' data" if f: "file_of w src e' data" for e' data
    proof -
      have "changes_only (\<lambda>q. q = tmp) ?w3 w" using c by (simp add: changes_only_def)
      from file_of_unchanged [OF this apart f] show ?thesis .
    qed
    have "succeeds (write_files cr E cc src tmp tot es seq1 dn1) ?w3"
    proof (rule Cons.IH)
      show "lookup ?w3 tmp = Some (File d2)" using l2 by simp
      show "\<forall>e \<in> set es. \<not> e_is_dir e \<longrightarrow> (\<exists>data. file_of ?w3 src e data)"
        using Cons.prems(2) keep by (meson list.set_intros(2))
    qed
    then show ?thesis
      using False sj op wc rd
      by (simp add: succeeds_def bindE_def mapE_def del: One_nat_def)
  qed
qed

lemma write_container_runs:
  assumes nf: "no_fail E" and ok: "crypto_ok cr" and apart: "\<not> strict_prefix src tmp"
    and kdf: "\<And>salt. length salt = 16 \<Longrightarrow>
        \<exists>k. derive_kek cr pw salt (case lo_kdf opts of Some k \<Rightarrow> k | None \<Rightarrow> kdf_default) = Inr k"
    and m: "ser bc entries = Inr m" "length m \<le> MAX_MANIFEST_LEN - TAG_LEN"
    and tmp: "lookup w tmp = None" "parent_is_dir w tmp"
    and files: "\<forall>e \<in> set entries. \<not> e_is_dir e \<longrightarrow> (\<exists>data. file_of w src e data)"
  shows "succeeds (write_container cr bc E src tmp entries tot pw hk opts) w"
proof -
  define kdf where "kdf = (case lo_kdf opts of Some k \<Rightarrow> k | None \<Rightarrow> kdf_default)"
  obtain id r1 where 1: "fill_bytes 16 (w_rng w) = (id, r1)" by fastforce
  obtain salt r2 where 2: "fill_bytes 16 r1 = (salt, r2)" by fastforce
  obtain dk r3 where 3: "random_key r2 = (dk, r3)" by fastforce
  have "length salt = 16" using 2 length_fill_bytes [of 16 r1] by (metis fst_conv)
  then obtain kek where kek: "derive_kek cr pw salt kdf = Inr kek" using kdf unfolding kdf_def by blast
  obtain h r4 where h: "new_header cr opts id salt kek dk (length entries) tot r3 = (h, r4)" by fastforce
  let ?w0 = "w\<lparr>w_rng := r4\<rparr>" and ?cc = "cc_new dk id"
  have laws: "gcm_laws cr" using ok by (simp add: crypto_ok_def)
  have p0: "lookup ?w0 tmp = None" "parent_is_dir ?w0 tmp"
    using tmp by (simp_all add: parent_is_dir_def is_dir_path_def)
  have "succeeds (bindE (mapE Io (create_file E tmp)) (\<lambda>_.
      bindE (mapE Io (append_file E tmp (to_bytes cr hk h))) (\<lambda>_.
      bindE (mapE Io (seal_to cr E tmp ?cc MANIFEST_SEQ m)) (\<lambda>_.
      bindE (write_files cr E ?cc src tmp tot entries 0 0) (\<lambda>_.
      bindE (mapE Io (sync_all E)) (\<lambda>_.
      bindE (mapE Io (sync_all E)) (\<lambda>_. returnE id))))))) ?w0"
  proof (rule succeeds_bindE [OF _ succeeds_bindE [OF _ succeeds_bindE [OF _ succeeds_bindE]]])
    show "succeeds (mapE Io (create_file E tmp)) ?w0"
      by (intro succeeds_mapE runs nf p0)
  next
    fix u1 w1 u2 w2 u3 w3
    assume a: "mapE Io (create_file E tmp) ?w0 = (Inr u1, w1)"
      "mapE Io (append_file E tmp (to_bytes cr hk h)) w1 = (Inr u2, w2)"
      "mapE Io (seal_to cr E tmp ?cc MANIFEST_SEQ m) w2 = (Inr u3, w3)"
    then have a': "create_file E tmp ?w0 = (Inr u1, w1)" "append_file E tmp (to_bytes cr hk h) w1 = (Inr u2, w2)"
      "seal_to cr E tmp ?cc MANIFEST_SEQ m w2 = (Inr u3, w3)"
      by (simp_all add: mapE_Inr_iff)
    obtain d1 where "lookup w1 tmp = Some (File d1)" using create_file_Inr [OF a'(1)] by blast
    from seal_to_Inr [OF laws a'(3) append_file_Inr [OF a'(2) this]] obtain d3 where
      l3: "lookup w3 tmp = Some (File d3)" by blast
    have "lookup w q = lookup w3 q" if "q \<noteq> tmp" for q
      using that keepsD [OF writing_touches(2) a'(1), of "\<lambda>q. q = tmp"]
        keepsD [OF writing_touches(3) a'(2), of "\<lambda>q. q = tmp"] keepsD [OF seal_to_touches a'(3), of "\<lambda>q. q = tmp"]
      by (simp add: changes_only_def)
    then have "changes_only (\<lambda>q. q = tmp) w3 w" by (rule changes_only_I)
    then have "\<forall>e \<in> set entries. \<not> e_is_dir e \<longrightarrow> (\<exists>data. file_of w3 src e data)"
      using files file_of_unchanged [OF _ apart] by blast
    then show "succeeds (write_files cr E ?cc src tmp tot entries 0 0) w3"
      by (rule write_files_runs [OF nf laws apart l3])
  qed (intro succeeds_bindE succeeds_mapE succeeds_returnE runs nf)+
  then show ?thesis
    using m by (simp add: succeeds_def write_container_def 1 2 3 kek h kdf_def [symmetric] Let_def)
qed

section \<open>Properties of writing\<close>

text \<open>
  C7: Whatever I/O errors occur, if \<open>write_container\<close> reports success then the temporary file is
  a complete container: a header block carrying fresh lockout fields and the entry count, whose
  password slot unwraps to a data key, and a payload that decrypts under that key to exactly the
  given manifest and, chunk by chunk and in order, to the current contents of exactly the listed
  files, each with the size the scan recorded; the recovery slot is sealed to the enrolled
  master key (or all zero); and no other path has changed.
\<close>

theorem write_container_faithful:
  assumes "crypto_ok cr" and "codec_ok bc" and "\<not> strict_prefix src tmp"
    and "write_container cr bc E src tmp entries tot pw hk opts w = (Inr uuid, w')"
  shows "\<exists>d h dk datas. lookup w' tmp = Some (File d)
     \<and> sealed_container cr bc hk pw (f_content d) h dk entries datas
     \<and> h_uuid h = uuid \<and> payload_len h = tot \<and> enrolled_with cr opts h dk
     \<and> list_all2 (file_of w src) (filter (\<lambda>e. \<not> e_is_dir e) entries) datas
     \<and> (\<forall>q. q \<noteq> tmp \<longrightarrow> lookup w' q = lookup w q)"
  using write_container_Inr [OF assms] keepsD [OF write_container_touches assms(4), of "\<lambda>q. q = tmp"]
  unfolding changes_only_def by blast

definition sample_codec :: "'a \<Rightarrow> 'a codec" where
  "sample_codec x = \<lparr>ser = (\<lambda>y. if y = x then Inr [1] else Inl ''unsupported''),
     de = (\<lambda>b. if b = [1] then Some x else None)\<rparr>"

lemma sample_codec_ok [simp]: "codec_ok (sample_codec x)"
  by (simp add: codec_ok_def sample_codec_def)

lemma toy_crypto_ok [simp]: "crypto_ok toy_crypto"
  by (simp add: crypto_ok_def)

definition sample_options :: lock_options where
  "sample_options = \<lparr>lo_kdf = None, lo_master_pub = None, secure_delete = False, recycle_original = False,
     readonly_container = True\<rparr>"

lemma derive_kek_toy: "\<exists>k. derive_kek toy_crypto pw salt kdf_default = Inr k"
  by (simp add: derive_kek_def toy_crypto_def)

lemma sample_join: "safe_join [''d''] ''s/a'' = Inr [''d'', ''s'', ''a'']"
proof -
  have "list_all is_safe_component [''s'', ''a'']" by (simp add: safe_eval)
  from safe_join_join_slash [OF _ this, of "[''d'']"] show ?thesis by simp
qed

lemma sample_file_of: "file_of sample_world [''d''] (file_entry ''s/a'' sample_file) [1, 2]"
  by (simp add: file_of_def file_entry_def sample_join file_len_def)
     (simp add: lookup_def sample_world_def get_sample_fs sample_file_def)

lemma write_container_sample:
  "\<exists>uuid w'. write_container toy_crypto (sample_codec sample_entries) calm [''d''] [''d.fvlt.tmp'']
     sample_entries 2 [7] [9] sample_options sample_world = (Inr uuid, w')"
proof -
  have "succeeds (write_container toy_crypto (sample_codec sample_entries) calm [''d''] [''d.fvlt.tmp'']
     sample_entries 2 [7] [9] sample_options) sample_world"
  proof (rule write_container_runs)
    show "\<And>salt. \<exists>k. derive_kek toy_crypto [7] salt (case lo_kdf sample_options of Some k \<Rightarrow> k | None \<Rightarrow> kdf_default) = Inr k"
      by (simp add: sample_options_def derive_kek_toy)
    show "ser (sample_codec sample_entries) sample_entries = Inr [1]" by (simp add: sample_codec_def)
    show "lookup sample_world [''d.fvlt.tmp''] = None" "parent_is_dir sample_world [''d.fvlt.tmp'']"
      by (simp_all add: lookup_def sample_world_def get_sample_fs parent_is_dir_def is_dir_path_def)
    show "\<forall>e \<in> set sample_entries. \<not> e_is_dir e \<longrightarrow> (\<exists>data. file_of sample_world [''d''] e data)"
      using sample_file_of by (auto simp: sample_entries_def dir_entry_def)
  qed (simp_all add: strict_prefix_def MAX_MANIFEST_LEN_def TAG_LEN_def)
  then show ?thesis by (auto simp: succeeds_def)
qed

theorem write_container_faithful_witness:
  "\<exists>uuid w' d h dk datas. lookup w' [''d.fvlt.tmp''] = Some (File d)
     \<and> sealed_container toy_crypto (sample_codec sample_entries) [9] [7] (f_content d) h dk sample_entries datas
     \<and> h_uuid h = uuid"
proof -
  obtain uuid w' where "write_container toy_crypto (sample_codec sample_entries) calm [''d''] [''d.fvlt.tmp'']
     sample_entries 2 [7] [9] sample_options sample_world = (Inr uuid, w')"
    using write_container_sample by blast
  from write_container_faithful [OF _ _ _ this] show ?thesis by (simp add: strict_prefix_def) blast
qed

end
