(* ===== verification/Authorize.thy ===== *)
theory Authorize
  imports Container
begin

text \<open>
  \<open>crates/vault-core/src/format.rs\<close>, lines 211 to 217 and 396 to 500: opening a container with a
  password or the recovery code (\<open>open_and_authorize\<close>) and deleting it after such a check
  (\<open>verify_and_delete\<close>). The lockout state lives in the header of the container file.
\<close>

section \<open>The code\<close>

datatype credential = Password "byte list" | MasterCode "uchar list"

text \<open>The closure \<open>rearm\<close>, and returning an error after it.\<close>

definition rearm :: "os \<Rightarrow> path \<Rightarrow> bool \<Rightarrow> world \<Rightarrow> world" where
  "rearm E c was_readonly w = (if was_readonly then snd (set_readonly E c True w) else w)"

definition bail :: "os \<Rightarrow> path \<Rightarrow> bool \<Rightarrow> verror \<Rightarrow> 'a vio" where
  "bail E c was_readonly e w = (Inl e, rearm E c was_readonly w)"

definition clamp_foreign :: "header \<Rightarrow> header" where
  "clamp_foreign h =
     (if \<not> hmac_ok h \<and> fail_count (h_lockout h) < MAX_ATTEMPTS - 1
      then h\<lparr>h_lockout := (h_lockout h)\<lparr>fail_count := MAX_ATTEMPTS - 1\<rparr>\<rparr> else h)"

definition check_credential ::
  "crypto \<Rightarrow> os \<Rightarrow> path \<Rightarrow> credential \<Rightarrow> byte list \<Rightarrow> u64 \<Rightarrow> bool \<Rightarrow> header \<Rightarrow> key vio" where
  "check_credential cr E container cred hmac_key now was_readonly header =
     (case cred of
        Password password \<Rightarrow>
          (case lockout_check (h_lockout header) now of
             Inl e \<Rightarrow> bail E container was_readonly e
           | Inr _ \<Rightarrow>
               bindE (liftR (derive_kek cr password (h_salt header) (h_kdf header))) (\<lambda>kek.
                 case unwrap_key cr kek (wrapped_dk_pw header) of
                   Some dk \<Rightarrow> returnE dk
                 | None \<Rightarrow>
                     (let (err, lock) = record_failure (h_lockout header) now
                      in bindE (rewrite_header cr E container (header\<lparr>h_lockout := lock\<rparr>) hmac_key) (\<lambda>_.
                           bail E container was_readonly err))))
      | MasterCode code \<Rightarrow>
          if \<not> is_enrolled (wrapped_dk_mk header)
          then bail E container was_readonly (Other ''no master key is enrolled in this container'')
          else (case open_dk cr code (wrapped_dk_mk header) of
                  Some dk \<Rightarrow> returnE dk
                | None \<Rightarrow> bail E container was_readonly (Other ''invalid recovery code'')))"

text \<open>The last step: a successful check clears the lockout on disk unless it is clear already.\<close>

definition clear_lockout :: "crypto \<Rightarrow> os \<Rightarrow> path \<Rightarrow> byte list \<Rightarrow> header \<Rightarrow> header vio" where
  "clear_lockout cr E container hmac_key header =
     (if h_lockout header \<noteq> lockout_default \<or> \<not> hmac_ok header
      then let header = header\<lparr>h_lockout := lockout_reset (h_lockout header)\<rparr>
           in bindE (rewrite_header cr E container header hmac_key) (\<lambda>_. returnE header)
      else returnE header)"

definition was_readonly_on_entry :: "os \<Rightarrow> path \<Rightarrow> world \<Rightarrow> bool \<times> world" where
  "was_readonly_on_entry E container w =
     (case metadata E container w of (Inr n, w) \<Rightarrow> (node_readonly n, w) | (Inl _, w) \<Rightarrow> (False, w))"

text \<open>The result is the rest of the file after the header, the header, the data key and the flag.\<close>

definition open_and_authorize ::
  "crypto \<Rightarrow> os \<Rightarrow> path \<Rightarrow> credential \<Rightarrow> byte list \<Rightarrow> u64 \<Rightarrow> (byte list \<times> header \<times> key \<times> bool) vio" where
  "open_and_authorize cr E container cred hmac_key now w =
     (let (was_readonly, w) = was_readonly_on_entry E container w;
          w = (if was_readonly then snd (set_readonly E container False w) else w)
      in bindE (mapE Io (open_rw E container)) (\<lambda>f.
         bindE (mapE Io (read_exact E HEADER_LEN f)) (\<lambda>(hb, rest).
         bindE (liftR (from_bytes cr hmac_key hb)) (\<lambda>header.
           let header = clamp_foreign header
           in bindE (check_credential cr E container cred hmac_key now was_readonly header) (\<lambda>dk.
              bindE (clear_lockout cr E container hmac_key header) (\<lambda>header.
                returnE (rest, header, dk, was_readonly)))))) w)"

definition verify_and_delete ::
  "crypto \<Rightarrow> os \<Rightarrow> path \<Rightarrow> credential \<Rightarrow> byte list \<Rightarrow> u64 \<Rightarrow> unit vio" where
  "verify_and_delete cr E container cred hmac_key now =
     bindE (open_and_authorize cr E container cred hmac_key now) (\<lambda>(_, _, _, was_readonly) w.
       let w = snd (set_readonly E container False w)
       in case recycle E container w of
            (Inl e, w) \<Rightarrow> (Inl (Io e), rearm E container was_readonly w)
          | (Inr _, w) \<Rightarrow> (Inr (), w))"

section \<open>The container file across a check\<close>

text \<open>
  \<open>container_file cr k w c h rest ro\<close>: the file \<open>c\<close> is a header block that parses to \<open>h\<close> under
  the key \<open>k\<close>, followed by \<open>rest\<close>, and \<open>ro\<close> is its read-only flag.
\<close>

definition container_file :: "crypto \<Rightarrow> byte list \<Rightarrow> world \<Rightarrow> path \<Rightarrow> header \<Rightarrow> byte list \<Rightarrow> bool \<Rightarrow> bool" where
  "container_file cr k w c h rest ro \<longleftrightarrow>
     (\<exists>d hb. lookup w c = Some (File d) \<and> f_content d = hb @ rest \<and> length hb = HEADER_LEN
        \<and> from_bytes cr k hb = Inr h \<and> f_readonly d = ro)"

definition keys_on_disk :: "crypto \<Rightarrow> byte list \<Rightarrow> path \<Rightarrow> header \<Rightarrow> byte list \<Rightarrow> world \<Rightarrow> bool" where
  "keys_on_disk cr k c h rest w \<longleftrightarrow> (\<exists>g ro. container_file cr k w c g rest ro \<and> same_keys h g)"

definition keeps_keys :: "crypto \<Rightarrow> byte list \<Rightarrow> path \<Rightarrow> header \<Rightarrow> byte list \<Rightarrow> world \<Rightarrow> world \<Rightarrow> bool" where
  "keeps_keys cr k c h rest w w' \<longleftrightarrow> (keys_on_disk cr k c h rest w \<longrightarrow> keys_on_disk cr k c h rest w')"

named_theorems key_safe "steps that leave the keys of a container on disk"

lemma keeps_keys_preorder [key_safe]: "preorderS (keeps_keys cr k c h rest)"
  by (auto simp: preorderS_def keeps_keys_def)

lemma container_file_tick [simp]:
  "container_file cr k (w\<lparr>w_tick := n\<rparr>) c h rest ro = container_file cr k w c h rest ro"
  by (simp add: container_file_def)

lemma keys_on_disk_cong: "lookup w c = lookup w' c \<Longrightarrow> keys_on_disk cr k c h rest w = keys_on_disk cr k c h rest w'"
  by (simp add: keys_on_disk_def container_file_def)

lemma elsewhere_keeps_keys: "keeps (changes_only (\<lambda>q. q \<noteq> c)) m \<Longrightarrow> keeps (keeps_keys cr k c h rest) m"
  unfolding keeps_def keeps_keys_def changes_only_def by (metis keys_on_disk_cong)

lemma reading_keeps_keys [key_safe]:
  "keeps (keeps_keys cr k c h rest) (metadata E p)"
  "keeps (keeps_keys cr k c h rest) (open_rw E p)"
  "keeps (keeps_keys cr k c h rest) (sync_all E)"
  "keeps (keeps_keys cr k c h rest) (read_exact E n f)"
  by (intro elsewhere_keeps_keys touches read_touches)+

lemma set_permissions_keeps_keys [key_safe]: "keeps (keeps_keys cr k c h rest) (set_permissions E p ro)"
proof (rule keepsI)
  fix w
  have "keys_on_disk cr k c h rest w \<Longrightarrow> keys_on_disk cr k c h rest (put_file p (\<lambda>d. d\<lparr>f_readonly := ro\<rparr>) w)"
    by (auto simp: keys_on_disk_def container_file_def lookup_put_file)
  then show "keeps_keys cr k c h rest w (snd (set_permissions E p ro w))"
    by (auto simp: keeps_keys_def set_permissions_def sysop_def Let_def unspoiled_def keys_on_disk_def
        container_file_def lookup_put_file)
qed

lemma set_readonly_keeps_keys [key_safe]: "keeps (keeps_keys cr k c h rest) (set_readonly E p ro)"
  unfolding set_readonly_def by (intro keeps_intros key_safe)

lemma overwrite_outcome:
  assumes "lookup w c = Some (File d)" and "f_content d = hb @ rest" and "length hb = length bs"
  shows "lookup (snd (overwrite_start E c bs w)) c =
     Some (File (d\<lparr>f_content := (if os_fails E (w_tick w) then torn_write (os_torn E (w_tick w)) bs hb else bs) @ rest\<rparr>))"
  using assms by (auto simp: overwrite_start_def sysop_def Let_def lookup_put_file)

lemma overwrite_keeps_keys:
  assumes keys: "same_keys h g" and wf: "wf_header g" and mac: "hmac_len_ok cr"
  shows "keeps (keeps_keys cr k c h rest) (overwrite_start E c (to_bytes cr k g))"
proof (rule keepsI)
  fix w
  let ?new = "to_bytes cr k g" and ?w' = "snd (overwrite_start E c (to_bytes cr k g) w)"
  have len: "length ?new = 268" using wf mac by (rule length_to_bytes)
  have new: "from_bytes cr k ?new = Inr (g\<lparr>hmac_ok := True\<rparr>)" using wf mac by (rule to_bytes_parses)
  have "keys_on_disk cr k c h rest ?w'" if disk: "keys_on_disk cr k c h rest w"
  proof -
    obtain d hb g0 where d: "lookup w c = Some (File d)" "f_content d = hb @ rest" "length hb = 268"
      "from_bytes cr k hb = Inr g0" "same_keys h g0"
      using disk by (auto simp: keys_on_disk_def container_file_def HEADER_LEN_def)
    have "same_keys g0 (g\<lparr>hmac_ok := True\<rparr>)" using d(5) keys by (simp add: same_keys_def)
    from torn_header_parses [OF d(4,3) new len this]
    obtain f where f: "from_bytes cr k (torn_write (os_torn E (w_tick w)) ?new hb) = Inr f" "same_keys g0 f"
      by blast
    define hb' where "hb' = (if os_fails E (w_tick w) then torn_write (os_torn E (w_tick w)) ?new hb else ?new)"
    have "length hb' = HEADER_LEN" using d(3) len by (simp add: hb'_def HEADER_LEN_def)
    moreover have "\<exists>g'. from_bytes cr k hb' = Inr g' \<and> same_keys h g'"
      using f new keys d(5) unfolding hb'_def same_keys_def by auto
    moreover have "lookup ?w' c = Some (File (d\<lparr>f_content := hb' @ rest\<rparr>))"
      using overwrite_outcome [OF d(1,2)] d(3) len by (simp add: hb'_def)
    ultimately show ?thesis
      unfolding keys_on_disk_def container_file_def by fastforce
  qed
  then show "keeps_keys cr k c h rest w ?w'" by (simp add: keeps_keys_def)
qed

lemma rewrite_keeps_keys:
  assumes "same_keys h g" and "wf_header g" and "hmac_len_ok cr"
  shows "keeps (keeps_keys cr k c h rest) (rewrite_header cr E c g k)"
  unfolding rewrite_header_def by (intro keeps_intros key_safe overwrite_keeps_keys assms)

lemma bail_keeps_keys [key_safe]: "keeps (keeps_keys cr k c h rest) (bail E c ro e)"
  using set_readonly_keeps_keys [of cr k c h rest E c True] keeps_keys_preorder [of cr k c h rest]
  by (auto simp: keeps_def bail_def rearm_def preorderS_def)

lemma wf_header_update [simp]:
  "wf_header (h\<lparr>h_lockout := l\<rparr>) = wf_header h" "wf_header (h\<lparr>hmac_ok := b\<rparr>) = wf_header h"
  by (simp_all add: wf_header_def)

lemma check_credential_keeps_keys:
  assumes keys: "same_keys h g" and wf: "wf_header g" and mac: "hmac_len_ok cr"
  shows "keeps (keeps_keys cr k c h rest) (check_credential cr E c cred k now ro g)"
proof -
  have rw: "keeps (keeps_keys cr k c h rest) (rewrite_header cr E c (g\<lparr>h_lockout := l\<rparr>) k)" for l
    by (rule rewrite_keeps_keys) (use keys wf mac in \<open>simp_all add: same_keys_def\<close>)
  note k = keeps_intros key_safe rw
  show ?thesis
    unfolding check_credential_def case_prod_unfold Let_def
    by (cases cred; cases "lockout_check (h_lockout g) now"; simp only: credential.case sum.case; intro k)
qed

lemma clear_lockout_keeps_keys:
  assumes "same_keys h g" and "wf_header g" and "hmac_len_ok cr"
  shows "keeps (keeps_keys cr k c h rest) (clear_lockout cr E c k g)"
proof -
  have "keeps (keeps_keys cr k c h rest) (rewrite_header cr E c (g\<lparr>h_lockout := l\<rparr>) k)" for l
    by (rule rewrite_keeps_keys) (use assms in \<open>simp_all add: same_keys_def\<close>)
  then show ?thesis
    unfolding clear_lockout_def Let_def by (intro keeps_intros key_safe)
qed

lemma clamp_foreign_keys [simp]:
  "same_keys h (clamp_foreign h)" "wf_header (clamp_foreign h) = wf_header h"
  by (simp_all add: clamp_foreign_def)

text \<open>The opening of the container: what was read, and that the file is as before but for the flag.\<close>

definition entry_state :: "os \<Rightarrow> path \<Rightarrow> world \<Rightarrow> bool \<times> world" where
  "entry_state E c w =
     (let (ro, w) = was_readonly_on_entry E c w
      in (ro, if ro then snd (set_readonly E c False w) else w))"

lemma entry_state_keeps_keys: "keeps_keys cr k c h rest w (snd (entry_state E c w))"
proof -
  let ?R = "keeps_keys cr k c h rest"
  obtain ro w1 where e: "was_readonly_on_entry E c w = (ro, w1)" by fastforce
  then have w1: "w1 = snd (metadata E c w)"
    by (auto simp: was_readonly_on_entry_def split: prod.splits sum.splits)
  have 1: "?R w w1" unfolding w1 using reading_keeps_keys(1) by (simp add: keeps_def)
  have "?R w1 (snd (set_readonly E c False w1))" using set_readonly_keeps_keys by (simp add: keeps_def)
  with 1 have "?R w (snd (set_readonly E c False w1))" by (simp add: keeps_keys_def)
  with 1 show ?thesis by (simp add: entry_state_def e)
qed

lemma open_and_authorize_entry:
  "open_and_authorize cr E c cred k now w =
     (case entry_state E c w of (ro, w) \<Rightarrow>
        bindE (mapE Io (open_rw E c)) (\<lambda>f.
        bindE (mapE Io (read_exact E HEADER_LEN f)) (\<lambda>(hb, rest).
        bindE (liftR (from_bytes cr k hb)) (\<lambda>h.
        bindE (check_credential cr E c cred k now ro (clamp_foreign h)) (\<lambda>dk.
        bindE (clear_lockout cr E c k (clamp_foreign h)) (\<lambda>h. returnE (rest, h, dk, ro)))))) w)"
  by (simp add: open_and_authorize_def entry_state_def Let_def case_prod_unfold)

text \<open>Whatever fails, the keys of the container and everything after its header stay.\<close>

lemma authorize_keeps_keys:
  assumes cf: "container_file cr k w c h rest ro" and mac: "hmac_len_ok cr"
  shows "keys_on_disk cr k c h rest (snd (open_and_authorize cr E c cred k now w))"
proof -
  let ?R = "keeps_keys cr k c h rest"
  note pre = keeps_keys_preorder [of cr k c h rest]
  obtain ro1 w1 where e: "entry_state E c w = (ro1, w1)" by fastforce
  have "keys_on_disk cr k c h rest w" using cf by (auto simp: keys_on_disk_def)
  then have k1: "keys_on_disk cr k c h rest w1"
    using entry_state_keeps_keys [of cr k c h rest w E] e by (simp add: keeps_keys_def)
  have "?R w1 (snd (open_and_authorize cr E c cred k now w))"
    unfolding open_and_authorize_entry e prod.case
  proof (rule bindE_state [OF pre])
    show "?R w1 (snd (mapE Io (open_rw E c) w1))"
      using reading_keeps_keys(2) by (simp add: mapE_state keeps_def)
  next
    fix f w2
    assume "mapE Io (open_rw E c) w1 = (Inr f, w2)"
    then have op: "open_rw E c w1 = (Inr f, w2)" by (simp add: mapE_Inr_iff)
    obtain d g hb where d: "lookup w1 c = Some (File d)" "f_content d = hb @ rest" "length hb = HEADER_LEN"
      "from_bytes cr k hb = Inr g" "same_keys h g"
      using k1 by (auto simp: keys_on_disk_def container_file_def)
    have f: "f = hb @ rest" using open_rw_Inr [OF op] d(1,2) by auto
    show "?R w2 (snd (bindE (mapE Io (read_exact E HEADER_LEN f)) (\<lambda>(hb, rest).
        bindE (liftR (from_bytes cr k hb)) (\<lambda>h.
        bindE (check_credential cr E c cred k now ro1 (clamp_foreign h)) (\<lambda>dk.
        bindE (clear_lockout cr E c k (clamp_foreign h)) (\<lambda>h. returnE (rest, h, dk, ro1))))) w2))"
    proof (rule bindE_state [OF pre])
      show "?R w2 (snd (mapE Io (read_exact E HEADER_LEN f) w2))"
        using reading_keeps_keys(4) by (simp add: mapE_state keeps_def)
    next
      fix x w3
      assume "mapE Io (read_exact E HEADER_LEN f) w2 = (Inr x, w3)"
      then have rd: "read_exact E HEADER_LEN f w2 = (Inr (fst x, snd x), w3)" by (simp add: mapE_Inr_iff)
      have x: "x = (hb, rest)"
        using read_exact_Inr [OF rd] f d(3) by (metis append_eq_append_conv prod.collapse)
      have wf: "wf_header g" using from_bytes_wf [OF d(4)] d(3) by (simp add: HEADER_LEN_def)
      have sk: "same_keys h (clamp_foreign g)" using d(5) clamp_foreign_keys(1) by (rule same_keys_trans)
      have "keeps ?R (bindE (check_credential cr E c cred k now ro1 (clamp_foreign g)) (\<lambda>dk.
          bindE (clear_lockout cr E c k (clamp_foreign g)) (\<lambda>h. returnE (rest, h, dk, ro1))))"
        by (intro keeps_intros key_safe check_credential_keeps_keys clear_lockout_keeps_keys) (simp_all add: wf sk mac)
      then show "?R w3 (snd ((case x of (hb, rest) \<Rightarrow> bindE (liftR (from_bytes cr k hb)) (\<lambda>h.
          bindE (check_credential cr E c cred k now ro1 (clamp_foreign h)) (\<lambda>dk.
          bindE (clear_lockout cr E c k (clamp_foreign h)) (\<lambda>h. returnE (rest, h, dk, ro1))))) w3))"
        by (simp add: x d(4) keeps_def)
    qed
  qed
  with k1 show ?thesis by (simp add: keeps_keys_def)
qed

section \<open>What a check decides\<close>

text \<open>
  Specification of a check against a header: the result, and the lockout state to be found on
  disk afterwards (\<open>None\<close> when it is left alone).
\<close>

definition decide ::
  "crypto \<Rightarrow> credential \<Rightarrow> u64 \<Rightarrow> header \<Rightarrow> (verror + key) \<times> lockout_state option" where
  "decide cr cred now h =
     (case cred of
        Password pw \<Rightarrow>
          (case lockout_check (h_lockout h) now of
             Inl e \<Rightarrow> (Inl e, None)
           | Inr _ \<Rightarrow>
               (case derive_kek cr pw (h_salt h) (h_kdf h) of
                  Inl e \<Rightarrow> (Inl e, None)
                | Inr kek \<Rightarrow>
                    (case unwrap_key cr kek (wrapped_dk_pw h) of
                       Some dk \<Rightarrow> (Inr dk, Some lockout_default)
                     | None \<Rightarrow> (Inl (fst (record_failure (h_lockout h) now)),
                               Some (snd (record_failure (h_lockout h) now))))))
      | MasterCode code \<Rightarrow>
          if \<not> is_enrolled (wrapped_dk_mk h)
          then (Inl (Other ''no master key is enrolled in this container''), None)
          else (case open_dk cr code (wrapped_dk_mk h) of
                  Some dk \<Rightarrow> (Inr dk, Some lockout_default)
                | None \<Rightarrow> (Inl (Other ''invalid recovery code''), None)))"

text \<open>Deriving the key is refused before the password could be tried.\<close>

definition kdf_refuses :: "crypto \<Rightarrow> credential \<Rightarrow> u64 \<Rightarrow> header \<Rightarrow> bool" where
  "kdf_refuses cr cred now h \<longleftrightarrow>
     (case cred of Password pw \<Rightarrow> isl (derive_kek cr pw (h_salt h) (h_kdf h)) \<and> \<not> isl (lockout_check (h_lockout h) now)
      | MasterCode _ \<Rightarrow> False)"

lemma container_file_permission:
  assumes nf: "no_fail E" and cf: "container_file cr k w c h rest ro"
  shows "container_file cr k (snd (set_readonly E c b w)) c h rest b"
proof -
  obtain d hb where d: "lookup w c = Some (File d)" "f_content d = hb @ rest" "length hb = HEADER_LEN"
    "from_bytes cr k hb = Inr h" using cf by (auto simp: container_file_def)
  let ?w1 = "w\<lparr>w_tick := Suc (w_tick w)\<rparr>"
  have "metadata E c w = (Inr (File d), ?w1)" using nf d(1) by (simp add: metadata_def sysop_runs)
  moreover have "lookup ?w1 c = Some (File d)" "exists_path ?w1 c"
    using d(1) by (simp_all add: exists_path_def)
  then have "lookup (snd (set_permissions E c b ?w1)) c = Some (File (d\<lparr>f_readonly := b\<rparr>))"
    using nf by (simp add: set_permissions_def sysop_runs lookup_put_file)
  ultimately show ?thesis
    using d by (simp add: set_readonly_def bindE_def container_file_def)
qed

lemma entry_state_runs:
  assumes nf: "no_fail E" and cf: "container_file cr k w c h rest ro"
  obtains w1 where "entry_state E c w = (ro, w1)" and "container_file cr k w1 c h rest False"
proof -
  obtain d where d: "lookup w c = Some (File d)" "f_readonly d = ro" using cf by (auto simp: container_file_def)
  let ?w1 = "w\<lparr>w_tick := Suc (w_tick w)\<rparr>"
  have "was_readonly_on_entry E c w = (ro, ?w1)"
    using nf d by (simp add: was_readonly_on_entry_def metadata_def sysop_runs node_readonly_def)
  moreover have "container_file cr k ?w1 c h rest ro" using cf by simp
  ultimately show ?thesis
    using that container_file_permission [OF nf, of cr k ?w1 c h rest ro False]
    by (cases ro) (simp_all add: entry_state_def)
qed

lemma rearm_runs:
  "no_fail E \<Longrightarrow> container_file cr k w c h rest ro0 \<Longrightarrow>
     container_file cr k (rearm E c ro w) c h rest (ro \<or> ro0)"
  using container_file_permission [of E cr k w c h rest ro0 True] by (simp add: rearm_def)

lemma rewrite_runs:
  assumes nf: "no_fail E" and cf: "container_file cr k w c h0 rest ro" and wf: "wf_header g" and mac: "hmac_len_ok cr"
  obtains w' where "rewrite_header cr E c g k w = (Inr (), w')"
    and "container_file cr k w' c (g\<lparr>hmac_ok := True\<rparr>) rest ro"
proof -
  obtain d hb where d: "lookup w c = Some (File d)" "f_content d = hb @ rest" "length hb = HEADER_LEN"
    "f_readonly d = ro" using cf by (auto simp: container_file_def)
  have len: "length (to_bytes cr k g) = HEADER_LEN" using length_to_bytes [OF wf mac] by (simp add: HEADER_LEN_def)
  let ?w1 = "snd (overwrite_start E c (to_bytes cr k g) w)" and ?w2 = "snd (sync_all E (snd (overwrite_start E c (to_bytes cr k g) w)))"
  have "lookup ?w1 c = Some (File (d\<lparr>f_content := to_bytes cr k g @ rest\<rparr>))"
    using overwrite_outcome [OF d(1,2), of "to_bytes cr k g" E] d(3) len nf by (simp add: no_fail_def)
  then have "lookup ?w2 c = Some (File (d\<lparr>f_content := to_bytes cr k g @ rest\<rparr>))"
    using nf by (simp add: sync_all_def sysop_runs)
  then have cf2: "container_file cr k ?w2 c (g\<lparr>hmac_ok := True\<rparr>) rest ro"
    using len d(4) to_bytes_parses [OF wf mac, of k] by (simp add: container_file_def)
  have "rewrite_header cr E c g k w = (Inr (), ?w2)"
    using nf by (simp add: rewrite_header_def bindE_def mapE_def overwrite_start_def sync_all_def sysop_runs)
  then show ?thesis using cf2 by (rule that)
qed

lemma authorize_opens:
  assumes nf: "no_fail E" and cf: "container_file cr k w c h rest ro"
  obtains w1 where "container_file cr k w1 c h rest False"
    and "open_and_authorize cr E c cred k now w =
       bindE (check_credential cr E c cred k now ro (clamp_foreign h)) (\<lambda>dk.
       bindE (clear_lockout cr E c k (clamp_foreign h)) (\<lambda>h. returnE (rest, h, dk, ro))) w1"
proof -
  obtain w0 where e: "entry_state E c w = (ro, w0)" and c0: "container_file cr k w0 c h rest False"
    using nf cf by (rule entry_state_runs)
  obtain d hb where d: "lookup w0 c = Some (File d)" "f_content d = hb @ rest" "length hb = HEADER_LEN"
    "from_bytes cr k hb = Inr h" "\<not> f_readonly d"
    using c0 by (auto simp: container_file_def)
  let ?w1 = "w0\<lparr>w_tick := Suc (w_tick w0)\<rparr>" and ?w2 = "w0\<lparr>w_tick := Suc (Suc (w_tick w0))\<rparr>"
  have 1: "open_rw E c w0 = (Inr (hb @ rest), ?w1)" using nf d by (simp add: open_rw_def sysop_runs)
  have 2: "read_exact E HEADER_LEN (hb @ rest) ?w1 = (Inr (hb, rest), ?w2)"
    using read_exact_runs [OF nf d(3), of rest ?w1] by simp
  have "open_and_authorize cr E c cred k now w =
       bindE (check_credential cr E c cred k now ro (clamp_foreign h)) (\<lambda>dk.
       bindE (clear_lockout cr E c k (clamp_foreign h)) (\<lambda>h. returnE (rest, h, dk, ro))) ?w2"
    unfolding open_and_authorize_entry e prod.case
    by (simp add: bindE_step(2) [where m = "mapE Io (open_rw E c)", OF mapE_step(2) [where m = "open_rw E c", OF 1]]
        bindE_step(2) [where m = "mapE Io (read_exact E HEADER_LEN (hb @ rest))",
          OF mapE_step(2) [where m = "read_exact E HEADER_LEN (hb @ rest)", OF 2]] d(4))
  moreover have "container_file cr k ?w2 c h rest False" using c0 by simp
  ultimately show ?thesis using that by blast
qed

lemma bail_runs:
  assumes "no_fail E" and "container_file cr k w c h rest False"
  obtains w' where "bail E c ro e w = (Inl e, w')" and "container_file cr k w' c h rest ro"
  using rearm_runs [OF assms, of ro] that by (simp add: bail_def)

lemma clear_lockout_runs:
  assumes nf: "no_fail E" and cf: "container_file cr k w c h0 rest ro" and mac: "hmac_len_ok cr"
    and keys: "same_keys h0 h" and wf: "wf_header h" and h0: "h = clamp_foreign h0"
  obtains w' g where "clear_lockout cr E c k h w = (Inr (h\<lparr>h_lockout := lockout_default\<rparr>), w')"
    and "container_file cr k w' c g rest ro" and "same_keys h0 g" and "h_lockout g = lockout_default" and "hmac_ok g"
proof (cases "h_lockout h \<noteq> lockout_default \<or> \<not> hmac_ok h")
  case True
  obtain w' where "rewrite_header cr E c (h\<lparr>h_lockout := lockout_default\<rparr>) k w = (Inr (), w')"
    and c': "container_file cr k w' c (h\<lparr>h_lockout := lockout_default, hmac_ok := True\<rparr>) rest ro"
    using rewrite_runs [OF nf cf, of "h\<lparr>h_lockout := lockout_default\<rparr>"] wf mac by auto
  then have "clear_lockout cr E c k h w = (Inr (h\<lparr>h_lockout := lockout_default\<rparr>), w')"
    using True by (simp add: clear_lockout_def lockout_reset_def bindE_def Let_def)
  then show ?thesis by (rule that [OF _ c']) (use keys in \<open>simp_all add: same_keys_def\<close>)
next
  case False
  then have h: "h_lockout h = lockout_default" "hmac_ok h" by auto
  then have same: "h0 = h" using h0 by (auto simp: clamp_foreign_def split: if_splits)
  have "h\<lparr>h_lockout := lockout_default\<rparr> = h" using h by (cases h) simp
  then have "clear_lockout cr E c k h w = (Inr (h\<lparr>h_lockout := lockout_default\<rparr>), w)"
    using False by (simp add: clear_lockout_def)
  then show ?thesis using cf h same by (intro that) simp_all
qed

lemma check_credential_runs:
  assumes nf: "no_fail E" and cf: "container_file cr k w c h0 rest False" and mac: "hmac_len_ok cr"
    and keys: "same_keys h0 h" and wf: "wf_header h"
  shows "\<exists>w' g. check_credential cr E c cred k now ro h w = (fst (decide cr cred now h), w')
     \<and> container_file cr k w' c g rest (ro \<and> isl (fst (decide cr cred now h)) \<and> \<not> kdf_refuses cr cred now h)
     \<and> same_keys h0 g
     \<and> (isl (fst (decide cr cred now h)) \<longrightarrow>
          (case snd (decide cr cred now h) of None \<Rightarrow> g = h0 | Some l \<Rightarrow> h_lockout g = l \<and> hmac_ok g))
     \<and> (\<not> isl (fst (decide cr cred now h)) \<longrightarrow> g = h0)"
proof -
  let ?concl = "\<exists>w' g. check_credential cr E c cred k now ro h w = (fst (decide cr cred now h), w')
     \<and> container_file cr k w' c g rest (ro \<and> isl (fst (decide cr cred now h)) \<and> \<not> kdf_refuses cr cred now h)
     \<and> same_keys h0 g
     \<and> (isl (fst (decide cr cred now h)) \<longrightarrow>
          (case snd (decide cr cred now h) of None \<Rightarrow> g = h0 | Some l \<Rightarrow> h_lockout g = l \<and> hmac_ok g))
     \<and> (\<not> isl (fst (decide cr cred now h)) \<longrightarrow> g = h0)"
  have bailed: ?concl if b: "check_credential cr E c cred k now ro h = bail E c ro e"
    "decide cr cred now h = (Inl e, None)" "\<not> kdf_refuses cr cred now h" for e
  proof -
    obtain w' where "(bail E c ro e :: key vio) w = (Inl e, w')" "container_file cr k w' c h0 rest ro"
      using bail_runs [OF nf cf] by metis
    with b show ?thesis by (intro exI [of _ w'] exI [of _ h0]) simp
  qed
  have passed: ?concl if "check_credential cr E c cred k now ro h = returnE dk"
    "decide cr cred now h = (Inr dk, Some lockout_default)" for dk
    using that cf by (intro exI [of _ w] exI [of _ h0]) simp
  show ?thesis
  proof (cases cred)
    case (MasterCode code)
    show ?thesis
    proof (cases "is_enrolled (wrapped_dk_mk h)")
      case True
      show ?thesis
      proof (cases "open_dk cr code (wrapped_dk_mk h)")
        case None
        with MasterCode True show ?thesis
          by (intro bailed) (simp_all add: check_credential_def decide_def kdf_refuses_def)
      next
        case (Some dk)
        with MasterCode True show ?thesis
          by (intro passed) (simp_all add: check_credential_def decide_def)
      qed
    next
      case False
      with MasterCode show ?thesis
        by (intro bailed) (auto simp: check_credential_def decide_def kdf_refuses_def)
    qed
  next
    case (Password pw)
    show ?thesis
    proof (cases "lockout_check (h_lockout h) now")
      case (Inl e)
      with Password show ?thesis
        by (intro bailed) (simp_all add: check_credential_def decide_def kdf_refuses_def)
    next
      case (Inr u)
      show ?thesis
      proof (cases "derive_kek cr pw (h_salt h) (h_kdf h)")
        case (Inl e)
        with Password Inr cf show ?thesis
          by (intro exI [of _ w] exI [of _ h0]) (simp add: check_credential_def decide_def kdf_refuses_def)
      next
        case kek: (Inr kek)
        show ?thesis
        proof (cases "unwrap_key cr kek (wrapped_dk_pw h)")
          case (Some dk)
          with Password Inr kek show ?thesis
            by (intro passed) (simp_all add: check_credential_def decide_def fun_eq_iff)
        next
          case None
          define l where "l = snd (record_failure (h_lockout h) now)"
          define err where "err = fst (record_failure (h_lockout h) now)"
          obtain w1 where w1: "rewrite_header cr E c (h\<lparr>h_lockout := l\<rparr>) k w = (Inr (), w1)"
            and c1: "container_file cr k w1 c (h\<lparr>h_lockout := l, hmac_ok := True\<rparr>) rest False"
            using rewrite_runs [OF nf cf, of "h\<lparr>h_lockout := l\<rparr>"] wf mac by auto
          obtain w2 where w2: "(bail E c ro err :: key vio) w1 = (Inl err, w2)"
            "container_file cr k w2 c (h\<lparr>h_lockout := l, hmac_ok := True\<rparr>) rest ro"
            using bail_runs [OF nf c1] by metis
          have "check_credential cr E c cred k now ro h w = (Inl err, w2)"
            using Password Inr kek None w1 w2(1)
            by (simp add: check_credential_def case_prod_unfold l_def err_def bindE_def Let_def)
          moreover have "decide cr cred now h = (Inl err, Some l)" "\<not> kdf_refuses cr cred now h"
            using Password Inr kek None by (simp_all add: decide_def kdf_refuses_def l_def err_def)
          moreover have "same_keys h0 (h\<lparr>h_lockout := l, hmac_ok := True\<rparr>)"
            using keys by (simp add: same_keys_def)
          ultimately show ?thesis using w2(2) by (intro exI [of _ w2] exI [of _ "h\<lparr>h_lockout := l, hmac_ok := True\<rparr>"]) simp
        qed
      qed
    qed
  qed
qed

lemma authorize_runs:
  assumes nf: "no_fail E" and cf: "container_file cr k w c h0 rest ro" and mac: "hmac_len_ok cr"
  defines "h \<equiv> clamp_foreign h0"
  obtains w' g where "open_and_authorize cr E c cred k now w =
        (case fst (decide cr cred now h) of
           Inl e \<Rightarrow> Inl e | Inr dk \<Rightarrow> Inr (rest, h\<lparr>h_lockout := lockout_default\<rparr>, dk, ro), w')"
    and "container_file cr k w' c g rest (ro \<and> isl (fst (decide cr cred now h)) \<and> \<not> kdf_refuses cr cred now h)"
    and "same_keys h0 g"
    and "case snd (decide cr cred now h) of None \<Rightarrow> g = h0 | Some l \<Rightarrow> h_lockout g = l \<and> hmac_ok g"
proof -
  let ?r = "fst (decide cr cred now h)" and ?l = "snd (decide cr cred now h)"
  obtain w1 where c1: "container_file cr k w1 c h0 rest False"
    and eq: "open_and_authorize cr E c cred k now w =
       bindE (check_credential cr E c cred k now ro h) (\<lambda>dk.
       bindE (clear_lockout cr E c k h) (\<lambda>h. returnE (rest, h, dk, ro))) w1"
    using authorize_opens [OF nf cf] unfolding h_def by blast
  obtain hb where "from_bytes cr k hb = Inr h0" "length hb = 268"
    using cf by (auto simp: container_file_def HEADER_LEN_def)
  then have wf: "wf_header h" using from_bytes_wf by (simp add: h_def)
  have keys: "same_keys h0 h" by (simp add: h_def)
  obtain w2 g where cc: "check_credential cr E c cred k now ro h w1 = (?r, w2)"
    and c2: "container_file cr k w2 c g rest (ro \<and> isl ?r \<and> \<not> kdf_refuses cr cred now h)" "same_keys h0 g"
    and err: "isl ?r \<longrightarrow> (case ?l of None \<Rightarrow> g = h0 | Some l \<Rightarrow> h_lockout g = l \<and> hmac_ok g)"
    and ok: "\<not> isl ?r \<longrightarrow> g = h0"
    using check_credential_runs [OF nf c1 mac keys wf, of cred now ro] by blast
  show ?thesis
  proof (cases ?r)
    case (Inl e)
    with eq cc err c2 show ?thesis by (intro that [of w2 g]) (simp_all add: bindE_def)
  next
    case (Inr dk)
    with c2 ok have c2': "container_file cr k w2 c h0 rest False" by simp
    obtain w3 g' where 3: "clear_lockout cr E c k h w2 = (Inr (h\<lparr>h_lockout := lockout_default\<rparr>), w3)"
      "container_file cr k w3 c g' rest False" "same_keys h0 g'" "h_lockout g' = lockout_default" "hmac_ok g'"
      using clear_lockout_runs [OF nf c2' mac keys wf h_def [THEN meta_eq_to_obj_eq]] by blast
    have "?l = Some lockout_default"
      using Inr by (auto simp: decide_def split: credential.splits sum.splits option.splits if_splits)
    with Inr eq cc 3 show ?thesis by (intro that [of w3 g']) (simp_all add: bindE_def)
  qed
qed

text \<open>A success, under whatever I/O errors, means that the credential is right for the header.\<close>

definition keeps_block :: "crypto \<Rightarrow> byte list \<Rightarrow> path \<Rightarrow> header \<Rightarrow> byte list \<Rightarrow> world \<Rightarrow> world \<Rightarrow> bool" where
  "keeps_block cr k c h rest w w' \<longleftrightarrow>
     ((\<exists>ro. container_file cr k w c h rest ro) \<longrightarrow> (\<exists>ro. container_file cr k w' c h rest ro))"

lemma keeps_block_preorder: "preorderS (keeps_block cr k c h rest)"
  by (auto simp: preorderS_def keeps_block_def)

lemma set_readonly_keeps_block: "keeps (keeps_block cr k c h rest) (set_readonly E p ro)"
proof -
  have "keeps (keeps_block cr k c h rest) (metadata E p)"
    using reading_touches(2) [of "\<lambda>_. False" E p]
    unfolding keeps_def keeps_block_def changes_only_def container_file_def by simp
  moreover have "keeps (keeps_block cr k c h rest) (set_permissions E p ro)"
    by (rule keepsI) (auto simp: keeps_block_def set_permissions_def sysop_def Let_def unspoiled_def
        container_file_def lookup_put_file)
  ultimately show ?thesis
    unfolding set_readonly_def by (intro keeps_bindE keeps_block_preorder)
qed

lemma entry_state_keeps_block:
  assumes "container_file cr k w c h rest ro"
  shows "\<exists>ro'. container_file cr k (snd (entry_state E c w)) c h rest ro'"
proof -
  obtain r w1 where e: "was_readonly_on_entry E c w = (r, w1)" by fastforce
  have "w1 = snd (metadata E c w)"
    using e by (auto simp: was_readonly_on_entry_def split: prod.splits sum.splits)
  then have "container_file cr k w1 c h rest ro"
    using assms reading_touches(2) [of "\<lambda>_. False" E c]
    by (simp add: container_file_def changes_only_def keeps_def)
  then show ?thesis
    using e set_readonly_keeps_block [of cr k c h rest E c False]
    unfolding entry_state_def keeps_def keeps_block_def by auto
qed

lemma authorize_Inr:
  assumes cf: "container_file cr k w c h0 rest ro"
    and ok: "open_and_authorize cr E c cred k now w = (Inr (rest', h, dk, ro'), w')"
  shows "rest' = rest \<and> h = (clamp_foreign h0)\<lparr>h_lockout := lockout_default\<rparr>
    \<and> fst (decide cr cred now (clamp_foreign h0)) = Inr dk"
proof -
  obtain r w1 where e: "entry_state E c w = (r, w1)" by fastforce
  obtain ro1 where c1: "container_file cr k w1 c h0 rest ro1"
    using entry_state_keeps_block [OF cf, of E] e by auto
  then obtain d hb where d: "lookup w1 c = Some (File d)" "f_content d = hb @ rest" "length hb = HEADER_LEN"
    "from_bytes cr k hb = Inr h0" by (auto simp: container_file_def)
  from ok obtain f w2 hb' rest2 w3 g w4 h2 where op: "open_rw E c w1 = (Inr f, w2)"
    and rd: "read_exact E HEADER_LEN f w2 = (Inr (hb', rest2), w3)" and g: "from_bytes cr k hb' = Inr g"
    and cc: "check_credential cr E c cred k now r (clamp_foreign g) w3 = (Inr dk, w4)"
    and cl: "clear_lockout cr E c k (clamp_foreign g) w4 = (Inr h, w')" and eq: "rest' = rest2"
    unfolding open_and_authorize_entry e prod.case
    by (auto simp: bindE_Inr_iff mapE_Inr_iff)
  have f: "f = hb @ rest" using open_rw_Inr [OF op] d by auto
  then have hb: "hb' = hb" "rest2 = rest" using read_exact_Inr [OF rd] d(3) by (metis append_eq_append_conv)+
  with g d(4) have g: "g = h0" by simp
  have "fst (decide cr cred now (clamp_foreign h0)) = Inr dk"
    using cc unfolding g
    by (auto simp: check_credential_def decide_def bindE_Inr_iff bail_def case_prod_unfold Let_def
        split: credential.splits sum.splits option.splits if_splits)
  moreover have "h = (clamp_foreign h0)\<lparr>h_lockout := lockout_default\<rparr>"
  proof (cases "h_lockout (clamp_foreign h0) \<noteq> lockout_default \<or> \<not> hmac_ok (clamp_foreign h0)")
    case True
    with cl show ?thesis unfolding g by (auto simp: clear_lockout_def lockout_reset_def bindE_Inr_iff Let_def)
  next
    case False
    with cl have "h = clamp_foreign h0" "h_lockout (clamp_foreign h0) = lockout_default"
      unfolding g by (auto simp: clear_lockout_def)
    then show ?thesis by (cases "clamp_foreign h0") simp
  qed
  ultimately show ?thesis using eq hb by simp
qed

text \<open>A concrete container: the sample header under the key \<open>[9]\<close> with a one-byte payload.\<close>

definition sample_disk :: world where
  "sample_disk = container_world (to_bytes toy_crypto [9] sample_header @ [5])"

lemma sample_disk_file:
  "container_file toy_crypto k sample_disk [''c'']
     (sample_header\<lparr>hmac_ok := (hmac_sha256 toy_crypto [9] (header_fields sample_header)
        = hmac_sha256 toy_crypto k (header_fields sample_header))\<rparr>) [5] False"
proof -
  have "from_bytes toy_crypto k (to_bytes toy_crypto [9] sample_header) =
      Inr (sample_header\<lparr>hmac_ok := (hmac_sha256 toy_crypto [9] (header_fields sample_header)
        = hmac_sha256 toy_crypto k (header_fields sample_header))\<rparr>)"
    unfolding to_bytes_eq [OF wf_sample_header toy_hmac_len]
    by (rule from_bytes_fields) (simp_all add: toy_hmac_len [unfolded hmac_len_ok_def])
  then show ?thesis
    by (simp add: container_file_def sample_disk_def length_to_bytes HEADER_LEN_def)
qed

lemma sample_disk_own: "container_file toy_crypto [9] sample_disk [''c''] sample_header [5] False"
proof -
  have "sample_header\<lparr>hmac_ok := True\<rparr> = sample_header" by (simp add: sample_header_def)
  then show ?thesis using sample_disk_file [of "[9]"] by simp
qed

lemma sample_disk_foreign: "container_file toy_crypto [8] sample_disk [''c''] (sample_header\<lparr>hmac_ok := False\<rparr>) [5] False"
proof -
  have "hmac_sha256 toy_crypto [9] m \<noteq> hmac_sha256 toy_crypto [8] m" for m
    by (simp add: toy_crypto_def toy_pad_def numeral_eq_Suc)
  then show ?thesis using sample_disk_file [of "[8]"] by simp
qed

lemma sample_wrong:
  "derive_kek toy_crypto pw salt kdf_default = Inr (toy_pad 32 pw)"
  "unwrap_key toy_crypto kek (replicate 60 3) = None"
proof -
  show "derive_kek toy_crypto pw salt kdf_default = Inr (toy_pad 32 pw)"
    by (simp add: derive_kek_def toy_crypto_def)
  have "last (toy_tag k n []) = 0" for k n
    by (simp add: toy_tag_def toy_pad_def numeral_eq_Suc)
  moreover have "last (replicate 16 (3::byte)) = 3" by simp
  moreover have "(3::byte) \<noteq> 0" by simp
  ultimately have "replicate 16 (3::byte) \<noteq> toy_tag k n []" for k n
    by metis
  then show "unwrap_key toy_crypto kek (replicate 60 3) = None"
    by (simp add: unwrap_key_def toy_crypto_def len_defs)
qed

section \<open>Properties\<close>

text \<open>
  C23: A check of a credential against a container does exactly what the specification
  \<open>decide\<close> says of its header, on a file system that reports no error: the result is the decided
  error or the data key; the lockout state found on disk afterwards is the decided one,
  authenticated by this install's key, or the header is untouched; identifiers, salt, wrapped
  keys, counts and the payload are as before; the read-only guard is lifted after a success and
  restored after a failure, except when the key derivation itself was refused.
\<close>

theorem authorize_decides:
  assumes "no_fail E" and "container_file cr k w c h0 rest ro" and "hmac_len_ok cr"
  shows "let d = decide cr cred now (clamp_foreign h0) in
    fst (open_and_authorize cr E c cred k now w) =
        (case fst d of Inl e \<Rightarrow> Inl e
         | Inr dk \<Rightarrow> Inr (rest, (clamp_foreign h0)\<lparr>h_lockout := lockout_default\<rparr>, dk, ro))
    \<and> (\<exists>g. container_file cr k (snd (open_and_authorize cr E c cred k now w)) c g rest
            (ro \<and> isl (fst d) \<and> \<not> kdf_refuses cr cred now (clamp_foreign h0))
          \<and> same_keys h0 g
          \<and> (case snd d of None \<Rightarrow> g = h0 | Some l \<Rightarrow> h_lockout g = l \<and> hmac_ok g))"
  using authorize_runs [OF assms(1-3), of cred now] unfolding Let_def by (metis fst_conv snd_conv)

theorem authorize_decides_witness:
  "fst (open_and_authorize toy_crypto calm [''c''] (Password [1]) [9] 50 sample_disk) = Inl (WrongPassword 2)
   \<and> (\<exists>g. container_file toy_crypto [9]
          (snd (open_and_authorize toy_crypto calm [''c''] (Password [1]) [9] 50 sample_disk)) [''c''] g [5] False
        \<and> h_lockout g = \<lparr>fail_count = 1, locked_until = 0\<rparr>)"
proof -
  have h: "clamp_foreign sample_header = sample_header" "h_lockout sample_header = \<lparr>fail_count = 2, locked_until = 42\<rparr>"
    "h_kdf sample_header = kdf_default" "wrapped_dk_pw sample_header = replicate 60 3"
    by (simp_all add: sample_header_def clamp_foreign_def)
  have "record_failure \<lparr>fail_count = 2, locked_until = 42\<rparr> 50 =
      (WrongPassword 2, \<lparr>fail_count = 1, locked_until = 0\<rparr>)"
    by (simp add: record_failure_def MAX_ATTEMPTS_def Let_def word_le_nat_alt)
  moreover have "lockout_check \<lparr>fail_count = 2, locked_until = 42\<rparr> 50 = Inr ()"
    by (simp add: lockout_check_def word_less_nat_alt)
  ultimately have "decide toy_crypto (Password [1]) 50 (clamp_foreign sample_header) =
      (Inl (WrongPassword 2), Some \<lparr>fail_count = 1, locked_until = 0\<rparr>)"
    by (simp add: decide_def h sample_wrong)
  then show ?thesis
    using authorize_decides [OF no_fail_calm sample_disk_own toy_hmac_len, of "Password [1]" 50] by auto
qed

text \<open>
  C24: No crash and no I/O error during a check can lose a container: whatever calls fail and
  wherever the in-place rewrite of the header is interrupted, the file still has a header that
  parses, with the same identifier, salt, KDF parameters and wrapped keys, followed by the same
  payload.
\<close>

theorem authorize_never_damages:
  assumes "container_file cr k w c h rest ro" and "hmac_len_ok cr"
  shows "\<exists>g ro'. container_file cr k (snd (open_and_authorize cr E c cred k now w)) c g rest ro' \<and> same_keys h g"
  using authorize_keeps_keys [OF assms] by (simp add: keys_on_disk_def)

theorem authorize_never_damages_witness:
  "\<exists>g ro'. container_file toy_crypto [9]
      (snd (open_and_authorize toy_crypto (calm\<lparr>os_fails := (\<lambda>n. n = 3), os_torn := (\<lambda>_. 206)\<rparr>) [''c'']
         (Password [1]) [9] 50 sample_disk)) [''c''] g [5] ro' \<and> wrapped_dk_pw g = replicate 60 3"
proof -
  have "wrapped_dk_pw sample_header = replicate 60 3" by (simp add: sample_header_def)
  then show ?thesis
    using authorize_never_damages [OF sample_disk_own toy_hmac_len, of
        "calm\<lparr>os_fails := (\<lambda>n. n = 3), os_torn := (\<lambda>_. 206)\<rparr>" "Password [1]" 50]
    by (auto simp: same_keys_def)
qed

text \<open>
  A password that is wrong for a header, and trying several one after the other, each in a run
  of its own. \<open>header_left\<close> says what is found on disk afterwards: the keys of \<open>h\<close>, the
  lockout state \<open>l\<close>, authenticated by this install.
\<close>

definition wrong_for :: "crypto \<Rightarrow> header \<Rightarrow> byte list \<Rightarrow> bool" where
  "wrong_for cr h pw \<longleftrightarrow>
     (\<exists>kek. derive_kek cr pw (h_salt h) (h_kdf h) = Inr kek \<and> unwrap_key cr kek (wrapped_dk_pw h) = None)"

definition try_passwords ::
  "crypto \<Rightarrow> os \<Rightarrow> path \<Rightarrow> byte list \<Rightarrow> (byte list \<times> u64) list \<Rightarrow> world \<Rightarrow> world" where
  "try_passwords cr E c k tries w =
     fold (\<lambda>(pw, now) w. snd (open_and_authorize cr E c (Password pw) k now w)) tries w"

definition header_left ::
  "crypto \<Rightarrow> byte list \<Rightarrow> path \<Rightarrow> byte list \<Rightarrow> header \<Rightarrow> lockout_state \<Rightarrow> bool \<Rightarrow> world \<Rightarrow> bool" where
  "header_left cr k c rest h l ro w \<longleftrightarrow>
     (\<exists>g. container_file cr k w c g rest ro \<and> same_keys h g \<and> hmac_ok g \<and> h_lockout g = l)"

lemma wrong_for_cong: "same_keys h g \<Longrightarrow> wrong_for cr g pw = wrong_for cr h pw"
  by (simp add: wrong_for_def same_keys_def)

lemma password_opens_cong: "same_keys h g \<Longrightarrow> password_opens cr pw g dk = password_opens cr pw h dk"
  by (simp add: password_opens_def same_keys_def)

lemma clamp_foreign_until [simp]: "locked_until (h_lockout (clamp_foreign h)) = locked_until (h_lockout h)"
  by (simp add: clamp_foreign_def)

lemma refused_attempt:
  assumes nf: "no_fail E" and mac: "hmac_len_ok cr" and cf: "container_file cr k w c h rest ro"
    and early: "now < locked_until (h_lockout h)"
  shows "fst (open_and_authorize cr E c (Password pw) k now w) = Inl (LockedOut (locked_until (h_lockout h)))"
    and "container_file cr k (snd (open_and_authorize cr E c (Password pw) k now w)) c h rest ro"
proof -
  have chk: "lockout_check (h_lockout (clamp_foreign h)) now = Inl (LockedOut (locked_until (h_lockout h)))"
    using early by (auto simp: lockout_check_def)
  then have "decide cr (Password pw) now (clamp_foreign h) = (Inl (LockedOut (locked_until (h_lockout h))), None)"
    and "\<not> kdf_refuses cr (Password pw) now (clamp_foreign h)"
    by (simp_all add: decide_def kdf_refuses_def)
  note d = this
  show "fst (open_and_authorize cr E c (Password pw) k now w) = Inl (LockedOut (locked_until (h_lockout h)))"
    by (rule authorize_runs [OF nf cf mac, of "Password pw" now]) (simp add: d)
  show "container_file cr k (snd (open_and_authorize cr E c (Password pw) k now w)) c h rest ro"
    by (rule authorize_runs [OF nf cf mac, of "Password pw" now]) (simp add: d)
qed

lemma wrong_attempt_runs:
  assumes nf: "no_fail E" and mac: "hmac_len_ok cr" and cf: "container_file cr k w c h rest ro"
    and adm: "locked_until (h_lockout h) \<le> now" and wr: "wrong_for cr h pw"
  shows "fst (open_and_authorize cr E c (Password pw) k now w) =
      Inl (fst (record_failure (h_lockout (clamp_foreign h)) now))"
    and "header_left cr k c rest h (snd (record_failure (h_lockout (clamp_foreign h)) now)) ro
      (snd (open_and_authorize cr E c (Password pw) k now w))"
proof -
  let ?s = "h_lockout (clamp_foreign h)"
  have chk: "lockout_check ?s now = Inr ()" using adm by (auto simp: lockout_check_def)
  have "wrong_for cr (clamp_foreign h) pw" using wr wrong_for_cong [OF clamp_foreign_keys(1)] by metis
  then have d: "decide cr (Password pw) now (clamp_foreign h) =
      (Inl (fst (record_failure ?s now)), Some (snd (record_failure ?s now)))"
    and nk: "\<not> kdf_refuses cr (Password pw) now (clamp_foreign h)"
    using chk by (auto simp: decide_def kdf_refuses_def wrong_for_def)
  show "fst (open_and_authorize cr E c (Password pw) k now w) = Inl (fst (record_failure ?s now))"
    by (rule authorize_runs [OF nf cf mac, of "Password pw" now]) (simp add: d)
  show "header_left cr k c rest h (snd (record_failure ?s now)) ro (snd (open_and_authorize cr E c (Password pw) k now w))"
    by (rule authorize_runs [OF nf cf mac, of "Password pw" now]) (auto simp: d nk header_left_def)
qed

lemma right_attempt_runs:
  assumes nf: "no_fail E" and mac: "hmac_len_ok cr" and cf: "container_file cr k w c h rest ro"
    and adm: "locked_until (h_lockout h) \<le> now" and rt: "password_opens cr pw h dk"
  shows "fst (open_and_authorize cr E c (Password pw) k now w) =
      Inr (rest, (clamp_foreign h)\<lparr>h_lockout := lockout_default\<rparr>, dk, ro)"
    and "header_left cr k c rest h lockout_default False
      (snd (open_and_authorize cr E c (Password pw) k now w))"
proof -
  let ?s = "h_lockout (clamp_foreign h)"
  have chk: "lockout_check ?s now = Inr ()" using adm by (auto simp: lockout_check_def)
  have "password_opens cr pw (clamp_foreign h) dk" using rt password_opens_cong [OF clamp_foreign_keys(1)] by metis
  then have d: "decide cr (Password pw) now (clamp_foreign h) = (Inr dk, Some lockout_default)"
    using chk by (auto simp: decide_def password_opens_def)
  show "fst (open_and_authorize cr E c (Password pw) k now w) =
      Inr (rest, (clamp_foreign h)\<lparr>h_lockout := lockout_default\<rparr>, dk, ro)"
    by (rule authorize_runs [OF nf cf mac, of "Password pw" now]) (simp add: d)
  show "header_left cr k c rest h lockout_default False (snd (open_and_authorize cr E c (Password pw) k now w))"
    by (rule authorize_runs [OF nf cf mac, of "Password pw" now]) (auto simp: d header_left_def)
qed

text \<open>An attempt on a header of this install, in terms of the state left on disk.\<close>

lemma left_wrong:
  assumes nf: "no_fail E" and mac: "hmac_len_ok cr" and left: "header_left cr k c rest h l ro w"
    and adm: "locked_until l \<le> now" and wr: "wrong_for cr h pw"
  shows "fst (open_and_authorize cr E c (Password pw) k now w) = Inl (fst (record_failure l now))"
    and "header_left cr k c rest h (snd (record_failure l now)) ro (snd (open_and_authorize cr E c (Password pw) k now w))"
proof -
  obtain g where g: "container_file cr k w c g rest ro" "same_keys h g" "hmac_ok g" "h_lockout g = l"
    using left by (auto simp: header_left_def)
  have own: "clamp_foreign g = g" using g(3) by (simp add: clamp_foreign_def)
  have "wrong_for cr g pw" using wr wrong_for_cong [OF g(2)] by simp
  note run = wrong_attempt_runs [OF nf mac g(1) _ this, of now, unfolded own g(4), OF adm]
  from run(1) show "fst (open_and_authorize cr E c (Password pw) k now w) = Inl (fst (record_failure l now))" .
  from run(2) show "header_left cr k c rest h (snd (record_failure l now)) ro (snd (open_and_authorize cr E c (Password pw) k now w))"
    using g(2) by (auto simp: header_left_def intro: same_keys_trans)
qed

lemma left_right:
  assumes nf: "no_fail E" and mac: "hmac_len_ok cr" and left: "header_left cr k c rest h l ro w"
    and adm: "locked_until l \<le> now" and rt: "password_opens cr pw h dk"
  shows "\<exists>g. fst (open_and_authorize cr E c (Password pw) k now w) = Inr (rest, g, dk, ro)"
proof -
  obtain g where g: "container_file cr k w c g rest ro" "same_keys h g" "h_lockout g = l"
    using left by (auto simp: header_left_def)
  have "password_opens cr pw g dk" using rt password_opens_cong [OF g(2)] by simp
  from right_attempt_runs(1) [OF nf mac g(1) _ this, of now] adm g(3) show ?thesis by simp
qed

lemma left_refused:
  assumes nf: "no_fail E" and mac: "hmac_len_ok cr" and left: "header_left cr k c rest h l ro w"
    and early: "now < locked_until l"
  shows "fst (open_and_authorize cr E c (Password pw) k now w) = Inl (LockedOut (locked_until l))"
    and "header_left cr k c rest h l ro (snd (open_and_authorize cr E c (Password pw) k now w))"
proof -
  obtain g where g: "container_file cr k w c g rest ro" "same_keys h g" "hmac_ok g" "h_lockout g = l"
    using left by (auto simp: header_left_def)
  note run = refused_attempt [OF nf mac g(1), of now pw, unfolded g(4), OF early]
  from run(1) show "fst (open_and_authorize cr E c (Password pw) k now w) = Inl (LockedOut (locked_until l))" .
  from run(2) g show "header_left cr k c rest h l ro (snd (open_and_authorize cr E c (Password pw) k now w))"
    by (auto simp: header_left_def)
qed

lemma left_through:
  assumes nf: "no_fail E" and mac: "hmac_len_ok cr"
  shows "header_left cr k c rest h l ro w \<Longrightarrow> list_all (\<lambda>(_, t). t < locked_until l) tries \<Longrightarrow>
    header_left cr k c rest h l ro (try_passwords cr E c k tries w)"
proof (induction tries arbitrary: w)
  case Nil
  then show ?case by (simp add: try_passwords_def)
next
  case (Cons x tries)
  obtain pw t where x: "x = (pw, t)" by fastforce
  have "header_left cr k c rest h l ro (snd (open_and_authorize cr E c (Password pw) k t w))"
    using left_refused(2) [OF nf mac Cons.prems(1), of t pw] Cons.prems(2) x by simp
  from Cons.IH [OF this] Cons.prems(2) x show ?case by (simp add: try_passwords_def)
qed

text \<open>
  C6: Three wrong passwords lock a container for 24 hours, in its header on disk and not in the
  process. Starting from cleared counters, with each attempt a run of its own: the answers are
  two attempts left, one attempt left, locked until 86400 seconds after the third. The header
  then holds the count 3 and that time, authenticated, with the keys it had. However many
  passwords are tried before that time, this state stays, and every further password - the right
  one too - is refused with that time. From that time on a password is tried again: the right
  one opens the container, and a wrong one is the first of three.
\<close>

theorem lockout_persists:
  assumes "no_fail E" and "hmac_len_ok cr" and "container_file cr k w c h rest ro" and "hmac_ok h"
    and "fail_count (h_lockout h) = 0" and "locked_until (h_lockout h) = 0"
    and "wrong_for cr h p1" and "wrong_for cr h p2" and "wrong_for cr h p3" and "clock_ok t3"
    and "(r1, w1) = open_and_authorize cr E c (Password p1) k t1 w"
    and "(r2, w2) = open_and_authorize cr E c (Password p2) k t2 w1"
    and "(r3, w3) = open_and_authorize cr E c (Password p3) k t3 w2"
  shows "r1 = Inl (WrongPassword 2) \<and> r2 = Inl (WrongPassword 1) \<and> r3 = Inl (LockedOut (t3 + 86400))
    \<and> (\<forall>tries pw t. list_all (\<lambda>(_, s). s < t3 + 86400) tries \<longrightarrow>
         (let later = try_passwords cr E c k tries w3;
              answer = fst (open_and_authorize cr E c (Password pw) k t later)
          in header_left cr k c rest h \<lparr>fail_count = 3, locked_until = t3 + 86400\<rparr> ro later
           \<and> (t < t3 + 86400 \<longrightarrow> answer = Inl (LockedOut (t3 + 86400)))
           \<and> (t3 + 86400 \<le> t \<and> wrong_for cr h pw \<longrightarrow> answer = Inl (WrongPassword 2))
           \<and> (\<forall>dk. t3 + 86400 \<le> t \<and> password_opens cr pw h dk \<longrightarrow> (\<exists>g. answer = Inr (rest, g, dk, ro)))))"
proof -
  note nf = assms(1) and mac = assms(2)
  define t' where "t' = t3 + 86400"
  have nz: "t' \<noteq> 0" using clock_ok_add(2) [OF assms(10)] by (simp add: t'_def LOCKOUT_SECS_def)
  have zero: "h_lockout h = \<lparr>fail_count = 0, locked_until = 0\<rparr>" using assms(5,6) by (cases "h_lockout h") simp
  have "same_keys h h" by (simp add: same_keys_def)
  then have l0: "header_left cr k c rest h \<lparr>fail_count = 0, locked_until = 0\<rparr> ro w"
    using assms(3,4) zero by (auto simp: header_left_def)
  have run: "r1 = fst (open_and_authorize cr E c (Password p1) k t1 w)"
    "w1 = snd (open_and_authorize cr E c (Password p1) k t1 w)"
    "r2 = fst (open_and_authorize cr E c (Password p2) k t2 w1)"
    "w2 = snd (open_and_authorize cr E c (Password p2) k t2 w1)"
    "r3 = fst (open_and_authorize cr E c (Password p3) k t3 w2)"
    "w3 = snd (open_and_authorize cr E c (Password p3) k t3 w2)"
    using assms(11-13) by (metis fst_conv snd_conv)+
  have a1: "r1 = Inl (WrongPassword 2)" and l1: "header_left cr k c rest h \<lparr>fail_count = 1, locked_until = 0\<rparr> ro w1"
    using left_wrong [OF nf mac l0 _ assms(7), of t1] by (simp_all add: run(1,2) record_failure_fresh)
  have a2: "r2 = Inl (WrongPassword 1)" and l2: "header_left cr k c rest h \<lparr>fail_count = 2, locked_until = 0\<rparr> ro w2"
    using left_wrong [OF nf mac l1 _ assms(8), of t2] by (simp_all add: run(3,4) record_failure_second)
  have a3: "r3 = Inl (LockedOut t')" and l3: "header_left cr k c rest h \<lparr>fail_count = 3, locked_until = t'\<rparr> ro w3"
    using left_wrong [OF nf mac l2 _ assms(9), of t3]
    by (simp_all add: run(5,6) record_failure_third t'_def LOCKOUT_SECS_def)
  have "let later = try_passwords cr E c k tries w3;
            answer = fst (open_and_authorize cr E c (Password pw) k t later)
        in header_left cr k c rest h \<lparr>fail_count = 3, locked_until = t'\<rparr> ro later
           \<and> (t < t' \<longrightarrow> answer = Inl (LockedOut t'))
           \<and> (t' \<le> t \<and> wrong_for cr h pw \<longrightarrow> answer = Inl (WrongPassword 2))
           \<and> (\<forall>dk. t' \<le> t \<and> password_opens cr pw h dk \<longrightarrow> (\<exists>g. answer = Inr (rest, g, dk, ro)))"
    if tries: "list_all (\<lambda>(_, s). s < t') tries" for tries pw t
  proof -
    have l4: "header_left cr k c rest h \<lparr>fail_count = 3, locked_until = t'\<rparr> ro (try_passwords cr E c k tries w3)"
      using left_through [OF nf mac l3] tries by simp
    from left_refused(1) [OF nf mac l4, of t pw] left_wrong(1) [OF nf mac l4, of t pw]
      left_right [OF nf mac l4, of t pw] nz l4
    show ?thesis by (auto simp: Let_def record_failure_expired)
  qed
  then show ?thesis using a1 a2 a3 unfolding t'_def by blast
qed

lemma sample_wrong_for: "wrong_for toy_crypto sample_header pw"
  by (simp add: wrong_for_def sample_header_def sample_wrong)

text \<open>The sample container with cleared counters and a password slot that opens under \<open>[1]\<close>.\<close>

definition fresh_header :: header where
  "fresh_header = sample_header\<lparr>h_lockout := lockout_default,
     wrapped_dk_pw := fst (wrap_key toy_crypto (toy_pad 32 [1]) (replicate 32 7) (\<lambda>i. 1))\<rparr>"

definition fresh_disk :: world where
  "fresh_disk = container_world (to_bytes toy_crypto [9] fresh_header @ [5])"

lemma fresh_disk_file: "container_file toy_crypto [9] fresh_disk [''c''] fresh_header [5] False"
proof -
  have wf: "wf_header fresh_header"
    using wf_sample_header length_wrap_key [OF toy_crypto_laws, of "replicate 32 7"]
    by (simp add: fresh_header_def wf_header_def)
  have "fresh_header\<lparr>hmac_ok := True\<rparr> = fresh_header" by (simp add: fresh_header_def sample_header_def)
  then show ?thesis
    using to_bytes_parses [OF wf toy_hmac_len, of "[9]"] length_to_bytes [OF wf toy_hmac_len]
    by (simp add: container_file_def fresh_disk_def HEADER_LEN_def)
qed

lemma fresh_passwords:
  "wrong_for toy_crypto fresh_header [2]" "wrong_for toy_crypto fresh_header [3]" "wrong_for toy_crypto fresh_header [4]"
  "password_opens toy_crypto [1] fresh_header (replicate 32 7)"
proof -
  have slot: "wrapped_dk_pw fresh_header = fst (wrap_key toy_crypto (toy_pad 32 [1]) (replicate 32 7) (\<lambda>i. 1))"
    "h_kdf fresh_header = kdf_default"
    by (simp_all add: fresh_header_def sample_header_def)
  have kek: "derive_kek toy_crypto pw salt kdf_default = Inr (toy_pad 32 pw)" for pw salt
    by (rule sample_wrong)
  show "password_opens toy_crypto [1] fresh_header (replicate 32 7)"
    by (simp add: password_opens_def slot kek unwrap_wrap_key)
  have "wrong_for toy_crypto fresh_header [p]" if "p \<noteq> 1" for p
  proof -
    have "hd (toy_tag (toy_pad 32 [q]) n []) = q" for q n
      by (simp add: toy_tag_def toy_pad_def)
    then have tags: "toy_tag (toy_pad 32 [1]) n [] \<noteq> toy_tag (toy_pad 32 [p]) n []" for n
      using that by metis
    have "wrapped_dk_pw fresh_header = replicate 12 1 @ replicate 32 7 @ toy_tag (toy_pad 32 [1]) (replicate 12 1) []"
      unfolding slot(1) by (simp add: wrap_key_eq map_replicate_const) (simp add: toy_crypto_def)
    then have "unwrap_key toy_crypto (toy_pad 32 [p]) (wrapped_dk_pw fresh_header) = None"
      using tags by (simp add: unwrap_key_def len_defs sub_bytes_def) (simp add: toy_crypto_def)
    then show ?thesis by (simp add: wrong_for_def slot kek)
  qed
  from this [of 2] this [of 3] this [of 4]
  show "wrong_for toy_crypto fresh_header [2]" "wrong_for toy_crypto fresh_header [3]" "wrong_for toy_crypto fresh_header [4]"
    by simp_all
qed

theorem lockout_persists_witness:
  "let w3 = try_passwords toy_crypto calm [''c''] [9] [([2], 1000), ([3], 1010), ([4], 1020)] fresh_disk
   in fst (open_and_authorize toy_crypto calm [''c''] (Password [1]) [9] 87419 w3) = Inl (LockedOut 87420)
    \<and> (\<exists>g. fst (open_and_authorize toy_crypto calm [''c''] (Password [1]) [9] 87420 w3) =
           Inr ([5], g, replicate 32 7, False))
    \<and> fst (open_and_authorize toy_crypto calm [''c''] (Password [2]) [9] 87420 w3) = Inl (WrongPassword 2)"
proof -
  have h: "fail_count (h_lockout fresh_header) = 0" "locked_until (h_lockout fresh_header) = 0" "hmac_ok fresh_header"
    by (simp_all add: fresh_header_def lockout_default_def sample_header_def)
  have clock: "clock_ok 1020" by (simp add: clock_ok_def LOCKOUT_SECS_def word_le_nat_alt)
  let ?w1 = "snd (open_and_authorize toy_crypto calm [''c''] (Password [2]) [9] 1000 fresh_disk)"
  let ?w2 = "snd (open_and_authorize toy_crypto calm [''c''] (Password [3]) [9] 1010 ?w1)"
  note all = lockout_persists [where ?t1.0 = 1000 and ?t2.0 = 1010, OF no_fail_calm toy_hmac_len fresh_disk_file h(3,1,2)
      fresh_passwords(1-3) clock prod.collapse prod.collapse prod.collapse]
  have later: "try_passwords toy_crypto calm [''c''] [9] [] w = w" for w
    by (simp add: try_passwords_def)
  have w3: "try_passwords toy_crypto calm [''c''] [9] [([2], 1000), ([3], 1010), ([4], 1020)] fresh_disk =
      snd (open_and_authorize toy_crypto calm [''c''] (Password [4]) [9] 1020 ?w2)"
    by (simp add: try_passwords_def)
  have t: "(1020::u64) + 86400 = 87420" "(87419::u64) < 87420" "(87420::u64) \<le> 87420" "list_all (\<lambda>(_, s). s < (87420::u64)) []"
    by (simp_all add: word_less_nat_alt)
  show ?thesis
    using all [THEN conjunct2, THEN conjunct2, THEN conjunct2, rule_format, of "[]", unfolded t(1) later Let_def]
      t fresh_passwords(1,4) unfolding w3 Let_def by blast
qed

text \<open>
  C25: What a password does to a container that this install has not authenticated, such as one
  copied from another machine, for every value of its two lockout fields. A lockout that lies in
  the future is believed: the attempt is refused and the file is left alone. Otherwise the right
  password opens it, and its header is cleared and signed by this install. A wrong password is
  counted and the header signed: if no end of a lockout is set, the first one arms 24 hours,
  whatever the count (the count \<open>u32::MAX\<close> wraps to zero and allows three more; a debug build
  stops there); if the field holds a past time instead, which whoever made the file can arrange,
  the first wrong password is answered with two more attempts.
\<close>

theorem foreign_container_attempts:
  assumes "no_fail E" and "container_file cr k w c h rest ro" and "hmac_len_ok cr" and "\<not> hmac_ok h"
    and "(r, w') = open_and_authorize cr E c (Password pw) k now w"
  shows "(now < locked_until (h_lockout h) \<longrightarrow>
       r = Inl (LockedOut (locked_until (h_lockout h))) \<and> container_file cr k w' c h rest ro)
    \<and> (locked_until (h_lockout h) \<le> now \<longrightarrow> password_opens cr pw h dk \<longrightarrow>
       r = Inr (rest, (clamp_foreign h)\<lparr>h_lockout := lockout_default\<rparr>, dk, ro)
       \<and> header_left cr k c rest h \<lparr>fail_count = 0, locked_until = 0\<rparr> False w')
    \<and> (locked_until (h_lockout h) = 0 \<and> wrong_for cr h pw \<and> fail_count (h_lockout h) < 2 \<longrightarrow>
       r = Inl (LockedOut (now + 86400))
       \<and> header_left cr k c rest h \<lparr>fail_count = 3, locked_until = now + 86400\<rparr> ro w')
    \<and> (locked_until (h_lockout h) = 0 \<and> wrong_for cr h pw \<and> 2 \<le> fail_count (h_lockout h) \<and> fail_count (h_lockout h) < - 1 \<longrightarrow>
       r = Inl (LockedOut (now + 86400))
       \<and> header_left cr k c rest h \<lparr>fail_count = fail_count (h_lockout h) + 1, locked_until = now + 86400\<rparr> ro w')
    \<and> (locked_until (h_lockout h) = 0 \<and> wrong_for cr h pw \<and> fail_count (h_lockout h) = - 1 \<longrightarrow>
       r = Inl (WrongPassword 3) \<and> header_left cr k c rest h \<lparr>fail_count = 0, locked_until = 0\<rparr> ro w')
    \<and> (0 < locked_until (h_lockout h) \<and> locked_until (h_lockout h) \<le> now \<and> wrong_for cr h pw \<longrightarrow>
       r = Inl (WrongPassword 2) \<and> header_left cr k c rest h \<lparr>fail_count = 1, locked_until = 0\<rparr> ro w')"
proof -
  note nf = assms(1) and cf = assms(2) and mac = assms(3)
  define s where "s = h_lockout (clamp_foreign h)"
  have run: "r = fst (open_and_authorize cr E c (Password pw) k now w)"
    "w' = snd (open_and_authorize cr E c (Password pw) k now w)"
    using assms(5) by (metis fst_conv snd_conv)+
  have until: "locked_until s = locked_until (h_lockout h)" by (simp add: s_def)
  have count: "fail_count s = (if fail_count (h_lockout h) < 2 then 2 else fail_count (h_lockout h))"
    using assms(4) by (simp add: s_def clamp_foreign_def MAX_ATTEMPTS_def)
  note refused = refused_attempt [OF nf mac cf, of now pw, folded run]
  note opened = right_attempt_runs [OF nf mac cf, of now pw dk, folded run]
  note wrong = wrong_attempt_runs [OF nf mac cf, of now pw, folded run s_def]
  have armed: "record_failure s now = (LockedOut (now + 86400), \<lparr>fail_count = fail_count s + 1, locked_until = now + 86400\<rparr>)"
    if "locked_until s = 0" "2 \<le> fail_count s" "fail_count s < - 1"
  proof -
    have "unat (fail_count s + 1) = unat (fail_count s) + 1"
      using that(3) by (simp add: unat_word_ariths word_less_nat_alt unsigned_minus_1_eq_mask mask_eq_exp_minus_1)
    then have "3 \<le> fail_count s + 1" using that(2) by (simp add: word_le_nat_alt)
    with that(1) show ?thesis by (cases s) (simp add: record_failure_def MAX_ATTEMPTS_def LOCKOUT_SECS_def)
  qed
  have fresh: "record_failure s now = (WrongPassword 2, \<lparr>fail_count = 1, locked_until = 0\<rparr>)"
    if "0 < locked_until s" "locked_until s \<le> now"
    using that by (cases s) (simp add: record_failure_expired)
  have wrapped: "record_failure s now = (WrongPassword 3, \<lparr>fail_count = 0, locked_until = 0\<rparr>)"
    if "locked_until s = 0" "fail_count s = - 1"
    using that by (cases s) (simp add: record_failure_def MAX_ATTEMPTS_def word_le_nat_alt)
  have zero: "lockout_default = \<lparr>fail_count = 0, locked_until = 0\<rparr>" by (simp add: lockout_default_def)
  have two: "fail_count s = 2" "(2::u32) < - 1" "(2::u32) + 1 = 3" if "fail_count (h_lockout h) < 2"
    using that count by (simp_all add: word_less_nat_alt unsigned_minus_1_eq_mask mask_eq_exp_minus_1)
  have big: "fail_count s = fail_count (h_lockout h)" if "2 \<le> fail_count (h_lockout h)"
    using that count leD by auto
  let ?L = "locked_until (h_lockout h)" and ?n = "fail_count (h_lockout h)"
  have c2: "r = Inr (rest, (clamp_foreign h)\<lparr>h_lockout := lockout_default\<rparr>, dk, ro)
       \<and> header_left cr k c rest h \<lparr>fail_count = 0, locked_until = 0\<rparr> False w'"
    if "?L \<le> now" "password_opens cr pw h dk"
    using opened [OF that] by (simp add: zero [symmetric])
  have le: "?L \<le> now" if "?L = 0" using that by simp
  have c3: "r = Inl (LockedOut (now + 86400))
       \<and> header_left cr k c rest h \<lparr>fail_count = 3, locked_until = now + 86400\<rparr> ro w'"
    if "?L = 0" "wrong_for cr h pw" "?n < 2"
    using wrong [OF le [OF that(1)] that(2)] armed two [OF that(3)] until that(1) by simp
  have c4: "r = Inl (LockedOut (now + 86400))
       \<and> header_left cr k c rest h \<lparr>fail_count = ?n + 1, locked_until = now + 86400\<rparr> ro w'"
    if "?L = 0" "wrong_for cr h pw" "2 \<le> ?n" "?n < - 1"
    using wrong [OF le [OF that(1)] that(2)] armed big [OF that(3)] until that by simp
  have c5: "r = Inl (WrongPassword 3) \<and> header_left cr k c rest h \<lparr>fail_count = 0, locked_until = 0\<rparr> ro w'"
    if "?L = 0" "wrong_for cr h pw" "?n = - 1"
    using wrong [OF le [OF that(1)] that(2)] wrapped count until that by simp
  have c6: "r = Inl (WrongPassword 2) \<and> header_left cr k c rest h \<lparr>fail_count = 1, locked_until = 0\<rparr> ro w'"
    if "0 < ?L" "?L \<le> now" "wrong_for cr h pw"
    using wrong [OF that(2,3)] fresh until that by simp
  show ?thesis using refused c2 c3 c4 c5 c6 by blast
qed

theorem foreign_container_attempts_witness:
  "fst (open_and_authorize toy_crypto calm [''c''] (Password [1]) [8] 1000 sample_disk) = Inl (WrongPassword 2)
   \<and> fst (open_and_authorize toy_crypto calm [''c''] (Password [1]) [8] 41 sample_disk) = Inl (LockedOut 42)"
proof -
  let ?h = "sample_header\<lparr>hmac_ok := False\<rparr>"
  have "wrong_for toy_crypto ?h [1]"
    using sample_wrong_for wrong_for_cong [of sample_header ?h] by (simp add: same_keys_def)
  moreover have "\<not> hmac_ok ?h" "locked_until (h_lockout ?h) = 42"
    by (simp_all add: sample_header_def)
  moreover have "(0::u64) < 42" "(42::u64) \<le> 1000" "(41::u64) < 42" by (simp_all add: word_le_nat_alt word_less_nat_alt)
  ultimately show ?thesis
    using foreign_container_attempts [where pw = "[1]" and now = 1000, OF no_fail_calm sample_disk_foreign toy_hmac_len _ prod.collapse]
      foreign_container_attempts [where pw = "[1]" and now = 41, OF no_fail_calm sample_disk_foreign toy_hmac_len _ prod.collapse]
    by simp
qed

text \<open>
  C26: The recovery code bypasses the lockout: with a code that opens the recovery slot, a check
  succeeds whatever the lockout fields of the header say and whatever the time is, and it clears
  them on disk.
\<close>

theorem recovery_code_bypasses_lockout:
  assumes "no_fail E" and "container_file cr k w c h rest ro" and "hmac_len_ok cr"
    and "is_enrolled (wrapped_dk_mk h)" and "open_dk cr code (wrapped_dk_mk h) = Some dk"
  shows "fst (open_and_authorize cr E c (MasterCode code) k now w) =
      Inr (rest, (clamp_foreign h)\<lparr>h_lockout := lockout_default\<rparr>, dk, ro)
    \<and> (\<exists>g. container_file cr k (snd (open_and_authorize cr E c (MasterCode code) k now w)) c g rest False
          \<and> h_lockout g = lockout_default)"
proof -
  have "wrapped_dk_mk (clamp_foreign h) = wrapped_dk_mk h"
    using clamp_foreign_keys(1) [of h] by (simp add: same_keys_def)
  with assms(4,5) have d: "decide cr (MasterCode code) now (clamp_foreign h) = (Inr dk, Some lockout_default)"
    by (simp add: decide_def)
  show ?thesis
    by (rule authorize_runs [OF assms(1-3), of "MasterCode code" now]) (auto simp: d)
qed

text \<open>A concrete container with a recovery slot, locked for years.\<close>

definition enrolled_header :: header where
  "enrolled_header = sample_header\<lparr>wrapped_dk_mk :=
       fst (seal_dk toy_crypto (mk_public (fst (generate_master toy_crypto (\<lambda>i. of_nat i)))) (replicate 32 7) (\<lambda>i. 1)),
     h_lockout := \<lparr>fail_count = 3, locked_until = 9000\<rparr>\<rparr>"

definition enrolled_disk :: world where
  "enrolled_disk = container_world (to_bytes toy_crypto [9] enrolled_header @ [5])"

lemma enrolled_wf: "wf_header enrolled_header"
  using wf_sample_header length_seal_dk [of toy_crypto "replicate 32 7"]
  by (simp add: enrolled_header_def wf_header_def)

lemma enrolled_disk_file: "container_file toy_crypto [9] enrolled_disk [''c''] enrolled_header [5] False"
proof -
  have "enrolled_header\<lparr>hmac_ok := True\<rparr> = enrolled_header" by (simp add: enrolled_header_def sample_header_def)
  then show ?thesis
    using to_bytes_parses [OF enrolled_wf toy_hmac_len, of "[9]"] length_to_bytes [OF enrolled_wf toy_hmac_len]
    by (simp add: container_file_def enrolled_disk_def HEADER_LEN_def)
qed

lemma enrolled_opens:
  "open_dk toy_crypto (mk_code (fst (generate_master toy_crypto (\<lambda>i. of_nat i)))) (wrapped_dk_mk enrolled_header)
     = Some (replicate 32 7)"
proof -
  have "wrapped_dk_mk enrolled_header =
      fst (seal_dk toy_crypto (mk_public (fst (generate_master toy_crypto (\<lambda>i. of_nat i)))) (replicate 32 7) (\<lambda>i. 1))"
    by (simp add: enrolled_header_def)
  then show ?thesis by (simp add: open_seal_dk retyped_same)
qed

lemma enrolled_is_enrolled: "is_enrolled (wrapped_dk_mk enrolled_header)"
proof -
  have "wrapped_dk_mk enrolled_header = x25519_public toy_crypto (replicate 32 1) @
      fst (wrap_key toy_crypto (kek_from_shared toy_crypto (x25519_dh toy_crypto (replicate 32 1)
        (mk_public (fst (generate_master toy_crypto (\<lambda>i. of_nat i)))))) (replicate 32 7) (\<lambda>i. 1))"
    by (simp add: enrolled_header_def seal_dk_eq map_replicate_const)
  moreover have "x25519_public toy_crypto (replicate 32 1) = replicate 32 1" by (simp add: toy_crypto_def)
  ultimately show ?thesis by (simp add: is_enrolled_def list_ex_iff)
qed

theorem recovery_code_bypasses_lockout_witness:
  "\<exists>h. fst (open_and_authorize toy_crypto calm [''c'']
        (MasterCode (mk_code (fst (generate_master toy_crypto (\<lambda>i. of_nat i))))) [9] 100 enrolled_disk)
     = Inr ([5], h, replicate 32 7, False) \<and> h_lockout h = lockout_default"
  using recovery_code_bypasses_lockout [OF no_fail_calm enrolled_disk_file toy_hmac_len enrolled_is_enrolled enrolled_opens, of 100]
  by auto

text \<open>
  C27: A container whose KDF parameters are out of range (or refused by Argon2) loses its
  read-only guard when it is opened: the check reports the error, but the file stays writable.
\<close>

theorem refused_kdf_drops_guard:
  assumes "no_fail E" and "container_file cr k w c h rest True" and "hmac_len_ok cr"
    and "kdf_validate (h_kdf h) \<noteq> Inr ()" and "locked_until (h_lockout h) = 0"
  shows "fst (open_and_authorize cr E c (Password pw) k now w) = Inl Tampered
    \<and> (\<exists>g. container_file cr k (snd (open_and_authorize cr E c (Password pw) k now w)) c g rest False)"
proof -
  have d: "derive_kek cr pw (h_salt (clamp_foreign h)) (h_kdf (clamp_foreign h)) = Inl Tampered"
    using assms(4) clamp_foreign_keys(1) [of h]
    by (auto simp: derive_kek_def kdf_validate_def same_keys_def split: if_splits)
  have "locked_until (h_lockout (clamp_foreign h)) = 0" using assms(5) by (simp add: clamp_foreign_def)
  then have "decide cr (Password pw) now (clamp_foreign h) = (Inl Tampered, None)"
    and "kdf_refuses cr (Password pw) now (clamp_foreign h)"
    by (simp_all add: decide_def kdf_refuses_def d lockout_check_def)
  moreover obtain w' g where "open_and_authorize cr E c (Password pw) k now w =
      (case fst (decide cr (Password pw) now (clamp_foreign h)) of Inl e \<Rightarrow> Inl e
         | Inr dk \<Rightarrow> Inr (rest, (clamp_foreign h)\<lparr>h_lockout := lockout_default\<rparr>, dk, True), w')"
    and "container_file cr k w' c g rest (True \<and> isl (fst (decide cr (Password pw) now (clamp_foreign h)))
      \<and> \<not> kdf_refuses cr (Password pw) now (clamp_foreign h))"
    by (rule authorize_runs [OF assms(1-3), of "Password pw" now])
  ultimately show ?thesis by auto
qed

definition weak_header :: header where
  "weak_header = sample_header\<lparr>h_kdf := \<lparr>m_cost_kib = 0, t_cost = 3, lanes = 4\<rparr>, h_lockout := lockout_default\<rparr>"

definition weak_disk :: world where
  "weak_disk = snd (set_readonly calm [''c''] True (container_world (to_bytes toy_crypto [9] weak_header @ [5])))"

lemma weak_disk_file: "container_file toy_crypto [9] weak_disk [''c''] weak_header [5] True"
proof -
  have wf: "wf_header weak_header" by (simp add: weak_header_def sample_header_def wf_header_def)
  have same: "weak_header\<lparr>hmac_ok := True\<rparr> = weak_header" by (simp add: weak_header_def sample_header_def)
  have "container_file toy_crypto [9] (container_world (to_bytes toy_crypto [9] weak_header @ [5])) [''c''] weak_header [5] False"
    using to_bytes_parses [OF wf toy_hmac_len, of "[9]", unfolded same] length_to_bytes [OF wf toy_hmac_len]
    by (simp add: container_file_def HEADER_LEN_def)
  then show ?thesis unfolding weak_disk_def by (rule container_file_permission [OF no_fail_calm])
qed

theorem refused_kdf_drops_guard_witness:
  "\<exists>g. container_file toy_crypto [9]
      (snd (open_and_authorize toy_crypto calm [''c''] (Password [1]) [9] 100 weak_disk)) [''c''] g [5] False"
proof -
  have "kdf_validate (h_kdf weak_header) \<noteq> Inr ()" "locked_until (h_lockout weak_header) = 0"
    by (simp_all add: weak_header_def kdf_validate_def MIN_M_COST_KIB_def lockout_default_def word_le_nat_alt)
  then show ?thesis
    using refused_kdf_drops_guard [OF no_fail_calm weak_disk_file toy_hmac_len, of "[1]" 100] by blast
qed

text \<open>
  C28: The password prompt before deletion cannot be bypassed through this function, and a refusal
  cannot cost the container: with a credential the header does not accept, deletion reports an
  error and the file keeps its keys and payload, whatever I/O errors occur; with one it accepts,
  and no I/O error, the container is gone.
\<close>

theorem delete_needs_credential:
  assumes "container_file cr k w c h rest ro" and "hmac_len_ok cr" and "c \<noteq> []"
  shows "(isl (fst (decide cr cred now (clamp_foreign h))) \<longrightarrow>
       isl (fst (verify_and_delete cr E c cred k now w))
       \<and> (\<exists>g ro'. container_file cr k (snd (verify_and_delete cr E c cred k now w)) c g rest ro' \<and> same_keys h g))
    \<and> (no_fail E \<and> \<not> isl (fst (decide cr cred now (clamp_foreign h))) \<longrightarrow>
       fst (verify_and_delete cr E c cred k now w) = Inr ()
       \<and> lookup (snd (verify_and_delete cr E c cred k now w)) c = None)"
proof (intro conjI impI)
  assume d: "isl (fst (decide cr cred now (clamp_foreign h)))"
  obtain r w' where o: "open_and_authorize cr E c cred k now w = (r, w')" by fastforce
  have "\<exists>e. r = Inl e"
  proof (rule ccontr)
    assume "\<nexists>e. r = Inl e"
    then obtain x where "r = Inr x" by (cases r) auto
    with authorize_Inr [OF assms(1), of E cred now "fst x" "fst (snd x)" "fst (snd (snd x))" "snd (snd (snd x))" w'] o d
    show False by simp
  qed
  then obtain e where r: "r = Inl e" by blast
  have v: "verify_and_delete cr E c cred k now w = (Inl e, w')"
    using o r by (simp add: verify_and_delete_def bindE_def)
  show "isl (fst (verify_and_delete cr E c cred k now w))" by (simp add: v)
  show "\<exists>g ro'. container_file cr k (snd (verify_and_delete cr E c cred k now w)) c g rest ro' \<and> same_keys h g"
    using authorize_keeps_keys [OF assms(1,2), of E cred now] o by (simp add: v keys_on_disk_def)
next
  assume nd: "no_fail E \<and> \<not> isl (fst (decide cr cred now (clamp_foreign h)))"
  obtain dk where dk: "fst (decide cr cred now (clamp_foreign h)) = Inr dk"
    using nd by (cases "fst (decide cr cred now (clamp_foreign h))") auto
  obtain w' g where o: "open_and_authorize cr E c cred k now w =
      (Inr (rest, (clamp_foreign h)\<lparr>h_lockout := lockout_default\<rparr>, dk, ro), w')"
    and g: "container_file cr k w' c g rest False"
    by (rule authorize_runs [OF _ assms(1,2), of E cred now]) (use nd dk in auto)
  let ?w1 = "snd (set_readonly E c False w')"
  have "container_file cr k ?w1 c g rest False"
    using nd g by (intro container_file_permission) auto
  then obtain fd where "lookup ?w1 c = Some (File fd)" by (auto simp: container_file_def)
  then have "fst (recycle E c ?w1) = Inr () \<and> lookup (snd (recycle E c ?w1)) c = None"
    using nd by (auto intro: recycle_runs [OF _ assms(3), of E ?w1])
  then show "fst (verify_and_delete cr E c cred k now w) = Inr ()"
    and "lookup (snd (verify_and_delete cr E c cred k now w)) c = None"
    using o by (auto simp: verify_and_delete_def bindE_def Let_def split: prod.splits sum.splits)
qed

theorem delete_needs_credential_witness:
  "isl (fst (verify_and_delete toy_crypto calm [''c''] (Password [1]) [9] 50 sample_disk))
   \<and> lookup (snd (verify_and_delete toy_crypto calm [''c'']
        (MasterCode (mk_code (fst (generate_master toy_crypto (\<lambda>i. of_nat i))))) [9] 100 enrolled_disk)) [''c''] = None"
proof -
  have "isl (fst (decide toy_crypto (Password [1]) 50 (clamp_foreign sample_header)))"
    by (simp add: decide_def clamp_foreign_def sample_header_def sample_wrong split: sum.split)
  moreover have "clamp_foreign enrolled_header = enrolled_header"
    by (simp add: clamp_foreign_def enrolled_header_def sample_header_def)
  then have "\<not> isl (fst (decide toy_crypto (MasterCode (mk_code (fst (generate_master toy_crypto (\<lambda>i. of_nat i))))) 100
      (clamp_foreign enrolled_header)))"
    using enrolled_is_enrolled enrolled_opens by (simp add: decide_def)
  ultimately show ?thesis
    using delete_needs_credential [OF sample_disk_own toy_hmac_len, of "Password [1]" 50 calm]
      delete_needs_credential [OF enrolled_disk_file toy_hmac_len, of _ 100 calm] no_fail_calm
    by blast
qed

end
