(* ===== verification/Extract.thy ===== *)
theory Extract
  imports Container
begin

text \<open>
  Extraction: what \<open>extract_entries\<close> leaves on disk when it succeeds, and that it does succeed on
  the payload of a sealed container when the file system reports no error.
\<close>

section \<open>One file\<close>

lemma length_split_chunks_eq: "length a = length b \<Longrightarrow> length (split_chunks a) = length (split_chunks b)"
proof (induction a arbitrary: b rule: split_chunks.induct)
  case 1
  then show ?case by simp
next
  case (2 x xs)
  then have "b \<noteq> []" by auto
  have "length (drop CHUNK_SIZE (x # xs)) = length (drop CHUNK_SIZE b)" using 2(2) by simp
  from 2(1) [OF this] \<open>b \<noteq> []\<close> show ?case by (simp add: split_chunks_nonempty)
qed

text \<open>Reading frames off a stream of frames yields the plaintexts they were sealed from.\<close>

lemma frames_open_front:
  assumes "frames_open cr cc seq fs ps" and "frames_open cr cc seq gs (ps' @ qs)"
    and "length ps = length ps'" and "concat (map frame_bytes fs) @ x = concat (map frame_bytes gs) @ y"
  shows "\<exists>hs. gs = fs @ hs \<and> ps = ps' \<and> x = concat (map frame_bytes hs) @ y
     \<and> frames_open cr cc (seq + word_of_nat (length fs)) hs qs"
  using assms
proof (induction cr cc seq fs ps arbitrary: gs ps' rule: frames_open.induct)
  case (1 cr cc seq)
  then show ?case by (intro exI [of _ gs]) simp
next
  case (2 cr cc seq f fs p ps)
  obtain p' ps'' where p: "ps' = p' # ps''" using 2(4) by (cases ps') auto
  obtain g gs' where g: "gs = g # gs'" using 2(3) p by (cases gs) auto
  have fg: "chunk_frame f" "chunk_frame g" using 2(2,3) p g by auto
  have "frame_bytes f @ (concat (map frame_bytes fs) @ x) = frame_bytes g @ (concat (map frame_bytes gs') @ y)"
    using 2(5) g by simp
  from chunk_frames.item_front [OF fg this]
  have eq: "g = f" and rest: "concat (map frame_bytes fs) @ x = concat (map frame_bytes gs') @ y" by simp_all
  have "p' = p" using 2(2,3) p g eq by auto
  moreover obtain hs where "gs' = fs @ hs" "ps = ps''" "x = concat (map frame_bytes hs) @ y"
    "frames_open cr cc (seq + 1 + word_of_nat (length fs)) hs qs"
    using 2(1) [of gs' ps''] 2(2,3,4) p g rest by auto
  ultimately show ?case using p g eq by (intro exI [of _ hs]) (simp add: add.assoc)
qed simp_all

lemma extract_chunks_Inr:
  "extract_chunks cr E cc target plen remaining r seq dn w = (Inr (r', seq', dn'), w') \<Longrightarrow>
     lookup w target = Some (File d) \<Longrightarrow>
     \<exists>data fs. r = concat (map frame_bytes fs) @ r' \<and> length data = unat remaining
       \<and> frames_open cr cc seq fs (split_chunks data) \<and> seq' = seq + word_of_nat (length fs)
       \<and> lookup w' target = Some (File (d\<lparr>f_content := f_content d @ data\<rparr>))"
proof (induction "unat remaining" arbitrary: remaining r seq dn w d rule: less_induct)
  case (less remaining r seq dn w d)
  show ?case
  proof (cases "remaining = 0")
    case True
    with less.prems have "r' = r" "seq' = seq" "w' = w" by (simp_all add: extract_chunks_turn)
    with True less.prems(2) show ?thesis by (intro exI [of _ "[]"]) simp
  next
    case False
    let ?n = "next_chunk remaining"
    from less.prems(1) False obtain nonce frame r1 w1 plain w2 u where
      rd: "read_frame_into E (CHUNK_SIZE + TAG_LEN) r w = (Inr (nonce, frame, r1), w1)"
      and op: "open_in_place cr cc seq nonce frame = Inr plain" and len: "length plain = ?n"
      and ap: "append_file E target plain w1 = (Inr u, w2)"
      and rec: "extract_chunks cr E cc target plen (remaining - word_of_nat ?n) r1 (seq + 1) (dn + word_of_nat ?n)
          (note_progress (dn + word_of_nat ?n) plen w2) = (Inr (r', seq', dn'), w')"
      by (subst (asm) extract_chunks_turn)
         (auto simp: bindE_Inr_iff mapE_Inr_iff report_def Let_def split: if_splits)
    have f: "chunk_frame (nonce, frame)" "r = frame_bytes (nonce, frame) @ r1" "only_ticks w w1"
      using read_frame_into_Inr [OF rd] by simp_all
    have "lookup w1 target = Some (File d)"
      using less.prems(2) only_ticks_fs [OF f(3)] by (simp add: lookup_def)
    from append_file_Inr [OF ap this]
    have "lookup (note_progress (dn + word_of_nat ?n) plen w2) target =
        Some (File (d\<lparr>f_content := f_content d @ plain\<rparr>))"
      by (simp add: note_progress_def)
    from less.hyps [OF next_chunk_less [OF False] rec this] next_chunk_decreases(1) [OF False]
    obtain data fs where d: "r1 = concat (map frame_bytes fs) @ r'" "length data = unat remaining - ?n"
      "frames_open cr cc (seq + 1) fs (split_chunks data)" "seq' = seq + 1 + word_of_nat (length fs)"
      "lookup w' target = Some (File (d\<lparr>f_content := (f_content d @ plain) @ data\<rparr>))" by auto
    have sp: "split_chunks (plain @ data) = plain # split_chunks data"
    proof -
      have "take CHUNK_SIZE (plain @ data) = plain \<and> drop CHUNK_SIZE (plain @ data) = data"
        using len d(2) by (cases "unat remaining \<le> CHUNK_SIZE") (auto simp: next_chunk_def)
      moreover have "plain @ data \<noteq> []" using len next_chunk_decreases(2) [OF False] by auto
      ultimately show ?thesis by (simp add: split_chunks_nonempty)
    qed
    have "length (plain @ data) = unat remaining" using len d(2) by (simp add: next_chunk_def)
    with d f op sp show ?thesis
      by (intro exI [of _ "plain @ data"] exI [of _ "(nonce, frame) # fs"]) simp
  qed
qed

lemma read_frame_touches: "keeps (changes_only P) (read_frame_into E n r)"
  unfolding read_frame_into_def by (intro keeps_intros touches read_touches)

lemma extract_chunks_runs:
  assumes nf: "no_fail E"
  shows "frames_open cr cc seq fs (split_chunks data @ qs) \<Longrightarrow> length data = unat remaining \<Longrightarrow>
     succeeds (extract_chunks cr E cc target plen remaining (concat (map frame_bytes fs) @ y) seq dn) w"
proof (induction "unat remaining" arbitrary: remaining fs data seq dn w rule: less_induct)
  case (less remaining fs data seq dn w)
  show ?case
  proof (cases "remaining = 0")
    case True
    then show ?thesis by (subst extract_chunks_turn) (simp add: succeeds_def)
  next
    case False
    let ?n = "next_chunk remaining"
    have "unat remaining \<noteq> 0" using False by (simp add: unat_eq_0)
    then have ne: "data \<noteq> []" using less.prems(2) by auto
    then obtain f fs' where fs: "fs = f # fs'" and f: "chunk_frame f"
      "open_in_place cr cc seq (fst f) (snd f) = Inr (take CHUNK_SIZE data)"
      and rest: "frames_open cr cc (seq + 1) fs' (split_chunks (drop CHUNK_SIZE data) @ qs)"
      using less.prems(1) by (cases fs) (auto simp: split_chunks_nonempty)
    have n: "length (take CHUNK_SIZE data) = ?n" using less.prems(2) by (simp add: next_chunk_def)
    let ?r = "concat (map frame_bytes fs') @ y"
    obtain w1 where rd: "read_frame_into E (CHUNK_SIZE + TAG_LEN) (frame_bytes f @ ?r) w = (Inr (fst f, snd f, ?r), w1)"
      using read_frame_into_runs [OF nf f(1)] by (auto simp: CHUNK_SIZE_def TAG_LEN_def)
    have "length (drop CHUNK_SIZE data) = unat (remaining - word_of_nat ?n)"
      using less.prems(2) next_chunk_decreases(1) [OF False] by (simp add: next_chunk_def)
    from less.hyps [OF next_chunk_less [OF False] rest this]
    have "succeeds (bindE (mapE Io (append_file E target (take CHUNK_SIZE data))) (\<lambda>_.
        bindE (report (dn + word_of_nat ?n) plen) (\<lambda>_.
          extract_chunks cr E cc target plen (remaining - word_of_nat ?n) ?r (seq + 1) (dn + word_of_nat ?n)))) w1"
      by (intro succeeds_bindE succeeds_mapE runs report_runs nf)
    then show ?thesis
      using False fs f(2) n rd
      by (subst extract_chunks_turn)
         (simp add: Let_def succeeds_def bindE_step(2) [where m = "read_frame_into E _ _"])
  qed
qed

section \<open>Growing a tree\<close>

text \<open>
  Directories stay, and so does every other node outside \<open>P\<close>. Every call extraction makes keeps
  this relation for the file it works on.
\<close>

named_theorems growing "calls that only add nodes or change the given file"

definition grows :: "(path \<Rightarrow> bool) \<Rightarrow> world \<Rightarrow> world \<Rightarrow> bool" where
  "grows P w w' \<longleftrightarrow> (\<forall>q n. lookup w q = Some n \<longrightarrow> n = Dir \<or> \<not> P q \<longrightarrow> lookup w' q = Some n)"

lemma grows_preorder [growing]: "preorderS (grows P)"
  unfolding preorderS_def grows_def by blast

lemma growsD: "grows P w w' \<Longrightarrow> lookup w q = Some n \<Longrightarrow> n = Dir \<or> \<not> P q \<Longrightarrow> lookup w' q = Some n"
  unfolding grows_def by blast

lemma growsI: "(\<And>q n. lookup w q = Some n \<Longrightarrow> n = Dir \<or> \<not> P q \<Longrightarrow> lookup w' q = Some n) \<Longrightarrow> grows P w w'"
  unfolding grows_def by blast

lemma unchanged_grows: "keeps (changes_only (\<lambda>_. False)) m \<Longrightarrow> keeps (grows P) m"
  unfolding keeps_def changes_only_def grows_def by simp

lemma sysop_grows:
  assumes "\<And>n w. grows P w (spoil n w)" and "\<And>w. grows P w (snd (act w))"
  shows "keeps (grows P) (sysop E spoil act)"
proof (rule keepsI)
  fix w :: world
  let ?w = "w\<lparr>w_tick := Suc (w_tick w)\<rparr>"
  have "grows P ?w (snd (sysop E spoil act w))" using assms by (simp add: sysop_def Let_def)
  then show "grows P w (snd (sysop E spoil act w))" by (simp add: grows_def)
qed

lemma put_file_grows: "P p \<Longrightarrow> grows P w (put_file p f w)"
  by (auto simp: grows_def lookup_put_file split: option.split node.split)

lemma reading_grows [growing]:
  "keeps (grows P) (metadata E p)" "keeps (grows P) (sync_all E)" "keeps (grows P) (read_frame_into E n r)"
  "keeps (grows P) (report a b)"
  by (intro unchanged_grows touches read_frame_touches report_touches)+

lemma creating_grows [growing]: "keeps (grows P) (create_dir E p)"
  unfolding create_dir_def
  by (intro sysop_grows) (auto simp: grows_def unspoiled_def lookup_upd occupied_def)

lemma writing_grows [growing]:
  assumes "P p"
  shows "keeps (grows P) (append_file E p bs)" and "keeps (grows P) (set_modified E p t)"
    and "keeps (grows P) (set_permissions E p ro)" and "keeps (grows P) (create_file E p)"
  unfolding append_file_def set_modified_def set_permissions_def create_file_def
  by (intro sysop_grows; use put_file_grows [of P, OF assms] assms in
      \<open>auto simp: unspoiled_def grows_def [of _ w w for w] split: option.split node.split\<close>;
      auto simp: grows_def lookup_upd)+

lemma create_dirs_grows [growing]: "keeps (grows P) (create_dirs E ps)"
proof (induction ps)
  case Nil
  show ?case by (simp add: keeps_def grows_def)
next
  case (Cons p ps)
  have "keeps (grows P) (bindE (create_dir E p) (\<lambda>_. create_dirs E ps))"
    by (intro keeps_bindE growing Cons)
  with Cons show ?case by (simp add: keeps_def)
qed

lemma create_dir_all_grows [growing]: "keeps (grows P) (create_dir_all E p)"
  unfolding create_dir_all_def by (rule create_dirs_grows)

lemma extract_chunks_grows [growing]:
  "P target \<Longrightarrow> keeps (grows P) (extract_chunks cr E cc target plen remaining r seq dn)"
proof (induction "unat remaining" arbitrary: remaining r seq dn rule: less_induct)
  case less
  show ?case
    by (subst extract_chunks_turn, unfold Let_def)
       (intro keeps_intros growing less next_chunk_less; assumption)
qed

text \<open>Creating directories.\<close>

lemma create_dir_Inr: "create_dir E p w = (Inr u, w') \<Longrightarrow> lookup w' p = Some Dir"
  by (auto simp: create_dir_def sysop_Inr lookup_upd split: if_splits)

lemma grows_is_dir: "grows P w w' \<Longrightarrow> is_dir_path w p \<Longrightarrow> is_dir_path w' p"
  by (auto simp: is_dir_path_def dest: growsD)

lemma create_dirs_Inr: "create_dirs E ps w = (Inr u, w') \<Longrightarrow> p \<in> set ps \<Longrightarrow> is_dir_path w' p"
proof (induction ps arbitrary: w)
  case (Cons q ps)
  obtain w1 where w1: "create_dirs E ps w1 = (Inr u, w')" and q: "is_dir_path w1 q"
    using Cons.prems(1) create_dir_Inr
    by (cases "is_dir_path w q") (fastforce simp: bindE_Inr_iff is_dir_path_def)+
  have "grows (\<lambda>_. False) w1 w'" using keepsD [OF create_dirs_grows w1] .
  from grows_is_dir [OF this q] have "is_dir_path w' q" .
  with Cons.IH [OF w1] Cons.prems(2) show ?case by auto
qed simp

lemma create_dir_all_Inr: "create_dir_all E p w = (Inr u, w') \<Longrightarrow> is_dir_path w' p"
proof (cases "p = []")
  case False
  assume "create_dir_all E p w = (Inr u, w')"
  moreover have "p \<in> set (map (\<lambda>n. take n p) [1..<Suc (length p)])"
    using False by (auto intro!: image_eqI [of _ _ "length p"] simp: Suc_le_eq)
  ultimately show ?thesis unfolding create_dir_all_def by (rule create_dirs_Inr)
qed (simp add: is_dir_path_def)

section \<open>The entries of a manifest\<close>

text \<open>
  \<open>restored\<close>: the file an entry names is there, with the content, the size and the attributes of
  the entry. Restoring the modification time is best effort, so it is promised only when no call
  fails.
\<close>

definition restored :: "os \<Rightarrow> world \<Rightarrow> path \<Rightarrow> entry \<Rightarrow> byte list \<Rightarrow> bool" where
  "restored E w root e data \<longleftrightarrow>
     (\<exists>p d. safe_join root (rel_path e) = Inr p \<and> lookup w p = Some (File d) \<and> f_content d = data
        \<and> length data = unat (e_size e) \<and> f_readonly d = e_readonly e
        \<and> (no_fail E \<and> 0 < e_mtime e \<longrightarrow> f_mtime d = e_mtime e))"

definition dir_restored :: "world \<Rightarrow> path \<Rightarrow> entry \<Rightarrow> bool" where
  "dir_restored w root e \<longleftrightarrow> (\<exists>p. safe_join root (rel_path e) = Inr p \<and> lookup w p = Some Dir)"

abbreviation files_of :: "entry list \<Rightarrow> entry list" where
  "files_of es \<equiv> filter (\<lambda>e. \<not> e_is_dir e) es"

definition targets :: "path \<Rightarrow> entry list \<Rightarrow> path set" where
  "targets root es = {p. \<exists>e \<in> set (files_of es). safe_join root (rel_path e) = Inr p}"

definition distinct_targets :: "path \<Rightarrow> entry list \<Rightarrow> bool" where
  "distinct_targets root es \<longleftrightarrow> distinct (map (\<lambda>e. safe_join root (rel_path e)) (files_of es))"

lemma targets_simps [simp]:
  "targets root [] = {}"
  "e_is_dir e \<Longrightarrow> targets root (e # es) = targets root es"
  "\<not> e_is_dir e \<Longrightarrow> safe_join root (rel_path e) = Inr p \<Longrightarrow> targets root (e # es) = insert p (targets root es)"
  by (auto simp: targets_def)

lemma distinct_targets_head:
  assumes "distinct_targets root (e # es)" and "\<not> e_is_dir e" and "safe_join root (rel_path e) = Inr p"
  shows "p \<notin> targets root es"
  using assms by (force simp: distinct_targets_def targets_def)

lemma restored_grows:
  assumes "restored E w root e data" and "grows P w w'" and "\<And>p. safe_join root (rel_path e) = Inr p \<Longrightarrow> \<not> P p"
  shows "restored E w' root e data"
proof -
  obtain p d where "safe_join root (rel_path e) = Inr p" "lookup w p = Some (File d)" "f_content d = data"
    "length data = unat (e_size e)" "f_readonly d = e_readonly e"
    "no_fail E \<and> 0 < e_mtime e \<longrightarrow> f_mtime d = e_mtime e"
    using assms(1) by (auto simp: restored_def)
  with growsD [OF assms(2)] assms(3) show ?thesis unfolding restored_def by blast
qed

text \<open>
  The files of a manifest, one content each. A later entry with the same target replaces the
  file, so an entry is promised unless a later one has its target.
\<close>

fun files_restored :: "os \<Rightarrow> world \<Rightarrow> path \<Rightarrow> entry list \<Rightarrow> byte list list \<Rightarrow> bool" where
  "files_restored E w root [] [] = True"
| "files_restored E w root (e # es) (data # datas) =
     ((restored E w root e data \<or> safe_join root (rel_path e) \<in> (\<lambda>e. safe_join root (rel_path e)) ` set es)
      \<and> files_restored E w root es datas)"
| "files_restored E w root _ _ = False"

lemma files_restored_distinct:
  "files_restored E w root es datas \<Longrightarrow> distinct (map (\<lambda>e. safe_join root (rel_path e)) es) \<Longrightarrow>
     list_all2 (restored E w root) es datas"
  by (induction E w root es datas rule: files_restored.induct) auto

lemma dir_restored_grows: "dir_restored w root e \<Longrightarrow> grows P w w' \<Longrightarrow> dir_restored w' root e"
  unfolding dir_restored_def by (blast dest: growsD)

text \<open>Setting the attributes of one restored file.\<close>

lemma set_attributes_Inr:
  assumes m: "(if 0 < t then ignoreE (set_modified E p t) else returnE ()) w = (Inr u1, w1)"
    and ro: "(if ro then bindE (mapE Io (metadata E p)) (\<lambda>_. mapE Io (set_permissions E p True)) else returnE ()) w1
        = (Inr u2, w2)"
    and d: "lookup w p = Some (File d)" "\<not> f_readonly d"
  shows "\<exists>d'. lookup w2 p = Some (File d') \<and> f_content d' = f_content d \<and> f_readonly d' = ro
           \<and> (no_fail E \<and> 0 < t \<longrightarrow> f_mtime d' = t)"
proof -
  have "\<exists>d1. lookup w1 p = Some (File d1) \<and> f_content d1 = f_content d \<and> \<not> f_readonly d1
      \<and> (no_fail E \<and> 0 < t \<longrightarrow> f_mtime d1 = t)"
    using m d by (auto simp: set_modified_def sysop_def Let_def unspoiled_def no_fail_def lookup_put_file
        split: if_splits)
  then obtain d1 where d1: "lookup w1 p = Some (File d1)" "f_content d1 = f_content d" "\<not> f_readonly d1"
    "no_fail E \<and> 0 < t \<longrightarrow> f_mtime d1 = t" by blast
  show ?thesis
  proof (cases ro)
    case True
    with ro obtain n w1' where md: "metadata E p w1 = (Inr n, w1')" and "set_permissions E p True w1' = (Inr u2, w2)"
      by (auto simp: bindE_Inr_iff mapE_Inr_iff)
    moreover have "lookup w1' p = Some (File d1)"
      using changes_onlyD [OF keepsD [OF reading_touches(2) md], of "\<lambda>_. False"] d1(1) by simp
    ultimately have "lookup w2 p = Some (File (d1\<lparr>f_readonly := True\<rparr>))"
      using put_file_attr_Inr(1) by blast
    with d1 True show ?thesis by simp
  next
    case False
    with ro d1 show ?thesis by auto
  qed
qed

lemma extract_entries_grows [growing]:
  assumes "\<And>p. p \<in> targets root es \<Longrightarrow> P p"
  shows "keeps (grows P) (extract_entries cr E cc root plen es r seq dn)"
  using assms
proof (induction es arbitrary: r seq dn)
  case Nil
  show ?case unfolding extract_entries.simps by (intro keeps_intros growing)
next
  case (Cons e es)
  have "keeps (grows P) (extract_entries cr E cc root plen es r seq dn)" for r seq dn
    using Cons by (auto simp: targets_def)
  note rec = this
  have P: "P p" if "safe_join root (rel_path e) = Inr p" "\<not> e_is_dir e" for p
    using that Cons.prems by simp
  show ?case
  proof (cases "safe_join root (rel_path e)")
    case (Inl x)
    then show ?thesis by (simp add: keeps_def grows_def)
  next
    case (Inr p)
    show ?thesis
      unfolding extract_entries.simps Inr bindE_pure
      by (intro keeps_intros growing rec P Inr; assumption?)
  qed
qed

lemma safe_join_nonempty: "safe_join root rel = Inr p \<Longrightarrow> p \<noteq> []"
  using safe_join_strict by fastforce

lemma parent_simp: "p \<noteq> [] \<Longrightarrow> parent p = Some (butlast p)"
  by (simp add: parent_def)

lemma extract_file_steps:
  assumes "extract_entries cr E cc root plen (e # es) r seq dn w = (Inr u, w')"
    and fl: "\<not> e_is_dir e" and sj: "safe_join root (rel_path e) = Inr p"
  obtains w1 u2 w2 r1 seq1 dn1 w3 u4 w4 u5 w5 u6 w6 where "create_file E p w1 = (Inr u2, w2)"
    and "extract_chunks cr E cc p plen (e_size e) r seq dn w2 = (Inr (r1, seq1, dn1), w3)"
    and "sync_all E w3 = (Inr u4, w4)"
    and "(if 0 < e_mtime e then ignoreE (set_modified E p (e_mtime e)) else returnE ()) w4 = (Inr u5 :: verror + unit, w5)"
    and "(if e_readonly e then bindE (mapE Io (metadata E p)) (\<lambda>_. mapE Io (set_permissions E p True))
          else returnE ()) w5 = (Inr u6, w6)"
    and "extract_entries cr E cc root plen es r1 seq1 dn1 w6 = (Inr u, w')"
  using assms(1)
  apply (subst (asm) extract_entries.simps)
  apply (simp only: sj fl if_False bindE_pure parent_simp [OF safe_join_nonempty [OF sj]] option.case)
  apply (simp only: bindE_Inr_iff mapE_Inr_iff)
  apply (elim exE conjE)
  apply (simp only: split_paired_all prod.case bindE_Inr_iff mapE_Inr_iff)
  apply (elim exE conjE)
  apply (rule that; assumption)
  done

text \<open>
  What a successful extraction has done, whatever was in the manifest: it consumed frames that
  decrypt, in order, to the contents of the files, and these are on disk.
\<close>

lemma extract_entries_Inr:
  assumes "extract_entries cr E cc root plen es r seq dn w = (Inr u, w')"
  shows "\<exists>datas fs r'. r = concat (map frame_bytes fs) @ r'
     \<and> frames_open cr cc seq fs (concat (map split_chunks datas))
     \<and> files_restored E w' root (files_of es) datas
     \<and> (\<forall>e \<in> set es. e_is_dir e \<longrightarrow> dir_restored w' root e)"
  using assms
proof (induction es arbitrary: r seq dn w)
  case Nil
  show ?case by (rule exI [of _ "[]"], rule exI [of _ "[]"], rule exI [of _ r]) simp
next
  case (Cons e es)
  obtain p where sj: "safe_join root (rel_path e) = Inr p"
    using Cons.prems(1) by (cases "safe_join root (rel_path e)") auto
  show ?case
  proof (cases "e_is_dir e")
    case True
    with Cons.prems(1) sj obtain u1 w1 where mk: "create_dir_all E p w = (Inr u1, w1)"
      and rec: "extract_entries cr E cc root plen es r seq dn w1 = (Inr u, w')"
      by (auto simp: bindE_Inr_iff mapE_Inr_iff)
    have "p \<noteq> []" using safe_join_strict [OF sj] by auto
    then have "dir_restored w1 root e"
      using create_dir_all_Inr [OF mk] sj by (simp add: dir_restored_def is_dir_path_def)
    moreover have "grows (\<lambda>q. q \<in> targets root es) w1 w'"
      by (rule keepsD [OF extract_entries_grows rec])
    ultimately have "dir_restored w' root e" by (rule dir_restored_grows)
    with Cons.IH [OF rec] True show ?thesis by auto
  next
    case False
    obtain w1 u2 w2 r1 seq1 dn1 w3 u4 w4 u5 w5 u6 w6 where
      mk: "create_file E p w1 = (Inr u2, w2)"
      and ch: "extract_chunks cr E cc p plen (e_size e) r seq dn w2 = (Inr (r1, seq1, dn1), w3)"
      and sy: "sync_all E w3 = (Inr u4, w4)"
      and mt: "(if 0 < e_mtime e then ignoreE (set_modified E p (e_mtime e)) else returnE ()) w4 = (Inr u5 :: verror + unit, w5)"
      and ro: "(if e_readonly e then bindE (mapE Io (metadata E p)) (\<lambda>_. mapE Io (set_permissions E p True))
          else returnE ()) w5 = (Inr u6, w6)"
      and rec: "extract_entries cr E cc root plen es r1 seq1 dn1 w6 = (Inr u, w')"
      using Cons.prems(1) False sj by (rule extract_file_steps)
    obtain d where "lookup w2 p = Some (File d)" "f_content d = []" "\<not> f_readonly d"
      using create_file_Inr [OF mk] by blast
    with extract_chunks_Inr [OF ch] obtain data fs where
      d: "r = concat (map frame_bytes fs) @ r1" "length data = unat (e_size e)"
        "frames_open cr cc seq fs (split_chunks data)" "seq1 = seq + word_of_nat (length fs)"
        "lookup w3 p = Some (File (d\<lparr>f_content := data\<rparr>))" "\<not> f_readonly d" by fastforce
    have "lookup w4 p = Some (File (d\<lparr>f_content := data\<rparr>))" using d(5) sync_all_Inr [OF sy] by simp
    from set_attributes_Inr [OF mt ro this] d(2,6) sj have "restored E w6 root e data"
      by (auto simp: restored_def)
    moreover have "grows (\<lambda>q. q \<in> targets root es) w6 w'"
      by (rule keepsD [OF extract_entries_grows rec])
    ultimately have "restored E w' root e data" if "p \<notin> targets root es"
      using sj that by (elim restored_grows) auto
    moreover have "safe_join root (rel_path e) \<in> (\<lambda>e. safe_join root (rel_path e)) ` set (files_of es)" if "p \<in> targets root es"
      using that sj by (force simp: targets_def)
    ultimately have here: "restored E w' root e data
        \<or> safe_join root (rel_path e) \<in> (\<lambda>e. safe_join root (rel_path e)) ` set (files_of es)" by blast
    from Cons.IH [OF rec] obtain datas gs r' where
      i: "r1 = concat (map frame_bytes gs) @ r'" "frames_open cr cc seq1 gs (concat (map split_chunks datas))"
        "files_restored E w' root (files_of es) datas"
        "\<forall>e \<in> set es. e_is_dir e \<longrightarrow> dir_restored w' root e" by blast
    have "frames_open cr cc seq (fs @ gs) (concat (map split_chunks (data # datas)))"
      using frames_open_append [OF d(3)] i(2) d(4) by simp
    then show ?thesis
      using d(1) i here False
      by (intro exI [of _ "data # datas"] exI [of _ "fs @ gs"] exI [of _ r']) auto
  qed
qed

section \<open>Extraction without I/O errors\<close>

text \<open>Creating a chain of directories, none of which is occupied by something else.\<close>

lemma create_dir_runs:
  assumes "no_fail E" and "lookup w p = None" and "parent_is_dir w p"
  obtains w' where "create_dir E p w = (Inr (), w')" and "\<And>q. lookup w' q = (if q = p then Some Dir else lookup w q)"
  using assms by (auto simp: create_dir_def sysop_runs occupied_def parent_is_dir_def lookup_upd)

lemma create_dirs_runs:
  assumes nf: "no_fail E"
  shows "i = Suc (length p) - k \<Longrightarrow> k \<le> length p \<Longrightarrow>
    (\<And>q. prefix q p \<Longrightarrow> q \<noteq> [] \<Longrightarrow> lookup w q = None \<or> lookup w q = Some Dir) \<Longrightarrow> is_dir_path w (take (i - 1) p) \<Longrightarrow>
    \<exists>w'. create_dirs E (map (\<lambda>n. take n p) [i..<Suc (length p)]) w = (Inr (), w')
      \<and> (\<forall>q. lookup w' q = (if prefix q p \<and> i \<le> length q then Some Dir else lookup w q))"
proof (induction k arbitrary: i w)
  case 0
  have "\<not> (prefix q p \<and> Suc (length p) \<le> length q)" for q using prefix_length_le by fastforce
  with 0(1) show ?case by auto
next
  case (Suc k)
  let ?t = "take i p"
  have i: "1 \<le> i" "i \<le> length p" using Suc.prems(1,2) by simp_all
  then have t: "?t \<noteq> []" "prefix ?t p" "butlast ?t = take (i - 1) p" "length ?t = i"
    by (auto simp: take_is_prefix butlast_take)
  have at: "prefix q p \<and> i \<le> length q \<longleftrightarrow> q = ?t \<or> prefix q p \<and> Suc i \<le> length q" for q
  proof -
    have "prefix q p \<and> length q = i \<longleftrightarrow> q = ?t" using t by (auto simp: prefix_def)
    then show ?thesis by (auto simp: le_eq_less_or_eq Suc_le_eq)
  qed
  have ls: "map (\<lambda>n. take n p) [i..<Suc (length p)] = ?t # map (\<lambda>n. take n p) [Suc i..<Suc (length p)]"
    using i by (simp add: upt_conv_Cons)
  have "\<exists>w1. create_dirs E (?t # xs) w = create_dirs E xs w1
      \<and> (\<forall>q. lookup w1 q = (if q = ?t then Some Dir else lookup w q))" for xs
  proof (cases "lookup w ?t")
    case None
    moreover have "parent_is_dir w ?t" using t(1,3) Suc.prems(4) by (simp add: parent_is_dir_def)
    ultimately obtain w1 where w1: "create_dir E ?t w = (Inr (), w1)"
      "\<And>q. lookup w1 q = (if q = ?t then Some Dir else lookup w q)"
      using create_dir_runs [OF nf] by blast
    moreover have "\<not> is_dir_path w ?t" using None t(1) by (simp add: is_dir_path_def)
    ultimately have "create_dirs E (?t # xs) w = create_dirs E xs w1" by (simp add: bindE_def)
    with w1(2) show ?thesis by blast
  next
    case (Some n)
    with Suc.prems(3) [OF t(2,1)] have "lookup w ?t = Some Dir" by simp
    moreover from this have "create_dirs E (?t # xs) w = create_dirs E xs w" by (simp add: is_dir_path_def)
    ultimately show ?thesis by (intro exI [of _ w]) simp
  qed
  then obtain w1 where w1: "create_dirs E (map (\<lambda>n. take n p) [i..<Suc (length p)]) w
        = create_dirs E (map (\<lambda>n. take n p) [Suc i..<Suc (length p)]) w1"
    "\<And>q. lookup w1 q = (if q = ?t then Some Dir else lookup w q)"
    unfolding ls by blast
  have "\<exists>w'. create_dirs E (map (\<lambda>n. take n p) [Suc i..<Suc (length p)]) w1 = (Inr (), w')
      \<and> (\<forall>q. lookup w' q = (if prefix q p \<and> Suc i \<le> length q then Some Dir else lookup w1 q))"
  proof (rule Suc.IH)
    show "Suc i = Suc (length p) - k" "k \<le> length p" using Suc.prems(1,2) by simp_all
    show "lookup w1 q = None \<or> lookup w1 q = Some Dir" if "prefix q p" "q \<noteq> []" for q
      using Suc.prems(3) [OF that] w1(2) by simp
    show "is_dir_path w1 (take (Suc i - 1) p)" using w1(2) by (simp add: is_dir_path_def)
  qed
  then obtain w' where w': "create_dirs E (map (\<lambda>n. take n p) [Suc i..<Suc (length p)]) w1 = (Inr (), w')"
    "\<And>q. lookup w' q = (if prefix q p \<and> Suc i \<le> length q then Some Dir else lookup w1 q)" by blast
  have "lookup w' q = (if prefix q p \<and> i \<le> length q then Some Dir else lookup w q)" for q
    unfolding at w'(2) w1(2) by simp
  with w1(1) w'(1) show ?case by auto
qed

lemma create_dir_all_runs:
  assumes "no_fail E" and "\<And>q. prefix q p \<Longrightarrow> q \<noteq> [] \<Longrightarrow> lookup w q = None \<or> lookup w q = Some Dir"
  obtains w' where "create_dir_all E p w = (Inr (), w')"
    and "\<And>q. lookup w' q = (if prefix q p \<and> q \<noteq> [] then Some Dir else lookup w q)"
proof -
  have "q \<noteq> [] \<longleftrightarrow> 1 \<le> length q" for q :: path by (cases q) auto
  moreover have "is_dir_path w (take (1 - 1) p)" by (simp add: is_dir_path_def)
  ultimately show ?thesis
    using create_dirs_runs [OF assms(1) _ order_refl assms(2), of 1 p] that
    unfolding create_dir_all_def by fastforce
qed

text \<open>
  A plan for an extraction below \<open>root\<close>: every entry has a safe name, the directories are closed
  under taking parents, and no path is the name of two files or of a file and a directory.
  \<open>room\<close>: nothing is in the way of the entries that are left.
\<close>

definition plan :: "path \<Rightarrow> path set \<Rightarrow> entry list \<Rightarrow> bool" where
  "plan root dirs es \<longleftrightarrow>
     (\<forall>e \<in> set es. \<exists>p. safe_join root (rel_path e) = Inr p
        \<and> (if e_is_dir e then p \<in> dirs else p \<notin> dirs \<and> (butlast p = root \<or> butlast p \<in> dirs)))
     \<and> (\<forall>p \<in> dirs. \<forall>q. strict_prefix root q \<and> prefix q p \<longrightarrow> q \<in> dirs) \<and> distinct_targets root es"

definition room :: "path \<Rightarrow> path set \<Rightarrow> path set \<Rightarrow> world \<Rightarrow> bool" where
  "room root dirs fl w \<longleftrightarrow>
     (\<forall>q. prefix q root \<longrightarrow> is_dir_path w q)
     \<and> (\<forall>q \<in> dirs. lookup w q = None \<or> lookup w q = Some Dir) \<and> (\<forall>q \<in> fl. lookup w q = None)"

lemma plan_Cons: "plan root dirs (e # es) \<Longrightarrow> plan root dirs es"
  by (auto simp: plan_def distinct_targets_def split: if_splits)

lemma plan_targets: "plan root dirs es \<Longrightarrow> p \<in> targets root es \<Longrightarrow> p \<notin> dirs \<and> strict_prefix root p"
  using safe_join_strict by (fastforce simp: plan_def targets_def)

lemma make_room_dir:
  assumes nf: "no_fail E" and pl: "plan root dirs es" and rm: "room root dirs (targets root es) w"
    and p: "p = root \<or> p \<in> dirs \<and> prefix root p"
  obtains w' where "create_dir_all E p w = (Inr (), w')" and "room root dirs (targets root es) w'"
    and "is_dir_path w' p" and "\<And>q. lookup w' q = lookup w q \<or> lookup w' q = Some Dir \<and> (prefix q root \<or> q \<in> dirs)"
proof -
  have side: "prefix q root \<or> q \<in> dirs" if "prefix q p" for q
  proof (cases "p = root")
    case True
    with that show ?thesis by simp
  next
    case False
    with p have "p \<in> dirs" "prefix root p" by auto
    then have "prefix q root \<or> strict_prefix root q"
      using that prefix_same_cases by (auto simp: strict_prefix_def)
    with \<open>p \<in> dirs\<close> that pl show ?thesis unfolding plan_def by blast
  qed
  have free: "lookup w q = None \<or> lookup w q = Some Dir" if "prefix q p" "q \<noteq> []" for q
    using side [OF that(1)] rm that(2) by (auto simp: room_def is_dir_path_def)
  obtain w' where w': "create_dir_all E p w = (Inr (), w')"
    "\<And>q. lookup w' q = (if prefix q p \<and> q \<noteq> [] then Some Dir else lookup w q)"
    using create_dir_all_runs [OF nf free] by blast
  have "room root dirs (targets root es) w'"
  proof -
    have "\<not> (prefix q p \<and> q \<noteq> [])" if "q \<in> targets root es" for q
      using side [of q] plan_targets [OF pl that] by (auto simp: strict_prefix_def)
    then show ?thesis using rm w'(2) by (auto simp: room_def is_dir_path_def)
  qed
  moreover have "is_dir_path w' p" using w'(2) by (simp add: is_dir_path_def)
  moreover have "lookup w' q = lookup w q \<or> lookup w' q = Some Dir \<and> (prefix q root \<or> q \<in> dirs)" for q
    using w'(2) side by simp
  ultimately show ?thesis using w'(1) that by blast
qed

text \<open>One file: everything after its parent directory is there.\<close>

lemma extract_file_runs:
  assumes nf: "no_fail E" and p: "lookup w p = None" "parent_is_dir w p"
    and fs: "frames_open cr cc seq fs (split_chunks data @ qs)" and len: "length data = unat (e_size e)"
  obtains w1 hs seq1 dn1 w' where
    "bindE (mapE Io (create_file E p)) (\<lambda>_. bindE (extract_chunks cr E cc p plen (e_size e)
        (concat (map frame_bytes fs) @ y) seq dn) (\<lambda>(r, seq, dn).
         bindE (mapE Io (sync_all E)) (\<lambda>_.
         bindE (if 0 < e_mtime e then ignoreE (set_modified E p (e_mtime e)) else returnE ()) (\<lambda>_.
         bindE (if e_readonly e
                then bindE (mapE Io (metadata E p)) (\<lambda>_. mapE Io (set_permissions E p True))
                else returnE ()) (\<lambda>_. k r seq dn))))) w
      = k (concat (map frame_bytes hs) @ y) seq1 dn1 w'"
    and "frames_open cr cc seq1 hs qs" and "changes_only (\<lambda>q. q = p) w w'"
proof -
  let ?y = "concat (map frame_bytes fs) @ y" and ?P = "\<lambda>q. q = p"
  obtain u1 w1 where 1: "create_file E p w = (Inr u1, w1)"
    using calls_run(11) [OF nf p] by (auto simp: succeeds_def)
  obtain d where d: "lookup w1 p = Some (File d)" "f_content d = []" using create_file_Inr [OF 1] by blast
  obtain r seq1 dn1 w2 where 2: "extract_chunks cr E cc p plen (e_size e) ?y seq dn w1 = (Inr (r, seq1, dn1), w2)"
    using extract_chunks_runs [OF nf fs len] unfolding succeeds_def by (metis prod_cases3)
  from extract_chunks_Inr [OF 2 d(1)] obtain data' gs where g: "?y = concat (map frame_bytes gs) @ r"
    "length data' = unat (e_size e)" "frames_open cr cc seq gs (split_chunks data')"
    "seq1 = seq + word_of_nat (length gs)" and l2: "\<exists>d2. lookup w2 p = Some (File d2)" by blast
  have "length (split_chunks data') = length (split_chunks data)"
    using g(2) len by (intro length_split_chunks_eq) simp
  from frames_open_front [OF g(3) fs this g(1) [symmetric]] obtain hs where
    h: "r = concat (map frame_bytes hs) @ y" "frames_open cr cc seq1 hs qs" using g(4) by blast
  obtain u3 w3 where 3: "sync_all E w2 = (Inr u3, w3)" using calls_run(3) [OF nf] by (auto simp: succeeds_def)
  define m4 :: "unit vio" where "m4 = (if 0 < e_mtime e then ignoreE (set_modified E p (e_mtime e)) else returnE ())"
  obtain u4 w4 where 4: "m4 w3 = (Inr u4, w4)" by (cases "0 < e_mtime e") (auto simp: m4_def)
  have "\<exists>d4. lookup w4 p = Some (File d4)"
    using 4 l2 sync_all_Inr [OF 3]
    by (auto simp: m4_def set_modified_def sysop_def Let_def unspoiled_def lookup_put_file split: if_splits)
  then obtain d4 where d4: "lookup w4 p = Some (File d4)" by blast
  define m5 :: "unit vio" where "m5 = (if e_readonly e
      then bindE (mapE Io (metadata E p)) (\<lambda>_. mapE Io (set_permissions E p True)) else returnE ())"
  have "succeeds m5 w4"
  proof -
    have "exists_path u p" if "metadata E p w4 = (Inr x, u)" for x u
      using keepsD [OF reading_touches(2) that, of "\<lambda>_. False"] d4 by (simp add: changes_only_def exists_path_def)
    then show ?thesis
      unfolding m5_def using d4 nf
      by (auto intro!: succeeds_bindE succeeds_mapE succeeds_returnE runs simp: mapE_Inr_iff simp del: returnE_simp)
  qed
  then obtain u5 w5 where 5: "m5 w4 = (Inr u5, w5)" by (auto simp: succeeds_def)
  have "keeps (changes_only ?P) m4" "keeps (changes_only ?P) m5"
    unfolding m4_def m5_def by (intro keeps_intros touches refl)+
  from keepsD [OF this(1) 4] keepsD [OF this(2) 5]
  have "changes_only ?P w3 w4" "changes_only ?P w4 w5" .
  moreover have "changes_only ?P w w1" by (rule keepsD [OF writing_touches(2) 1]) simp
  moreover have "changes_only ?P w1 w2" by (rule keepsD [OF extract_chunks_touches 2]) simp
  moreover have "changes_only ?P w2 w3" by (rule keepsD [OF reading_touches(5) 3])
  ultimately have "changes_only ?P w w5" by (meson changes_trans)
  moreover have "bindE (mapE Io (create_file E p)) (\<lambda>_. bindE (extract_chunks cr E cc p plen (e_size e) ?y seq dn) (\<lambda>(r, seq, dn).
      bindE (mapE Io (sync_all E)) (\<lambda>_. bindE m4 (\<lambda>_. bindE m5 (\<lambda>_. k r seq dn))))) w = k r seq1 dn1 w5"
    using 1 2 3 4 5 by (simp add: bindE_def mapE_def)
  ultimately show ?thesis using h that unfolding m4_def m5_def by blast
qed

lemma extract_entries_runs:
  assumes nf: "no_fail E"
  shows "plan root dirs es \<Longrightarrow> room root dirs (targets root es) w \<Longrightarrow>
      frames_open cr cc seq fs (concat (map split_chunks datas)) \<Longrightarrow>
      list_all2 (\<lambda>e data. length data = unat (e_size e)) (files_of es) datas \<Longrightarrow>
      \<exists>w'. extract_entries cr E cc root plen es (concat (map frame_bytes fs) @ y) seq dn w = (Inr (), w')
        \<and> (\<forall>q. lookup w' q = lookup w q \<or> prefix q root \<or> q \<in> dirs \<or> q \<in> targets root es)"
proof (induction es arbitrary: w seq fs datas dn)
  case Nil
  then show ?case by simp
next
  case (Cons e es)
  note pl = plan_Cons [OF Cons.prems(1)]
  obtain p where sj: "safe_join root (rel_path e) = Inr p"
    and pe: "if e_is_dir e then p \<in> dirs else p \<notin> dirs \<and> (butlast p = root \<or> butlast p \<in> dirs)"
    using Cons.prems(1) unfolding plan_def by auto
  have pre: "strict_prefix root p" using sj by (rule safe_join_strict)
  let ?y = "concat (map frame_bytes fs) @ y"
  show ?case
  proof (cases "e_is_dir e")
    case True
    with Cons.prems(2) have "room root dirs (targets root es) w" by simp
    from make_room_dir [OF nf pl this, of p] obtain w1 where 1: "create_dir_all E p w = (Inr (), w1)"
      "room root dirs (targets root es) w1"
      "\<And>q. lookup w1 q = lookup w q \<or> lookup w1 q = Some Dir \<and> (prefix q root \<or> q \<in> dirs)"
      using pe True pre unfolding strict_prefix_def by auto
    from Cons.IH [OF pl 1(2) Cons.prems(3)] Cons.prems(4) True obtain w' where
      2: "extract_entries cr E cc root plen es ?y seq dn w1 = (Inr (), w')"
      "\<And>q. lookup w' q = lookup w1 q \<or> prefix q root \<or> q \<in> dirs \<or> q \<in> targets root es" by auto
    have mk: "bindE (mapE Io (create_dir_all E p)) f w = f () w1" for f :: "unit \<Rightarrow> unit vio"
      using 1(1) by (simp add: bindE_def mapE_def)
    have "extract_entries cr E cc root plen (e # es) ?y seq dn w = (Inr (), w')"
      by (simp only: extract_entries.simps sj bindE_pure True if_True
          mk 2(1))
    moreover have "lookup w' q = lookup w q \<or> prefix q root \<or> q \<in> dirs \<or> q \<in> targets root (e # es)" for q
      using 1(3) [of q] 2(2) [of q] True by auto
    ultimately show ?thesis by blast
  next
    case False
    let ?b = "butlast p"
    have T: "targets root (e # es) = insert p (targets root es)" using False sj by simp
    obtain data ds where ds: "datas = data # ds" "length data = unat (e_size e)"
      "list_all2 (\<lambda>e data. length data = unat (e_size e)) (files_of es) ds"
      using Cons.prems(4) False by (auto simp: list_all2_Cons1)
    have b: "?b = root \<or> ?b \<in> dirs \<and> prefix root ?b"
    proof -
      obtain ns where "p = root @ ns" "ns \<noteq> []" using pre by (auto simp: strict_prefix_def elim: prefixE)
      then have "prefix root ?b" by (simp add: butlast_append)
      with pe False show ?thesis by simp
    qed
    from make_room_dir [OF nf Cons.prems(1,2) this] obtain w1 where
      1: "create_dir_all E ?b w = (Inr (), w1)" "room root dirs (targets root (e # es)) w1" "is_dir_path w1 ?b"
      "\<And>q. lookup w1 q = lookup w q \<or> lookup w1 q = Some Dir \<and> (prefix q root \<or> q \<in> dirs)" by blast
    have "lookup w1 p = None" "parent_is_dir w1 p"
      using 1(2,3) T pre by (auto simp: room_def parent_is_dir_def strict_prefix_def)
    moreover have "frames_open cr cc seq fs (split_chunks data @ concat (map split_chunks ds))"
      using Cons.prems(3) ds(1) by simp
    ultimately obtain hs seq1 dn1 w2 where
      2: "bindE (mapE Io (create_file E p)) (\<lambda>_. bindE (extract_chunks cr E cc p plen (e_size e) ?y seq dn) (\<lambda>(r, seq, dn).
         bindE (mapE Io (sync_all E)) (\<lambda>_.
         bindE (if 0 < e_mtime e then ignoreE (set_modified E p (e_mtime e)) else returnE ()) (\<lambda>_.
         bindE (if e_readonly e
                then bindE (mapE Io (metadata E p)) (\<lambda>_. mapE Io (set_permissions E p True))
                else returnE ()) (\<lambda>_. extract_entries cr E cc root plen es r seq dn))))) w1
        = extract_entries cr E cc root plen es (concat (map frame_bytes hs) @ y) seq1 dn1 w2"
      and hs: "frames_open cr cc seq1 hs (concat (map split_chunks ds))" and c2: "changes_only (\<lambda>q. q = p) w1 w2"
      by (rule extract_file_runs [OF nf _ _ _ ds(2), where k = "extract_entries cr E cc root plen es" and plen = plen and dn = dn
            and y = y])
    have "p \<notin> targets root es"
      using distinct_targets_head [OF _ False sj] Cons.prems(1) unfolding plan_def by blast
    then have "q \<noteq> p" if "prefix q root \<or> q \<in> dirs \<or> q \<in> targets root es" for q
      using that pre pe False by (auto simp: strict_prefix_def)
    then have "lookup w2 q = lookup w1 q" if "prefix q root \<or> q \<in> dirs \<or> q \<in> targets root es" for q
      using that c2 by (simp add: changes_only_def)
    then have "room root dirs (targets root es) w2"
      using 1(2) by (simp add: T room_def is_dir_path_def)
    from Cons.IH [OF pl this hs ds(3)] obtain w' where
      3: "extract_entries cr E cc root plen es (concat (map frame_bytes hs) @ y) seq1 dn1 w2 = (Inr (), w')"
      "\<And>q. lookup w' q = lookup w2 q \<or> prefix q root \<or> q \<in> dirs \<or> q \<in> targets root es" by auto
    have mk: "bindE (mapE Io (create_dir_all E ?b)) f w = f () w1" for f :: "unit \<Rightarrow> unit vio"
      using 1(1) by (simp add: bindE_def mapE_def)
    have "extract_entries cr E cc root plen (e # es) ?y seq dn w = (Inr (), w')"
      by (simp only: extract_entries.simps sj bindE_pure False if_False parent_simp [OF safe_join_nonempty [OF sj]]
          option.case mk 2 3(1))
    moreover have "lookup w2 q = lookup w1 q \<or> q = p" for q using changes_onlyD [OF c2] by blast
    then have "lookup w' q = lookup w q \<or> prefix q root \<or> q \<in> dirs \<or> q \<in> targets root (e # es)" for q
      unfolding T insert_iff using 1(4) [of q] 3(2) [of q] by metis
    ultimately show ?thesis by blast
  qed
qed

end
