(* ===== verification/Journal.thy ===== *)
theory Journal
  imports Container
begin

text \<open>
  \<open>crates/vault-core/src/journal.rs\<close>: the crash-recovery journal. A record is written before the
  commit rename of a lock or unlock and removed afterwards; \<open>recover\<close> replays what a crash left
  behind. Paths are stored as strings in the code and as paths here.
\<close>

section \<open>The code\<close>

datatype op_kind = LockOp | UnlockOp

record jrecord =
  j_op :: op_kind
  j_folder :: path
  j_container :: path
  j_staging :: path

datatype recovery_action =
    FinishedLock path
  | RolledBackLock path
  | FinishedUnlock path
  | RolledBackUnlock path

definition journal_open :: "os \<Rightarrow> path \<Rightarrow> path vio" where
  "journal_open E dir = bindE (mapE Io (create_dir_all E dir)) (\<lambda>_. returnE dir)"

text \<open>\<open>format!("{b:02x}")\<close> of every byte, concatenated.\<close>

definition hex_digit :: "nat \<Rightarrow> char" where
  "hex_digit n = ''0123456789abcdef'' ! n"

definition hex_byte :: "byte \<Rightarrow> string" where
  "hex_byte b = [hex_digit (unat b div 16), hex_digit (unat b mod 16)]"

definition record_path :: "path \<Rightarrow> byte list \<Rightarrow> path" where
  "record_path dir uuid = dir @ [concat (map hex_byte uuid) @ ''.jrec'']"

definition journal_begin :: "jrecord codec \<Rightarrow> os \<Rightarrow> path \<Rightarrow> byte list \<Rightarrow> jrecord \<Rightarrow> path vio" where
  "journal_begin jc E dir uuid rec =
     (let path = record_path dir uuid
      in bindE (liftR (case ser jc rec of Inl e \<Rightarrow> Inl (Other (''journal: '' @ e)) | Inr b \<Rightarrow> Inr b)) (\<lambda>bytes.
         bindE (mapE Io (create_file E path)) (\<lambda>_.
         bindE (mapE Io (append_file E path bytes)) (\<lambda>_.
         bindE (mapE Io (sync_all E)) (\<lambda>_.
           returnE path)))))"

definition complete :: "os \<Rightarrow> path \<Rightarrow> world \<Rightarrow> world" where
  "complete E p w = snd (remove_file E p w)"

text \<open>\<open>a && b\<close> of two questions to the system: the second is asked only if the first holds.\<close>

definition both_exist :: "os \<Rightarrow> path \<Rightarrow> path \<Rightarrow> world \<Rightarrow> bool \<times> world" where
  "both_exist E p q w =
     (case path_exists E p w of (False, w) \<Rightarrow> (False, w) | (True, w) \<Rightarrow> path_exists E q w)"

definition replay_lock :: "crypto \<Rightarrow> os \<Rightarrow> byte list \<Rightarrow> jrecord \<Rightarrow> world \<Rightarrow> recovery_action option \<times> world" where
  "replay_lock cr E hmac_key rec w =
     (case path_exists E (j_staging rec) w of
        (True, w) \<Rightarrow> (Some (RolledBackLock (j_staging rec)), snd (remove_file E (j_staging rec) w))
      | (False, w) \<Rightarrow>
          (case both_exist E (j_folder rec) (j_container rec) w of
             (False, w) \<Rightarrow> (None, w)
           | (True, w) \<Rightarrow>
               (case verify_structure cr E (j_container rec) hmac_key w of
                  (Inl _, w) \<Rightarrow> (None, w)
                | (Inr _, w) \<Rightarrow>
                    (case recycle E (j_folder rec) w of
                       (Inl _, w) \<Rightarrow> (None, w)
                     | (Inr _, w) \<Rightarrow> (Some (FinishedLock (j_folder rec)), w)))))"

definition replay_unlock :: "os \<Rightarrow> jrecord \<Rightarrow> world \<Rightarrow> recovery_action option \<times> world" where
  "replay_unlock E rec w =
     (case path_exists E (j_staging rec) w of
        (True, w) \<Rightarrow> (Some (RolledBackUnlock (j_staging rec)), snd (remove_dir_all E (j_staging rec) w))
      | (False, w) \<Rightarrow>
          (case both_exist E (j_folder rec) (j_container rec) w of
             (False, w) \<Rightarrow> (None, w)
           | (True, w) \<Rightarrow>
               (let w = snd (set_readonly E (j_container rec) False w)
                in case recycle E (j_container rec) w of
                     (Inl _, w) \<Rightarrow> (None, w)
                   | (Inr _, w) \<Rightarrow> (Some (FinishedUnlock (j_container rec)), w))))"

definition replay :: "crypto \<Rightarrow> os \<Rightarrow> byte list \<Rightarrow> jrecord \<Rightarrow> world \<Rightarrow> recovery_action option \<times> world" where
  "replay cr E hmac_key rec w =
     (case j_op rec of LockOp \<Rightarrow> replay_lock cr E hmac_key rec w | UnlockOp \<Rightarrow> replay_unlock E rec w)"

text \<open>One leftover file of the journal directory, then all of them.\<close>

definition recover_item :: "crypto \<Rightarrow> jrecord codec \<Rightarrow> os \<Rightarrow> byte list \<Rightarrow> path \<Rightarrow> world \<Rightarrow> recovery_action list \<times> world" where
  "recover_item cr jc E hmac_key path w =
     (if extension path \<noteq> Some ''jrec'' then ([], w)
      else case open_read E path w of
             (Inl _, w) \<Rightarrow> ([], w)
           | (Inr bytes, w) \<Rightarrow>
               (case de jc bytes of
                  None \<Rightarrow> ([], snd (remove_file E path w))
                | Some rec \<Rightarrow>
                    (case replay cr E hmac_key rec w of
                       (a, w) \<Rightarrow> (case a of None \<Rightarrow> [] | Some x \<Rightarrow> [x], snd (remove_file E path w)))))"

primrec recover_items ::
  "crypto \<Rightarrow> jrecord codec \<Rightarrow> os \<Rightarrow> byte list \<Rightarrow> path \<Rightarrow> string list \<Rightarrow> world \<Rightarrow> recovery_action list \<times> world" where
  "recover_items cr jc E hmac_key dir [] w = ([], w)"
| "recover_items cr jc E hmac_key dir (n # ns) w =
     (case recover_item cr jc E hmac_key (dir @ [n]) w of
        (a, w) \<Rightarrow> (case recover_items cr jc E hmac_key dir ns w of (rest, w) \<Rightarrow> (a @ rest, w)))"

definition recover :: "crypto \<Rightarrow> jrecord codec \<Rightarrow> os \<Rightarrow> byte list \<Rightarrow> path \<Rightarrow> recovery_action list vio" where
  "recover cr jc E hmac_key dir =
     bindE (mapE Io (read_dir E dir)) (\<lambda>names w.
       case recover_items cr jc E hmac_key dir names w of (actions, w) \<Rightarrow> (Inr actions, w))"

end
