(* ===== verification/Vault.thy ===== *)
theory Vault
  imports Authorize Extract Journal
begin

text \<open>
  \<open>crates/vault-core/src/format.rs\<close>, \<open>lock_folder\<close> and \<open>unlock_container\<close>: the two operations that
  replace a folder by a container and back. Both stage their result beside the original, move it
  into place by one rename, and only then remove the original.
\<close>

section \<open>The code\<close>

definition ask :: "(world \<Rightarrow> bool \<times> world) \<Rightarrow> bool vio" where
  "ask q w = (case q w of (b, w) \<Rightarrow> (Inr b, w))"

definition some_or :: "verror \<Rightarrow> 'a option \<Rightarrow> verror + 'a" where
  "some_or e x = (case x of None \<Rightarrow> Inl e | Some a \<Rightarrow> Inr a)"

text \<open>\<open>write_container\<close>, removing the temporary file when it fails.\<close>

definition write_staged ::
  "crypto \<Rightarrow> entry list codec \<Rightarrow> os \<Rightarrow> path \<Rightarrow> path \<Rightarrow> entry list \<Rightarrow> u64 \<Rightarrow> byte list \<Rightarrow> byte list \<Rightarrow>
     lock_options \<Rightarrow> byte list vio" where
  "write_staged cr bc E src tmp entries tot password hmac_key opts w =
     (case write_container cr bc E src tmp entries tot password hmac_key opts w of
        (Inr uuid, w) \<Rightarrow> (Inr uuid, w)
      | (Inl e, w) \<Rightarrow> (Inl e, snd (remove_file E tmp w)))"

text \<open>The journal record, when there is a journal; its path is kept for \<open>complete\<close>.\<close>

definition begin_record ::
  "jrecord codec \<Rightarrow> os \<Rightarrow> path option \<Rightarrow> byte list \<Rightarrow> jrecord \<Rightarrow> path option vio" where
  "begin_record jc E journal uuid rec =
     (case journal of None \<Rightarrow> returnE None
      | Some dir \<Rightarrow> bindE (journal_begin jc E dir uuid rec) (\<lambda>p. returnE (Some p)))"

definition end_record :: "os \<Rightarrow> path option \<Rightarrow> unit vio" where
  "end_record E record w =
     (case record of None \<Rightarrow> (Inr (), w) | Some p \<Rightarrow> (Inr (), complete E p w))"

definition remove_original :: "os \<Rightarrow> lock_options \<Rightarrow> path \<Rightarrow> entry list \<Rightarrow> unit vio" where
  "remove_original E opts src entries w =
     (if secure_delete opts then mapE Io (remove_dir_all E src) (wipe_tree E src entries w)
      else if recycle_original opts then mapE Io (recycle E src) w
      else mapE Io (remove_dir_all E src) w)"

text \<open>
  Locking in two phases. Staging, up to the journal record: the container is written beside the
  folder. Commit: the rename, then the removal of the original.
\<close>

definition lock_stage ::
  "crypto \<Rightarrow> entry list codec \<Rightarrow> jrecord codec \<Rightarrow> os \<Rightarrow> path \<Rightarrow> path \<Rightarrow> path \<Rightarrow> byte list \<Rightarrow> byte list \<Rightarrow>
     lock_options \<Rightarrow> path option \<Rightarrow> (entry list \<times> path option) vio" where
  "lock_stage cr bc jc E src dest tmp password hmac_key opts journal =
     bindE (ask (path_exists E tmp)) (\<lambda>stale.
     bindE (if stale then mapE Io (remove_file E tmp) else returnE ()) (\<lambda>_.
     bindE (scan E src) (\<lambda>sc.
     bindE (write_staged cr bc E src tmp (scan_entries sc) (scan_total sc) password hmac_key opts) (\<lambda>uuid.
     bindE (begin_record jc E journal uuid
              \<lparr>j_op = LockOp, j_folder = src, j_container = dest, j_staging = tmp\<rparr>) (\<lambda>record.
       returnE (scan_entries sc, record))))))"

definition lock_finish :: "os \<Rightarrow> path \<Rightarrow> path \<Rightarrow> lock_options \<Rightarrow> entry list \<Rightarrow> path option \<Rightarrow> path vio" where
  "lock_finish E src dest opts entries record =
     bindE (remove_original E opts src entries) (\<lambda>_.
     bindE (if readonly_container opts then ignoreE (set_readonly E dest True) else returnE ()) (\<lambda>_.
     bindE (end_record E record) (\<lambda>_.
       returnE dest)))"

definition lock_folder ::
  "crypto \<Rightarrow> entry list codec \<Rightarrow> jrecord codec \<Rightarrow> os \<Rightarrow> path \<Rightarrow> byte list \<Rightarrow> byte list \<Rightarrow> lock_options \<Rightarrow>
     path option \<Rightarrow> path vio" where
  "lock_folder cr bc jc E src password hmac_key opts journal =
     bindE (liftR (some_or (Other ''folder has no name'') (file_name src))) (\<lambda>name.
     bindE (liftR (some_or (Other ''folder has no parent'') (parent src))) (\<lambda>par.
     let dest = par @ [name @ ''.fvlt'']; tmp = par @ [name @ ''.fvlt.tmp'']
     in bindE (ask (path_exists E dest)) (\<lambda>there.
        if there then throwE (Exists dest)
        else
          bindE (lock_stage cr bc jc E src dest tmp password hmac_key opts journal) (\<lambda>(entries, record).
          bindE (mapE Io (rename E tmp dest)) (\<lambda>_.
            lock_finish E src dest opts entries record)))))"

text \<open>
  The payload of an opened container up to its manifest. The macro \<open>bail!\<close> re-arms the read-only
  guard before it returns an error; \<open>rearm_on\<close> does so for a step that may fail.
\<close>

definition rearm_on :: "os \<Rightarrow> path \<Rightarrow> bool \<Rightarrow> 'a vio \<Rightarrow> 'a vio" where
  "rearm_on E c was_readonly m w =
     (case m w of (Inl e, w) \<Rightarrow> bail E c was_readonly e w | (Inr x, w) \<Rightarrow> (Inr x, w))"

definition read_manifest ::
  "crypto \<Rightarrow> entry list codec \<Rightarrow> os \<Rightarrow> chunk_cipher \<Rightarrow> u64 \<Rightarrow> byte list \<Rightarrow> (entry list \<times> byte list) vio" where
  "read_manifest cr bc E cc n_entries r =
     bindE (read_frame_into E MAX_MANIFEST_LEN r) (\<lambda>(nonce, blob, r).
     bindE (liftR (open_in_place cr cc MANIFEST_SEQ nonce blob)) (\<lambda>manifest.
     bindE (liftR (some_or Tampered (de bc manifest))) (\<lambda>entries.
       if word_of_nat (length entries) \<noteq> n_entries then throwE Tampered else returnE (entries, r))))"

text \<open>Extraction into the staging directory, which is removed again when it fails.\<close>

definition extract_staged ::
  "crypto \<Rightarrow> os \<Rightarrow> chunk_cipher \<Rightarrow> path \<Rightarrow> u64 \<Rightarrow> entry list \<Rightarrow> byte list \<Rightarrow> unit vio" where
  "extract_staged cr E cc tmpdir plen entries r w =
     (case extract_entries cr E cc tmpdir plen entries r 0 0 w of
        (Inr _, w) \<Rightarrow> (Inr (), w)
      | (Inl e, w) \<Rightarrow> (Inl e, snd (remove_dir_all E tmpdir w)))"

text \<open>Unlocking in the same two phases.\<close>

definition unlock_stage ::
  "crypto \<Rightarrow> jrecord codec \<Rightarrow> os \<Rightarrow> path \<Rightarrow> path \<Rightarrow> path \<Rightarrow> header \<Rightarrow> key \<Rightarrow> bool \<Rightarrow> entry list \<Rightarrow> byte list \<Rightarrow>
     path option \<Rightarrow> path option vio" where
  "unlock_stage cr jc E container dest tmpdir header dk was_readonly entries r journal =
     bindE (ask (path_exists E tmpdir)) (\<lambda>stale.
     bindE (if stale then mapE Io (remove_dir_all E tmpdir) else returnE ()) (\<lambda>_.
     bindE (mapE Io (create_dir E tmpdir)) (\<lambda>_.
     bindE (rearm_on E container was_readonly
              (extract_staged cr E (cc_new dk (h_uuid header)) tmpdir (payload_len header) entries r)) (\<lambda>_.
       begin_record jc E journal (h_uuid header)
         \<lparr>j_op = UnlockOp, j_folder = dest, j_container = container, j_staging = tmpdir\<rparr>))))"

definition unlock_finish :: "os \<Rightarrow> path \<Rightarrow> path \<Rightarrow> path option \<Rightarrow> path vio" where
  "unlock_finish E container dest record =
     bindE (ignoreE (set_readonly E container False)) (\<lambda>_.
     bindE (mapE Io (recycle E container)) (\<lambda>_.
     bindE (end_record E record) (\<lambda>_.
       returnE dest)))"

definition unlock_container ::
  "crypto \<Rightarrow> entry list codec \<Rightarrow> jrecord codec \<Rightarrow> os \<Rightarrow> path \<Rightarrow> credential \<Rightarrow> byte list \<Rightarrow> u64 \<Rightarrow>
     path option \<Rightarrow> path vio" where
  "unlock_container cr bc jc E container cred hmac_key now journal =
     bindE (open_and_authorize cr E container cred hmac_key now) (\<lambda>(rest, header, dk, was_readonly).
     bindE (rearm_on E container was_readonly
              (read_manifest cr bc E (cc_new dk (h_uuid header)) (entry_count header) rest)) (\<lambda>(entries, r).
     bindE (liftR (some_or (Other ''container has no name'') (file_stem container))) (\<lambda>stem.
     bindE (liftR (some_or (Other ''container has no parent'') (parent container))) (\<lambda>par.
     let dest = par @ [stem]; tmpdir = par @ [stem @ ''.__restoring'']
     in bindE (ask (path_exists E dest)) (\<lambda>there.
        if there then bail E container was_readonly (Exists dest)
        else
          bindE (unlock_stage cr jc E container dest tmpdir header dk was_readonly entries r journal) (\<lambda>record.
          bindE (mapE Io (rename E tmpdir dest)) (\<lambda>_.
            unlock_finish E container dest record)))))))"

section \<open>Which paths the phases touch\<close>

lemma touched: "keeps (changes_only P) m \<Longrightarrow> changes_only P w (snd (m w))"
  by (simp add: keeps_def)

lemma scan_touches [touches]: "keeps (changes_only P) (scan E root)"
proof -
  have "keeps (changes_only P) (walk_into E root dir acc)" for dir acc
  proof (rule keepsI)
    fix w :: world
    obtain r w1 where rd: "read_dir E dir w = (r, w1)" by fastforce
    have "changes_only P w w1" using keepsD [OF reading_touches(6) rd] .
    then show "changes_only P w (snd (walk_into E root dir acc w))"
      by (auto simp: walk_into_def rd changes_only_def split: sum.split prod.split)
  qed
  then show ?thesis unfolding scan_def by (intro keeps_intros touches)
qed

lemma ask_touches [touches]: "keeps (changes_only P) (ask (path_exists E p))"
  by (simp add: keeps_def ask_def path_exists_def changes_only_def)

definition is_record :: "path option \<Rightarrow> path \<Rightarrow> bool" where
  "is_record journal q \<longleftrightarrow> (\<exists>dir uuid. journal = Some dir \<and> q = record_path dir uuid)"

text \<open>A journal kept away from a tree: not inside it, and the tree is not a file of the journal.\<close>

definition journal_apart :: "path option \<Rightarrow> path \<Rightarrow> bool" where
  "journal_apart journal p \<longleftrightarrow> (\<forall>dir. journal = Some dir \<longrightarrow> \<not> prefix p dir \<and> butlast p \<noteq> dir)"

lemma record_apart: "journal_apart journal p \<Longrightarrow> is_record journal q \<Longrightarrow> \<not> prefix p q"
  by (auto simp: journal_apart_def is_record_def record_path_def prefix_snoc)

lemma record_not_container: "is_record journal q \<Longrightarrow> q \<noteq> par @ [name @ ''.fvlt'']"
  and record_not_staging: "is_record journal q \<Longrightarrow> q \<noteq> par @ [name @ ''.fvlt.tmp'']"
proof -
  have l: "last (last (record_path dir u)) = CHR ''c''" for dir u by (simp add: record_path_def)
  have "last (last (par @ [name @ ''.fvlt''])) = CHR ''t''"
    "last (last (par @ [name @ ''.fvlt.tmp''])) = CHR ''p''" by simp_all
  then have "record_path dir u \<noteq> par @ [name @ ''.fvlt'']" "record_path dir u \<noteq> par @ [name @ ''.fvlt.tmp'']" for dir u
    using l [of dir u] by auto
  then show "is_record journal q \<Longrightarrow> q \<noteq> par @ [name @ ''.fvlt'']"
    "is_record journal q \<Longrightarrow> q \<noteq> par @ [name @ ''.fvlt.tmp'']"
    by (auto simp: is_record_def)
qed

lemma journal_begin_touches [touches]: "P (record_path dir uuid) \<Longrightarrow> keeps (changes_only P) (journal_begin jc E dir uuid rec)"
  unfolding journal_begin_def Let_def by (intro keeps_intros touches)

lemma begin_record_touches [touches]:
  assumes "\<And>q. is_record journal q \<Longrightarrow> P q"
  shows "keeps (changes_only P) (begin_record jc E journal uuid rec)"
proof (cases journal)
  case None
  then show ?thesis by (simp add: begin_record_def keeps_def changes_only_def)
next
  case (Some dir)
  then have "P (record_path dir uuid)" using assms by (auto simp: is_record_def)
  then show ?thesis unfolding begin_record_def Some option.case by (intro keeps_intros touches)
qed

lemma journal_begin_Inr: "journal_begin jc E dir uuid rec w = (Inr p, w') \<Longrightarrow> p = record_path dir uuid"
  by (auto simp: journal_begin_def Let_def bindE_Inr_iff split: sum.splits)

lemma begin_record_Inr:
  "begin_record jc E journal uuid rec w = (Inr (Some p), w') \<Longrightarrow> is_record journal p"
  unfolding begin_record_def is_record_def
  by (cases journal) (auto simp: bindE_Inr_iff dest: journal_begin_Inr)

lemma end_record_touches [touches]:
  assumes "\<And>p. record = Some p \<Longrightarrow> P p"
  shows "keeps (changes_only P) (end_record E record)"
proof (rule keepsI)
  fix w :: world
  show "changes_only P w (snd (end_record E record w))"
    using assms writing_touches(7) [of P _ E]
    by (cases "record") (simp_all add: end_record_def complete_def keeps_def changes_only_def)
qed

lemma write_staged_touches [touches]:
  assumes "P tmp"
  shows "keeps (changes_only P) (write_staged cr bc E src tmp es tot pw hk opts)"
proof (rule keepsI)
  fix w :: world
  obtain r w1 where wc: "write_container cr bc E src tmp es tot pw hk opts w = (r, w1)" by fastforce
  have c: "changes_only P w w1" using keepsD [OF write_container_touches wc] assms by blast
  have "changes_only P w1 (snd (remove_file E tmp w1))" by (rule touched) (intro touches assms)
  with c show "changes_only P w (snd (write_staged cr bc E src tmp es tot pw hk opts w))"
    by (cases r) (simp_all add: write_staged_def wc changes_trans)
qed

lemma lock_stage_touches:
  assumes "P tmp" and "\<And>q. is_record journal q \<Longrightarrow> P q"
  shows "keeps (changes_only P) (lock_stage cr bc jc E src dest tmp pw hk opts journal)"
  unfolding lock_stage_def by (intro keeps_intros touches assms)

text \<open>Wiping and removing the original stay inside it.\<close>

lemma write_loop_touches: "P p \<Longrightarrow> changes_only P w (wipe_loop E p remaining pos w)"
proof (induction E p remaining pos w rule: wipe_loop.induct)
  case (1 E p remaining pos w)
  show ?case
  proof (cases "remaining = 0")
    case True
    then show ?thesis by (simp add: wipe_loop.simps changes_only_def)
  next
    case False
    obtain r w1 where wr: "write_at E p pos (replicate (next_chunk remaining) 0) w = (r, w1)" by fastforce
    have c: "changes_only P w w1" using keepsD [OF writing_touches(5) wr] 1(2) by blast
    show ?thesis
    proof (cases r)
      case (Inl e)
      with False wr c show ?thesis by (simp add: wipe_loop.simps [of E p remaining] Let_def)
    next
      case (Inr u)
      have "changes_only P w1 (wipe_loop E p (remaining - word_of_nat (next_chunk remaining)) (pos + next_chunk remaining) w1)"
        using 1(1) [OF False refl wr [symmetric] Inr] 1(2) .
      with False wr Inr changes_trans [OF c] show ?thesis by (simp add: wipe_loop.simps [of E p remaining] Let_def)
    qed
  qed
qed

lemma wipe_file_touches: "P p \<Longrightarrow> changes_only P w (wipe_file E p sz w)"
proof -
  assume P: "P p"
  note tr = changes_trans [of P]
  define w1 where "w1 = (case metadata E p w of
       (Inr meta, w) \<Rightarrow> if node_readonly meta then snd (set_permissions E p False w) else w | (Inl _, w) \<Rightarrow> w)"
  have k: "changes_only P u (snd (set_permissions E p False u))" "changes_only P u (snd (sync_all E u))"
    "changes_only P u (snd (open_rw E p u))" "changes_only P u (snd (metadata E p u))" for u
    by (rule touched, intro touches P)+
  have "changes_only P w w1"
    using k(4) [of w] tr [OF k(4) [of w] k(1)] unfolding w1_def
    by (cases "metadata E p w") (simp split: sum.split)
  moreover have "changes_only P w1 (wipe_file E p sz w)"
  proof (cases "open_rw E p w1")
    case (Pair r w2)
    have "changes_only P w1 w2" using k(3) [of w1] Pair by simp
    moreover have "changes_only P u (wipe_loop E p sz 0 u)" for u using P by (rule write_loop_touches)
    ultimately have "changes_only P w1 w2" "changes_only P w1 (snd (sync_all E (wipe_loop E p sz 0 w2)))"
      using tr k(2) by blast+
    then show ?thesis
      unfolding wipe_file_def w1_def [symmetric] Let_def Pair by (simp split: sum.split)
  qed
  ultimately show ?thesis by (rule tr)
qed

lemma wipe_tree_touches:
  assumes "\<And>q. strict_prefix src q \<Longrightarrow> P q"
  shows "changes_only P w (wipe_tree E src es w)"
proof (induction es arbitrary: w)
  case Nil
  show ?case by (simp add: changes_only_def)
next
  case (Cons e es)
  have "changes_only P w (wipe_file E p sz w)" if "safe_join src (rel_path e) = Inr p" for p sz
    using assms safe_join_strict [OF that] by (intro wipe_file_touches) blast
  then have "changes_only P w (wipe_tree E src es (wipe_file E p sz w))"
    if "safe_join src (rel_path e) = Inr p" for p sz
    using that Cons changes_trans by blast
  with Cons show ?case by (auto split: sum.split)
qed

lemma remove_original_touches [touches]:
  assumes "\<And>q. prefix src q \<Longrightarrow> P q"
  shows "keeps (changes_only P) (remove_original E opts src es)"
proof (rule keepsI)
  fix w :: world
  have P: "P q" if "strict_prefix src q" for q using that assms by (simp add: strict_prefix_def)
  have m: "changes_only P u (snd (mapE Io (remove_dir_all E src) u))" "changes_only P u (snd (mapE Io (recycle E src) u))" for u
    by (rule touched, intro keeps_mapE touches assms, assumption)+
  have "changes_only P w (wipe_tree E src es w)" using P by (rule wipe_tree_touches)
  from changes_trans [OF this m(1)] m show "changes_only P w (snd (remove_original E opts src es w))"
    by (simp add: remove_original_def)
qed

section \<open>Locking\<close>

text \<open>The content of a file, whatever its attributes.\<close>

definition content_at :: "world \<Rightarrow> path \<Rightarrow> byte list \<Rightarrow> bool" where
  "content_at w p c \<longleftrightarrow> (\<exists>d. lookup w p = Some (File d) \<and> f_content d = c)"

lemma content_elsewhere: "changes_only P w w' \<Longrightarrow> \<not> P p \<Longrightarrow> content_at w p c \<Longrightarrow> content_at w' p c"
  by (simp add: content_at_def changes_only_def)

lemma set_readonly_content: "content_at w p c \<Longrightarrow> content_at (snd (set_readonly E q ro w)) p c"
proof -
  assume c: "content_at w p c"
  obtain r w1 where m: "metadata E q w = (r, w1)" by fastforce
  have "content_at w1 p c"
    using content_elsewhere [OF keepsD [OF reading_touches(2) m, of "\<lambda>_. False"]] c by simp
  then have "content_at (snd (set_permissions E q ro w1)) p c"
    by (auto simp: set_permissions_def sysop_def Let_def unspoiled_def content_at_def lookup_put_file)
  with m \<open>content_at w1 p c\<close> show ?thesis by (cases r) (simp_all add: set_readonly_def bindE_def)
qed

text \<open>What staging leaves when it succeeds.\<close>

lemma write_staged_Inr:
  "write_staged cr bc E src tmp es tot pw hk opts w = (Inr u, w') \<longleftrightarrow>
     write_container cr bc E src tmp es tot pw hk opts w = (Inr u, w')"
  by (auto simp: write_staged_def split: prod.splits sum.splits)

definition holds_folder ::
  "crypto \<Rightarrow> entry list codec \<Rightarrow> os \<Rightarrow> byte list \<Rightarrow> byte list \<Rightarrow> lock_options \<Rightarrow> world \<Rightarrow> path \<Rightarrow> byte list \<Rightarrow> bool" where
  "holds_folder cr bc E hk pw opts w src c \<longleftrightarrow>
     (\<exists>h dk es datas ds fl. sealed_container cr bc hk pw c h dk es datas \<and> enrolled_with cr opts h dk
        \<and> es = map (entry_at E src (w_fs w)) (ds @ fl)
        \<and> listed (w_fs w) {p. strict_prefix src p} ds fl
        \<and> list_all2 (file_of w src) (files_of es) datas)"

lemma remove_file_wf: "wf_fs (w_fs w) \<Longrightarrow> wf_fs (w_fs (snd (remove_file E p w)))"
proof -
  assume wf: "wf_fs (w_fs w)"
  have "wf_fs (del p (w_fs w))" if "lookup w p = Some n" "n \<noteq> Dir" for n
  proof -
    have "distinct (map fst (del p (w_fs w)))"
      using wf by (simp add: wf_fs_def del_def distinct_map_filter)
    moreover have "butlast q = [] \<or> get (del p (w_fs w)) (butlast q) = Some Dir"
      if "get (del p (w_fs w)) q = Some m" for q m
    proof -
      have "get (w_fs w) q = Some m" using that by (simp split: if_splits)
      then have "butlast q = [] \<or> get (w_fs w) (butlast q) = Some Dir" using wf unfolding wf_fs_def by blast
      then show ?thesis using \<open>lookup w p = Some n\<close> \<open>n \<noteq> Dir\<close> by (auto simp: lookup_def)
    qed
    moreover have "get (del p (w_fs w)) [] = None" using wf by (simp add: wf_fs_def)
    ultimately show ?thesis unfolding wf_fs_def by blast
  qed
  then show ?thesis
    using wf by (auto simp: remove_file_def sysop_def Let_def unspoiled_def upd_fs_def
        split: option.split node.split)
qed

lemma holds_folder_cong:
  assumes same: "\<And>q. prefix src q \<Longrightarrow> lookup w q = lookup w' q"
    and "holds_folder cr bc E hk pw opts w src c"
  shows "holds_folder cr bc E hk pw opts w' src c"
proof -
  obtain h dk es datas ds fl where h: "sealed_container cr bc hk pw c h dk es datas" "enrolled_with cr opts h dk"
    "es = map (entry_at E src (w_fs w)) (ds @ fl)" "listed (w_fs w) {p. strict_prefix src p} ds fl"
    "list_all2 (file_of w src) (files_of es) datas"
    using assms(2) unfolding holds_folder_def by blast
  have get: "get (w_fs w) q = get (w_fs w') q" if "strict_prefix src q" for q
    using same [of q] that by (simp add: lookup_def strict_prefix_def)
  have l: "listed (w_fs w') {p. strict_prefix src p} ds fl"
    using h(4) get unfolding listed_def by (simp add: conj_commute cong: conj_cong)
  have "entry_at E src (w_fs w) q = entry_at E src (w_fs w') q" if "q \<in> set (ds @ fl)" for q
    using get [of q] that h(4) by (auto simp: entry_at_def listed_def)
  then have "es = map (entry_at E src (w_fs w')) (ds @ fl)" using h(3) by (simp cong: map_cong)
  moreover have "list_all2 (file_of w' src) (files_of es) datas"
    using h(5)
  proof (rule list_all2_mono)
    fix e data
    assume "file_of w src e data"
    then show "file_of w' src e data"
      unfolding file_of_def using same safe_join_strict by (metis strict_prefix_def)
  qed
  ultimately show ?thesis using h(1,2) l unfolding holds_folder_def by blast
qed

lemma lock_stage_Inr:
  assumes ok: "crypto_ok cr" "codec_ok bc" and wf: "wf_fs (w_fs w)" and src: "src \<noteq> []" "\<not> prefix src tmp"
    and notrec: "\<not> is_record journal tmp"
    and st: "lock_stage cr bc jc E src dest tmp pw hk opts journal w = (Inr (es, record), w')"
  shows "\<exists>c. content_at w' tmp c \<and> holds_folder cr bc E hk pw opts w src c"
    and "record = Some p \<Longrightarrow> is_record journal p"
    and "lookup w src = Some Dir"
proof -
  let ?P = "\<lambda>q. q = tmp"
  obtain stale w1 u2 w2 sc w3 uuid w4 where
    1: "ask (path_exists E tmp) w = (Inr stale, w1)"
    and 2: "(if stale then mapE Io (remove_file E tmp) else returnE ()) w1 = (Inr u2, w2)"
    and 3: "scan E src w2 = (Inr sc, w3)" and es: "es = scan_entries sc"
    and 4: "write_container cr bc E src tmp es (scan_total sc) pw hk opts w3 = (Inr uuid, w4)"
    and 5: "begin_record jc E journal uuid
              \<lparr>j_op = LockOp, j_folder = src, j_container = dest, j_staging = tmp\<rparr> w4 = (Inr record, w')"
    using st unfolding lock_stage_def bindE_Inr_iff write_staged_Inr returnE_simp by blast
  have w1: "w_fs w1 = w_fs w" using 1 by (auto simp: ask_def path_exists_def)
  have w2: "w2 = (if stale then snd (remove_file E tmp w1) else w1)"
    using 2 by (cases stale) (auto simp: mapE_Inr_iff)
  have wf2: "wf_fs (w_fs w2)" using wf w1 remove_file_wf [of w1] by (simp add: w2)
  have c2: "changes_only ?P w w2"
  proof -
    have "changes_only ?P w1 (snd (remove_file E tmp w1))" by (rule touched) (intro touches refl)
    then show ?thesis using w1 by (simp add: w2 changes_only_def lookup_def)
  qed
  obtain ds fl where l: "listed (w_fs w2) {p. strict_prefix src p} ds fl"
    "es = map (entry_at E src (w_fs w2)) (ds @ fl)" "w_fs w3 = w_fs w2" and root: "get (w_fs w2) src = Some Dir"
    using scan_listed [OF 3 wf2 src(1)] es by metis
  show "lookup w src = Some Dir" using root c2 src(2) by (auto simp: changes_only_def lookup_def)
  have "\<not> strict_prefix src tmp" using src(2) by (simp add: strict_prefix_def)
  from write_container_Inr [OF ok this 4] obtain d h dk datas where
    w: "lookup w4 tmp = Some (File d)" "sealed_container cr bc hk pw (f_content d) h dk es datas"
      "enrolled_with cr opts h dk" "list_all2 (file_of w3 src) (files_of es) datas" by blast
  have "file_of w3 src = file_of w2 src" using l(3) by (simp add: fun_eq_iff file_of_def lookup_def)
  then have "holds_folder cr bc E hk pw opts w2 src (f_content d)"
    using w l unfolding holds_folder_def by metis
  then have hf: "holds_folder cr bc E hk pw opts w src (f_content d)"
    by (rule holds_folder_cong [rotated]) (use c2 src(2) in \<open>auto simp: changes_only_def\<close>)
  have "changes_only (is_record journal) w4 w'"
    by (rule keepsD [OF begin_record_touches 5])
  then have "content_at w' tmp (f_content d)"
    using w(1) notrec by (simp add: content_at_def changes_only_def)
  with hf show "\<exists>c. content_at w' tmp c \<and> holds_folder cr bc E hk pw opts w src c" by blast
  show "record = Some p \<Longrightarrow> is_record journal p" using begin_record_Inr 5 by blast
qed

lemma remove_dir_all_gone: "remove_dir_all E p w = (Inr u, w') \<Longrightarrow> prefix p q \<Longrightarrow> lookup w' q = None"
  by (auto simp: remove_dir_all_def sysop_Inr lookup_upd split: option.splits node.splits)

lemma recycle_gone:
  assumes "recycle E p w = (Inr u, w')" and "lookup w p = Some Dir" and "prefix p q"
  shows "lookup w' q = None"
proof -
  obtain b w1 where r: "recycle_win E p w = (b, w1)" by fastforce
  show ?thesis
  proof (cases b)
    case True
    with r assms(1,3) show ?thesis
      by (auto simp: recycle_def recycle_win_def Let_def lookup_upd split: if_splits)
  next
    case False
    with r have "lookup w1 p = Some Dir" using assms(2) by (auto simp: recycle_win_def Let_def split: if_splits)
    with assms(1) r False obtain w2 where "remove_dir_all E p w2 = (Inr u, w')"
      by (auto simp: recycle_def path_is_dir_def remove_file_def sysop_Inr split: if_splits)
    then show ?thesis using assms(3) by (rule remove_dir_all_gone)
  qed
qed

lemma remove_original_gone:
  assumes "remove_original E opts src es w = (Inr u, w')" and "lookup w src = Some Dir" and "prefix src q"
  shows "lookup w' q = None"
  using assms remove_dir_all_gone recycle_gone
  by (auto simp: remove_original_def mapE_Inr_iff split: if_splits)

definition lock_dest :: "path \<Rightarrow> path" where
  "lock_dest src = butlast src @ [last src @ ''.fvlt'']"

definition lock_tmp :: "path \<Rightarrow> path" where
  "lock_tmp src = butlast src @ [last src @ ''.fvlt.tmp'']"

lemma beside:
  assumes "src \<noteq> []" and "x \<noteq> last src"
  shows "\<not> prefix src (butlast src @ [x])" and "\<not> prefix (butlast src @ [x]) src"
proof -
  have "src = butlast src @ [last src]" using assms(1) by simp
  then show "\<not> prefix src (butlast src @ [x])" "\<not> prefix (butlast src @ [x]) src"
    using assms(2) by (metis last_snoc prefix_order.eq_iff prefix_length_prefix length_append_singleton order_refl)+
qed

lemma lock_paths:
  assumes "src \<noteq> []"
  shows "\<not> prefix src (lock_dest src)" and "\<not> prefix src (lock_tmp src)" and "lock_dest src \<noteq> lock_tmp src"
    and "\<not> is_record journal (lock_dest src)" and "\<not> is_record journal (lock_tmp src)"
proof -
  show "\<not> prefix src (lock_dest src)" "\<not> prefix src (lock_tmp src)"
    unfolding lock_dest_def lock_tmp_def by (intro beside assms; simp)+
  show "lock_dest src \<noteq> lock_tmp src" by (simp add: lock_dest_def lock_tmp_def)
  show "\<not> is_record journal (lock_dest src)" "\<not> is_record journal (lock_tmp src)"
    unfolding lock_dest_def lock_tmp_def using record_not_container record_not_staging by blast+
qed

lemma rename_Inl: "rename E p q w = (Inl e, w') \<Longrightarrow> w_fs w' = w_fs w"
  by (auto simp: rename_def sysop_def Let_def unspoiled_def split: if_splits option.splits node.splits)

text \<open>The end of locking never touches the content of the container.\<close>

lemma lock_finish_content:
  assumes src: "src \<noteq> []" and rec: "\<And>p. record = Some p \<Longrightarrow> is_record journal p"
    and c: "content_at w (lock_dest src) c"
  shows "content_at (snd (lock_finish E src (lock_dest src) opts es record w)) (lock_dest src) c"
proof -
  let ?d = "lock_dest src"
  let ?R = "\<lambda>w w'. content_at w ?d c \<longrightarrow> content_at w' ?d c"
  have pre: "preorderS ?R" by (simp add: preorderS_def)
  have els: "keeps ?R m" if "keeps (changes_only (\<lambda>q. q \<noteq> ?d)) m" for m :: "unit vio"
    using that content_elsewhere unfolding keeps_def by blast
  have "keeps ?R (remove_original E opts src es)"
    by (rule els) (use lock_paths(1) [OF src] in \<open>auto intro!: touches\<close>)
  moreover have "keeps ?R (if readonly_container opts then ignoreE (set_readonly E ?d True) else returnE ())"
    using set_readonly_content pre by (simp add: keeps_def)
  moreover have "keeps ?R (end_record E record)"
    by (rule els, intro touches) (use rec lock_paths(4) [OF src] in blast)
  ultimately have "keeps ?R (lock_finish E src ?d opts es record)"
    unfolding lock_finish_def by (intro keeps_bindE keeps_returnE pre)
  with c show ?thesis by (simp add: keeps_def)
qed

lemma lock_folder_phases:
  assumes "src \<noteq> []" and "last src \<noteq> ''..''"
  shows "lock_folder cr bc jc E src pw hk opts journal =
     bindE (ask (path_exists E (lock_dest src))) (\<lambda>there.
       if there then throwE (Exists (lock_dest src))
       else bindE (lock_stage cr bc jc E src (lock_dest src) (lock_tmp src) pw hk opts journal) (\<lambda>(entries, record).
            bindE (mapE Io (rename E (lock_tmp src) (lock_dest src))) (\<lambda>_.
              lock_finish E src (lock_dest src) opts entries record)))"
  using assms unfolding lock_dest_def lock_tmp_def
  by (simp add: lock_folder_def file_name_def parent_def some_or_def Let_def)

lemma lock_folder_no_name:
  "src = [] \<or> last src = ''..'' \<Longrightarrow>
     lock_folder cr bc jc E src pw hk opts journal w = (Inl (Other ''folder has no name''), w)"
  by (auto simp: lock_folder_def file_name_def some_or_def bindE_def)

lemma lock_finish_gone:
  assumes src: "src \<noteq> []" and ja: "journal_apart journal src"
    and rec: "\<And>p. record = Some p \<Longrightarrow> is_record journal p" and dir: "lookup w src = Some Dir"
    and fin: "lock_finish E src (lock_dest src) opts es record w = (Inr p, w')"
  shows "p = lock_dest src \<and> (\<forall>q. prefix src q \<longrightarrow> lookup w' q = None)"
proof -
  let ?P = "\<lambda>q. q = lock_dest src \<or> is_record journal q"
  from fin obtain u1 w1 u2 w2 u3 where 1: "remove_original E opts src es w = (Inr u1, w1)"
    and 2: "(if readonly_container opts then ignoreE (set_readonly E (lock_dest src) True) else returnE ()) w1
      = (Inr u2 :: verror + unit, w2)"
    and 3: "end_record E record w2 = (Inr u3, w')" and p: "p = lock_dest src"
    unfolding lock_finish_def bindE_Inr_iff returnE_simp by blast
  have "keeps (changes_only ?P) (if readonly_container opts then ignoreE (set_readonly E (lock_dest src) True)
      else returnE () :: unit vio)"
    by (intro keeps_intros touches) simp
  from keepsD [OF this 2] have "changes_only ?P w1 w2" .
  moreover have "keeps (changes_only ?P) (end_record E record)" by (intro touches) (simp add: rec)
  from keepsD [OF this 3] have "changes_only ?P w2 w'" .
  ultimately have "changes_only ?P w1 w'" by (rule changes_trans)
  moreover have "\<not> ?P q" if "prefix src q" for q
    using that lock_paths(1) [OF src] record_apart [OF ja] by blast
  ultimately show ?thesis
    using remove_original_gone [OF 1 dir] p by (simp add: changes_only_def)
qed

section \<open>Unlocking\<close>

text \<open>Steps that keep the container through staging.\<close>

lemma grows_keeps_keys: "keeps (grows P) m \<Longrightarrow> \<not> P c \<Longrightarrow> keeps (keeps_keys cr k c h rest) m"
  unfolding keeps_def keeps_keys_def keys_on_disk_def container_file_def by (blast dest: growsD)

lemma remove_dir_all_keeps_keys:
  assumes "\<not> strict_prefix p c" and "c \<noteq> []"
  shows "keeps (keeps_keys cr k c h rest) (remove_dir_all E p)"
proof (cases "p = c")
  case True
  have "lookup (snd (remove_dir_all E c w)) c = lookup w c" if "lookup w c = Some (File d)" for w d
    using that assms(2)
    by (auto simp: remove_dir_all_def sysop_def Let_def is_dir_path_def lookup_upd partly_removed_def)
  then show ?thesis
    unfolding keeps_def keeps_keys_def keys_on_disk_def container_file_def True by metis
next
  case False
  with assms have "\<not> prefix p c" by (simp add: strict_prefix_def)
  then show ?thesis by (intro elsewhere_keeps_keys touches) blast
qed

lemma rearm_on_keeps [key_safe]:
  assumes "keeps (keeps_keys cr k c h rest) m"
  shows "keeps (keeps_keys cr k c h rest) (rearm_on E c ro m)"
proof (rule keepsI)
  fix w :: world
  obtain r w1 where m: "m w = (r, w1)" by fastforce
  have 1: "keeps_keys cr k c h rest w w1" using assms m by (rule keepsD)
  have "keeps_keys cr k c h rest w1 (rearm E c ro w1)"
    using set_readonly_keeps_keys [of cr k c h rest E c True] by (simp add: rearm_def keeps_def keeps_keys_def)
  with 1 m show "keeps_keys cr k c h rest w (snd (rearm_on E c ro m w))"
    by (cases r) (simp_all add: rearm_on_def bail_def keeps_keys_def)
qed

lemma ask_keeps [key_safe]: "keeps (keeps_keys cr k c h rest) (ask (path_exists E p))"
  by (intro elsewhere_keeps_keys touches)

lemma begin_record_keeps:
  assumes "\<not> is_record journal c"
  shows "keeps (keeps_keys cr k c h rest) (begin_record jc E journal uuid rec)"
  by (intro elsewhere_keeps_keys touches) (use assms in blast)

lemma read_manifest_keeps: "keeps (keeps_keys cr k c h rest) (read_manifest cr' bc E cc n r)"
  unfolding read_manifest_def
  by (intro elsewhere_keeps_keys keeps_intros touches read_frame_touches)

lemma extract_staged_keeps:
  assumes "\<not> strict_prefix tmp c" and "c \<noteq> []"
  shows "keeps (keeps_keys cr k c h rest) (extract_staged cr' E cc tmp plen es r)"
proof (rule keepsI)
  fix w :: world
  have "c \<notin> targets tmp es" using assms(1) safe_join_strict by (auto simp: targets_def)
  then have k: "keeps (keeps_keys cr k c h rest) (extract_entries cr' E cc tmp plen es r 0 0)"
    by (intro grows_keeps_keys [of "\<lambda>q. q \<in> targets tmp es"] growing)
  obtain x w1 where x: "extract_entries cr' E cc tmp plen es r 0 0 w = (x, w1)" by fastforce
  have "keeps_keys cr k c h rest w w1" using k x by (rule keepsD)
  moreover have "keeps_keys cr k c h rest w1 (snd (remove_dir_all E tmp w1))"
    using remove_dir_all_keeps_keys [OF assms] by (simp add: keeps_def)
  ultimately show "keeps_keys cr k c h rest w (snd (extract_staged cr' E cc tmp plen es r w))"
    by (cases x) (simp_all add: extract_staged_def x keeps_keys_def)
qed

lemma unlock_stage_keeps:
  assumes tmp: "\<not> strict_prefix tmp c" "c \<noteq> []" and rec: "\<not> is_record journal c"
  shows "keeps (keeps_keys cr k c h rest) (unlock_stage cr' jc E c dest tmp g dk ro es r journal)"
proof -
  have "keeps (keeps_keys cr k c h rest) (create_dir E tmp)"
    by (rule grows_keeps_keys [of "\<lambda>_. False"]) (intro growing, simp)
  then show ?thesis
    unfolding unlock_stage_def
    by (intro keeps_intros key_safe remove_dir_all_keeps_keys extract_staged_keeps begin_record_keeps tmp rec)
qed

lemma read_manifest_Inr:
  assumes "read_manifest cr bc E cc n r w = (Inr (es, y), w')"
  shows "\<exists>m manifest. r = frame_bytes m @ y \<and> frame_ok MAX_MANIFEST_LEN m
     \<and> open_in_place cr cc MANIFEST_SEQ (fst m) (snd m) = Inr manifest \<and> de bc manifest = Some es
     \<and> word_of_nat (length es) = n"
proof -
  from assms obtain nonce blob manifest w1 where rd: "read_frame_into E MAX_MANIFEST_LEN r w = (Inr (nonce, blob, y), w1)"
    and o: "open_in_place cr cc MANIFEST_SEQ nonce blob = Inr manifest" and d: "de bc manifest = Some es"
    and n: "word_of_nat (length es) = n"
    by (auto simp: read_manifest_def bindE_Inr_iff some_or_def split: option.splits if_splits)
  have "frame_ok MAX_MANIFEST_LEN (nonce, blob)" "r = frame_bytes (nonce, blob) @ y"
    using read_frame_into_Inr [OF rd] by simp_all
  with o d n show ?thesis by (intro exI [of _ "(nonce, blob)"]) auto
qed

text \<open>
  The payload starts with the frames of this manifest and these file contents (\<open>unlock\<close> ignores
  what follows them); the folder at \<open>root\<close> is the one they describe.
\<close>

definition payload_starts ::
  "crypto \<Rightarrow> entry list codec \<Rightarrow> chunk_cipher \<Rightarrow> byte list \<Rightarrow> entry list \<Rightarrow> byte list list \<Rightarrow> bool" where
  "payload_starts cr bc cc payload es datas \<longleftrightarrow> (\<exists>p y. payload = p @ y \<and> payload_opens cr bc cc p es datas)"

lemma payload_startsI:
  assumes "rest = frame_bytes m @ y" and "frame_ok MAX_MANIFEST_LEN m"
    and "open_in_place cr cc MANIFEST_SEQ (fst m) (snd m) = Inr manifest" and "de bc manifest = Some es"
    and "y = concat (map frame_bytes fs) @ z" and "frames_open cr cc 0 fs (concat (map split_chunks datas))"
  shows "payload_starts cr bc cc rest es datas"
proof -
  have "payload_opens cr bc cc (frame_bytes m @ concat (map frame_bytes fs)) es datas"
    using assms(2-4,6) unfolding payload_opens_def by blast
  moreover have "rest = (frame_bytes m @ concat (map frame_bytes fs)) @ z" using assms(1,5) by simp
  ultimately show ?thesis unfolding payload_starts_def by blast
qed

definition folder_restored :: "os \<Rightarrow> world \<Rightarrow> path \<Rightarrow> entry list \<Rightarrow> byte list list \<Rightarrow> bool" where
  "folder_restored E w root es datas \<longleftrightarrow>
     list_all2 (restored E w root) (files_of es) datas \<and> (\<forall>e \<in> set es. e_is_dir e \<longrightarrow> dir_restored w root e)"

definition entries_restored :: "os \<Rightarrow> world \<Rightarrow> path \<Rightarrow> entry list \<Rightarrow> byte list list \<Rightarrow> bool" where
  "entries_restored E w root es datas \<longleftrightarrow>
     files_restored E w root (files_of es) datas \<and> (\<forall>e \<in> set es. e_is_dir e \<longrightarrow> dir_restored w root e)"

lemma entries_restored_distinct:
  "entries_restored E w root es datas \<Longrightarrow> distinct_targets root es \<Longrightarrow> folder_restored E w root es datas"
  by (simp add: entries_restored_def folder_restored_def distinct_targets_def files_restored_distinct)

lemma safe_join_reroot: "safe_join root rel = Inr (root @ ns) \<longleftrightarrow> safe_join root' rel = Inr (root' @ ns)"
  by (auto simp: safe_join_def join_components_Inr)

lemma safe_join_Inr_root: "safe_join root rel = Inr p \<Longrightarrow> \<exists>ns. p = root @ ns \<and> safe_join root' rel = Inr (root' @ ns)"
  by (metis safe_join_Inr safe_join_reroot)

lemma safe_join_same:
  assumes "safe_join root a = safe_join root b"
  shows "safe_join root' a = safe_join root' b"
proof (cases "safe_join root a")
  case (Inl e)
  then have "safe_join root b = Inl e" using assms by simp
  have "safe_join root' c = Inl Tampered" if "safe_join root c = Inl e" for c
    using that safe_join_Inr_root [of root' c _ root]
    by (cases "safe_join root' c") (auto simp: safe_join_def dest: join_components_Inl split: if_splits)
  with Inl \<open>safe_join root b = Inl e\<close> show ?thesis by simp
next
  case (Inr p)
  then show ?thesis using assms safe_join_Inr_root by (metis safe_join_reroot)
qed

lemma distinct_targets_reroot: "distinct_targets root es \<Longrightarrow> distinct_targets root' es"
  unfolding distinct_targets_def distinct_map inj_on_def using safe_join_same by blast

lemma folder_restored_move:
  assumes "\<And>q. lookup w' (dest @ q) = lookup w (tmp @ q)" and "folder_restored E w tmp es datas"
  shows "folder_restored E w' dest es datas"
proof -
  have "restored E w' dest e data" if "restored E w tmp e data" for e data
    using that safe_join_Inr_root [of tmp "rel_path e" _ dest] assms(1) unfolding restored_def by metis
  moreover have "dir_restored w' dest e" if "dir_restored w tmp e" for e
    using that safe_join_Inr_root [of tmp "rel_path e" _ dest] assms(1) unfolding dir_restored_def by metis
  ultimately show ?thesis
    using assms(2) unfolding folder_restored_def by (blast intro: list_all2_mono)
qed

lemma files_restored_move:
  assumes "\<And>q. lookup w' (dest @ q) = lookup w (tmp @ q)" and "files_restored E w tmp es datas"
  shows "files_restored E w' dest es datas"
  using assms
proof (induction E w tmp es datas rule: files_restored.induct)
  case (2 E w tmp e es data datas)
  have "restored E w' dest e data" if "restored E w tmp e data"
    using that safe_join_Inr_root [of tmp "rel_path e" _ dest] 2(2) unfolding restored_def by metis
  moreover have "safe_join dest (rel_path e) \<in> (\<lambda>e. safe_join dest (rel_path e)) ` set es"
    if "safe_join tmp (rel_path e) \<in> (\<lambda>e. safe_join tmp (rel_path e)) ` set es"
  proof -
    from that obtain x where "x \<in> set es" "safe_join tmp (rel_path e) = safe_join tmp (rel_path x)" by (rule imageE)
    then show ?thesis using safe_join_same by (metis imageI)
  qed
  moreover have "files_restored E w tmp es datas" using 2(3) by simp
  note 2(1) [OF 2(2) this]
  ultimately show ?case using 2(3) unfolding files_restored.simps(2) by blast
qed simp_all

lemma entries_restored_move:
  assumes "\<And>q. lookup w' (dest @ q) = lookup w (tmp @ q)" and "entries_restored E w tmp es datas"
  shows "entries_restored E w' dest es datas"
proof -
  have "dir_restored w' dest e" if "dir_restored w tmp e" for e
    using that safe_join_Inr_root [of tmp "rel_path e" _ dest] assms(1) unfolding dir_restored_def by metis
  with files_restored_move [OF assms(1)] assms(2) show ?thesis unfolding entries_restored_def by blast
qed

lemma entries_restored_elsewhere:
  assumes "changes_only P w w'" and "\<And>q. P q \<Longrightarrow> \<not> prefix root q" and "entries_restored E w root es datas"
  shows "entries_restored E w' root es datas"
proof (rule entries_restored_move [OF _ assms(3)])
  fix q
  show "lookup w' (root @ q) = lookup w (root @ q)"
    using assms(1,2) by (metis changes_onlyD prefixI)
qed

lemma unlock_stage_Inr:
  assumes st: "unlock_stage cr jc E c dest tmp g dk ro es y journal w = (Inr record, w')"
    and tmp: "tmp \<noteq> []" and ja: "journal_apart journal tmp"
  shows "lookup w' tmp = Some Dir" and "\<And>p. record = Some p \<Longrightarrow> is_record journal p"
    and "\<exists>datas fs z. y = concat (map frame_bytes fs) @ z
      \<and> frames_open cr (cc_new dk (h_uuid g)) 0 fs (concat (map split_chunks datas)) \<and> entries_restored E w' tmp es datas"
proof -
  let ?cc = "cc_new dk (h_uuid g)"
  from st obtain w1 u2 w2 u3 w3 where mk: "create_dir E tmp w1 = (Inr u2, w2)"
    and ex: "rearm_on E c ro (extract_staged cr E ?cc tmp (payload_len g) es y) w2 = (Inr u3, w3)"
    and bg: "begin_record jc E journal (h_uuid g)
         \<lparr>j_op = UnlockOp, j_folder = dest, j_container = c, j_staging = tmp\<rparr> w3 = (Inr record, w')"
    unfolding unlock_stage_def bindE_Inr_iff mapE_Inr_iff by blast
  obtain u4 where ex': "extract_entries cr E ?cc tmp (payload_len g) es y 0 0 w2 = (Inr u4, w3)"
    using ex by (auto simp: rearm_on_def extract_staged_def bail_def split: prod.splits sum.splits)
  have c: "changes_only (is_record journal) w3 w'"
    by (rule keepsD [OF begin_record_touches bg])
  have nr: "\<not> prefix tmp q" if "is_record journal q" for q using record_apart [OF ja that] .
  have "grows (\<lambda>q. q \<in> targets tmp es) w2 w3"
    by (rule keepsD [OF extract_entries_grows ex'])
  then have "lookup w3 tmp = Some Dir" using create_dir_Inr [OF mk] by (blast dest: growsD)
  moreover have "\<not> is_record journal tmp" using nr by blast
  ultimately show "lookup w' tmp = Some Dir" using c by (simp add: changes_only_def)
  show "\<And>p. record = Some p \<Longrightarrow> is_record journal p" using begin_record_Inr bg by blast
  obtain datas fs z where "y = concat (map frame_bytes fs) @ z"
    "frames_open cr ?cc 0 fs (concat (map split_chunks datas))" "entries_restored E w3 tmp es datas"
    using extract_entries_Inr [OF ex'] unfolding entries_restored_def by blast
  with entries_restored_elsewhere [OF c nr] show "\<exists>datas fs z. y = concat (map frame_bytes fs) @ z
      \<and> frames_open cr ?cc 0 fs (concat (map split_chunks datas)) \<and> entries_restored E w' tmp es datas"
    by blast
qed

lemma recycle_removes: "recycle E p w = (Inr u, w') \<Longrightarrow> lookup w' p = None"
  by (auto simp: recycle_def recycle_win_def path_is_dir_def remove_dir_all_def remove_file_def sysop_Inr Let_def
      lookup_upd split: prod.splits if_splits option.splits node.splits)

definition unlock_dest :: "path \<Rightarrow> path" where
  "unlock_dest c = butlast c @ [fst (split_name (last c))]"

definition unlock_tmp :: "path \<Rightarrow> path" where
  "unlock_tmp c = butlast c @ [fst (split_name (last c)) @ ''.__restoring'']"

lemma unlock_paths:
  assumes "c \<noteq> []"
  shows "\<not> strict_prefix (unlock_tmp c) c" and "unlock_dest c \<noteq> c \<Longrightarrow> \<not> prefix c (unlock_dest c @ q)"
    and "journal_apart journal (unlock_dest c) \<Longrightarrow> \<not> is_record journal c"
    and "\<not> prefix (unlock_tmp c) (unlock_dest c)" and "unlock_tmp c \<noteq> []"
proof -
  have len: "length (unlock_tmp c) = length c" "length (unlock_dest c) = length c"
    using assms by (simp_all add: unlock_tmp_def unlock_dest_def)
  show "\<not> strict_prefix (unlock_tmp c) c" using len prefix_length_less by force
  show "\<not> prefix c (unlock_dest c @ q)" if "unlock_dest c \<noteq> c"
    using that len unfolding prefix_def by (metis append_eq_append_conv)
  show "\<not> is_record journal c" if "journal_apart journal (unlock_dest c)"
    using that by (auto simp: is_record_def journal_apart_def record_path_def unlock_dest_def)
  show "\<not> prefix (unlock_tmp c) (unlock_dest c)" by (simp add: unlock_tmp_def unlock_dest_def)
  show "unlock_tmp c \<noteq> []" by (simp add: unlock_tmp_def)
qed

lemma unlock_commit_outcome:
  assumes run: "bindE (unlock_stage cr jc E c (unlock_dest c) (unlock_tmp c) g dk ro es y journal) (\<lambda>record.
       bindE (mapE Io (rename E (unlock_tmp c) (unlock_dest c))) (\<lambda>_. unlock_finish E c (unlock_dest c) record)) w = (r, w')"
    and c: "c \<noteq> []" and k: "keys_on_disk cr hk c h rest w"
    and ja: "journal_apart journal (unlock_dest c)" "journal_apart journal (unlock_tmp c)"
  shows "(isl r \<and> keys_on_disk cr hk c h rest w')
    \<or> ((\<exists>datas fs z. y = concat (map frame_bytes fs) @ z
             \<and> frames_open cr (cc_new dk (h_uuid g)) 0 fs (concat (map split_chunks datas))
             \<and> entries_restored E w' (unlock_dest c) es datas)
        \<and> lookup w' (unlock_dest c) = Some Dir
        \<and> (\<forall>p. r = Inr p \<longrightarrow> p = unlock_dest c \<and> lookup w' c = None))"
proof -
  let ?K = "keys_on_disk cr hk c h rest" and ?R = "keeps_keys cr hk c h rest"
  let ?d = "unlock_dest c" and ?t = "unlock_tmp c"
  note paths = unlock_paths [OF c]
  have nrc: "\<not> is_record journal c" using paths(3) ja(1) by blast
  have stk: "?K v" if "unlock_stage cr jc E c ?d ?t g dk ro es y journal w = (x, v)" for x v
    using keepsD [OF unlock_stage_keeps [OF paths(1) c nrc] that] k by (simp add: keeps_keys_def)
  from run show ?thesis
  proof (cases rule: bindE_outcome)
    case (failed e)
    with stk show ?thesis by simp
  next
    case (went_on rc w1)
    note st = this(1)
    note stage = unlock_stage_Inr [OF st paths(5) ja(2)]
    have k1: "?K w1" using st by (rule stk)
    from went_on(2) show ?thesis
    proof (cases rule: bindE_outcome)
      case (failed e)
      then obtain e' where "rename E ?t ?d w1 = (Inl e', w')" by (auto simp: mapE_Inl_iff)
      then have "w_fs w' = w_fs w1" by (rule rename_Inl)
      with k1 failed(2) show ?thesis using keys_on_disk_cong [of w' c w1] by (simp add: lookup_def)
    next
      case (went_on u w2)
      then have rn: "rename E ?t ?d w1 = (Inr u, w2)" by (simp add: mapE_Inr_iff)
      have "lookup w1 c \<noteq> None" using k1 by (auto simp: keys_on_disk_def container_file_def)
      moreover have "lookup w1 ?d = None"
        using rn stage(1) by (auto simp: rename_def sysop_Inr occupied_def split: if_splits)
      ultimately have apart: "?d \<noteq> c" by auto
      let ?P = "\<lambda>q. prefix c q \<or> is_record journal q"
      have "keeps (changes_only ?P) (unlock_finish E c ?d rc)"
        unfolding unlock_finish_def by (intro keeps_intros touches) (auto dest: stage(2))
      from keepsD [OF this went_on(2)] have fin: "changes_only ?P w2 w'" .
      have out: "\<not> prefix ?d q" if "?P q" for q
        using that paths(2) [OF apart] record_apart [OF ja(1)] by (auto simp: prefix_def)
      have moved: "entries_restored E w' ?d es datas" if "entries_restored E w1 ?t es datas" for datas
        using entries_restored_elsewhere [OF fin out entries_restored_move [OF rename_dir_Inr [OF rn stage(1)] that]] .
      have "lookup w2 ?d = Some Dir" using rename_dir_Inr [OF rn stage(1), of "[]"] stage(1) by simp
      moreover have "\<not> ?P ?d" using out [of ?d] by blast
      ultimately have there: "lookup w' ?d = Some Dir" using fin by (simp add: changes_only_def)
      have "p = ?d \<and> lookup w' c = None" if "r = Inr p" for p
      proof -
        from went_on(2) that obtain u2 w3 u3 w4 u4 where rcy: "recycle E c w3 = (Inr u3, w4)"
          and er: "end_record E rc w4 = (Inr u4, w')" and p: "p = ?d"
          unfolding unlock_finish_def by (auto simp: bindE_Inr_iff mapE_Inr_iff)
        have "keeps (changes_only (is_record journal)) (end_record E rc)" by (intro touches) (rule stage(2))
        from keepsD [OF this er] have "lookup w' c = lookup w4 c" using nrc by (simp add: changes_only_def)
        with recycle_removes [OF rcy] p show ?thesis by simp
      qed
      then show ?thesis
        using stage(3) moved there by blast
    qed
  qed
qed

lemma lock_folder_outcome:
  assumes ok: "crypto_ok cr" "codec_ok bc" and wf: "wf_fs (w_fs w)" and ja: "journal_apart journal src"
    and free: "lookup w (lock_dest src) = None"
    and run: "lock_folder cr bc jc E src pw hk opts journal w = (r, w')"
  shows "((\<forall>q. prefix src q \<longrightarrow> lookup w' q = lookup w q) \<and> lookup w' (lock_dest src) = None \<and> isl r)
    \<or> ((\<exists>c. content_at w' (lock_dest src) c \<and> holds_folder cr bc E hk pw opts w src c)
        \<and> (\<forall>p. r = Inr p \<longrightarrow> p = lock_dest src \<and> (\<forall>q. prefix src q \<longrightarrow> lookup w' q = None)))"
proof (cases "src = [] \<or> last src = ''..''")
  case True
  with run free show ?thesis by (auto simp: lock_folder_no_name)
next
  case False
  note named = this
  then have src: "src \<noteq> []" by simp
  let ?d = "lock_dest src" and ?t = "lock_tmp src"
  let ?P = "\<lambda>q. q = ?t \<or> is_record journal q"
  note paths = lock_paths [OF src]
  have intact: "(\<forall>q. prefix src q \<longrightarrow> lookup u q = lookup w q) \<and> lookup u ?d = None"
    if "changes_only ?P w u" for u
  proof -
    have "\<not> ?P q" if "prefix src q \<or> q = ?d" for q
      using that paths record_apart [OF ja, of q] by auto
    with \<open>changes_only ?P w u\<close> free show ?thesis by (simp add: changes_only_def)
  qed
  obtain b w1 where ask: "ask (path_exists E ?d) w = (Inr b, w1)" "changes_only ?P w w1"
    "w_fs w1 = w_fs w" by (simp add: ask_def path_exists_def changes_only_def)
  show ?thesis
  proof (cases b)
    case True
    then have "r = Inl (Exists ?d)" "w' = w1"
      using run ask False by (simp_all add: lock_folder_phases bindE_def)
    with intact [OF ask(2)] show ?thesis by simp
  next
    case False
    obtain st w2 where st: "lock_stage cr bc jc E src ?d ?t pw hk opts journal w1 = (st, w2)" by fastforce
    have "keeps (changes_only ?P) (lock_stage cr bc jc E src ?d ?t pw hk opts journal)"
      by (rule lock_stage_touches) simp_all
    from changes_trans [OF ask(2) keepsD [OF this st]] have c2: "changes_only ?P w w2" .
    have run': "bindE (lock_stage cr bc jc E src ?d ?t pw hk opts journal) (\<lambda>(entries, record).
        bindE (mapE Io (rename E ?t ?d)) (\<lambda>_. lock_finish E src ?d opts entries record)) w1 = (r, w')"
      using run ask(1) \<open>\<not> b\<close> named by (simp add: lock_folder_phases bindE_step(2) [where m = "ask _", OF ask(1)])
    show ?thesis
    proof (cases st)
      case (Inl e)
      with run' st have "r = Inl e" "w' = w2" by (simp_all add: bindE_def)
      with intact [OF c2] show ?thesis by simp
    next
      case (Inr x)
      obtain es rc where x: "x = (es, rc)" by fastforce
      have "wf_fs (w_fs w1)" using wf ask(3) by simp
      note stage = lock_stage_Inr [OF ok this src paths(2,5) st [unfolded Inr x]]
      obtain c where c: "content_at w2 ?t c" "holds_folder cr bc E hk pw opts w src c"
        using stage(1) ask(3) holds_folder_cong [of src w1 w] by (auto simp: lookup_def)
      have dir: "lookup w src = Some Dir" using stage(3) ask(3) by (simp add: lookup_def)
      obtain rn w3 where rn: "rename E ?t ?d w2 = (rn, w3)" by fastforce
      show ?thesis
      proof (cases rn)
        case (Inl e)
        with run' st Inr x rn have "r = Inl (Io e)" "w' = w3" by (simp_all add: bindE_def mapE_def)
        moreover have "lookup w3 q = lookup w2 q" for q
          using rename_Inl [OF rn [unfolded Inl]] by (simp add: lookup_def)
        ultimately show ?thesis using intact [OF c2] by simp
      next
        case (Inr u)
        have fin: "lock_finish E src ?d opts es rc w3 = (r, w')"
          using run' st \<open>st = Inr x\<close> x rn Inr by (simp add: bindE_def mapE_def)
        have c3: "content_at w3 ?d c"
          using c(1) rename_file_Inr [OF rn [unfolded Inr]] by (auto simp: content_at_def)
        have "changes_only (\<lambda>q. prefix ?t q \<or> prefix ?d q) w2 w3"
          by (rule keepsD [OF rename_touches rn]) simp_all
        moreover have "\<not> prefix ?t src" "\<not> prefix ?d src"
          unfolding lock_dest_def lock_tmp_def by (intro beside src; simp)+
        ultimately have d3: "lookup w3 src = Some Dir" using intact [OF c2] dir by (simp add: changes_only_def)
        have recs: "is_record journal p" if "rc = Some p" for p using that by (rule stage(2))
        have "content_at w' ?d c"
          using lock_finish_content [OF src recs c3, of rc E opts es] fin by simp
        moreover have "p = ?d \<and> (\<forall>q. prefix src q \<longrightarrow> lookup w' q = None)" if "r = Inr p" for p
          using lock_finish_gone [OF src ja recs d3, of rc E opts es p w'] fin that by simp
        ultimately show ?thesis using c(2) by blast
      qed
    qed
  qed
qed

lemma unlock_container_outcome:
  assumes cf: "container_file cr hk w c h rest ro" and mac: "hmac_len_ok cr"
    and ja: "journal_apart journal (unlock_dest c)" "journal_apart journal (unlock_tmp c)"
    and run: "unlock_container cr bc jc E c cred hk now journal w = (r, w')"
  shows "(isl r \<and> keys_on_disk cr hk c h rest w')
    \<or> (\<exists>dk es datas. fst (decide cr cred now (clamp_foreign h)) = Inr dk
        \<and> payload_starts cr bc (cc_new dk (h_uuid h)) rest es datas
        \<and> lookup w' (unlock_dest c) = Some Dir
        \<and> entries_restored E w' (unlock_dest c) es datas
        \<and> (distinct_targets (unlock_dest c) es \<longrightarrow> folder_restored E w' (unlock_dest c) es datas)
        \<and> (\<forall>p. r = Inr p \<longrightarrow> p = unlock_dest c \<and> lookup w' c = None))"
proof -
  let ?K = "keys_on_disk cr hk c h rest" and ?R = "keeps_keys cr hk c h rest"
  let ?d = "unlock_dest c" and ?t = "unlock_tmp c"
  have step: "?K u" if "keeps ?R m" "m v = (x, u)" "?K v" for m :: "'x vio" and x u v
    using keepsD [OF that(1,2)] that(3) by (simp add: keeps_keys_def)
  from run [unfolded unlock_container_def] show ?thesis
  proof (cases rule: bindE_outcome)
    case (failed e)
    then show ?thesis using authorize_keeps_keys [OF cf mac, of E cred now] by simp
  next
    case (went_on a w1)
    obtain rest' g dk ro1 where a: "a = (rest', g, dk, ro1)" by (metis prod_cases4)
    have k1: "?K w1" using authorize_keeps_keys [OF cf mac, of E cred now] went_on(1) by simp
    note au = authorize_Inr [OF cf went_on(1) [unfolded a]]
    let ?cc = "cc_new dk (h_uuid h)"
    have hu: "h_uuid g = h_uuid h" using au by (simp add: clamp_foreign_def)
    from went_on(2) [unfolded a prod.case] show ?thesis
    proof (cases rule: bindE_outcome)
      case (failed e)
      then show ?thesis using step [OF rearm_on_keeps [OF read_manifest_keeps] failed(1) k1] by simp
    next
      case (went_on mf w2)
      obtain es y where mf: "mf = (es, y)" by fastforce
      have k2: "?K w2" using step [OF rearm_on_keeps [OF read_manifest_keeps] went_on(1) k1] .
      have rm: "\<exists>u. read_manifest cr bc E (cc_new dk (h_uuid g)) (entry_count g) rest' w1 = (Inr (es, y), u)"
        using went_on(1) mf by (auto simp: rearm_on_def bail_def split: prod.splits sum.splits)
      show ?thesis
      proof (cases "c = [] \<or> last c = ''..''")
        case True
        then have "r = Inl (Other ''container has no name'')" "w' = w2"
          using went_on(2) by (auto simp: mf file_stem_def file_name_def some_or_def bindE_def)
        with k2 show ?thesis by simp
      next
        case False
        then have c: "c \<noteq> []" by simp
        note paths = unlock_paths [OF c]
        have "bindE (ask (path_exists E ?d)) (\<lambda>there.
            if there then bail E c ro1 (Exists ?d)
            else bindE (unlock_stage cr jc E c ?d ?t g dk ro1 es y journal) (\<lambda>record.
              bindE (mapE Io (rename E ?t ?d)) (\<lambda>_. unlock_finish E c ?d record))) w2 = (r, w')"
          using went_on(2) False unfolding unlock_dest_def unlock_tmp_def
          by (simp add: mf file_stem_def file_name_def parent_def some_or_def Let_def)
        then show ?thesis
        proof (cases rule: bindE_outcome)
          case (failed e)
          then show ?thesis by (simp add: ask_def split: prod.splits)
        next
          case (went_on b w3)
          have k3: "?K w3" using step [OF ask_keeps went_on(1) k2] .
          show ?thesis
          proof (cases b)
            case True
            then have b: "bail E c ro1 (Exists ?d) w3 = (r, w')" using went_on(2) by simp
            then have "isl r" by (auto simp: bail_def)
            with step [OF bail_keeps_keys b k3] show ?thesis by simp
          next
            case False
            with went_on(2) have "bindE (unlock_stage cr jc E c ?d ?t g dk ro1 es y journal) (\<lambda>record.
                bindE (mapE Io (rename E ?t ?d)) (\<lambda>_. unlock_finish E c ?d record)) w3 = (r, w')" by simp
            note commit = unlock_commit_outcome [OF this c k3 ja]
            obtain m manifest where "rest = frame_bytes m @ y" "frame_ok MAX_MANIFEST_LEN m"
              "open_in_place cr ?cc MANIFEST_SEQ (fst m) (snd m) = Inr manifest" "de bc manifest = Some es"
              using rm read_manifest_Inr au unfolding hu by blast
            then have pay: "payload_starts cr bc ?cc rest es datas"
              if "y = concat (map frame_bytes fs) @ z" "frames_open cr ?cc 0 fs (concat (map split_chunks datas))" for fs z datas
              using that by (intro payload_startsI)
            from commit pay au entries_restored_distinct show ?thesis unfolding hu by blast
          qed
        qed
      qed
    qed
  qed
qed

text \<open>A record for the witnesses.\<close>

definition sample_record :: jrecord where
  "sample_record = \<lparr>j_op = LockOp, j_folder = [''f''], j_container = [''c''], j_staging = [''t'']\<rparr>"

section \<open>Properties\<close>

text \<open>
  C1: Locking never loses a folder. Whatever I/O errors occur, and wherever the process is
  killed: afterwards either the folder and everything below it is as it was and there is no
  container, or the container beside it is complete, holding every directory and file of the
  folder with its content under the given password (and the enrolled recovery key). If locking
  reports success, it is the second case, and nothing of the folder is left.
\<close>

theorem lock_never_loses:
  assumes ok: "crypto_ok cr" "codec_ok bc" and wf: "wf_fs (w_fs w)" and ja: "journal_apart journal src"
    and free: "lookup w (lock_dest src) = None"
    and run: "lock_folder cr bc jc E src pw hk opts journal w = (r, w')"
  shows "((\<forall>q. prefix src q \<longrightarrow> lookup w' q = lookup w q) \<and> lookup w' (lock_dest src) = None \<and> isl r)
    \<or> ((\<exists>c. content_at w' (lock_dest src) c \<and> holds_folder cr bc E hk pw opts w src c)
        \<and> (\<forall>p. r = Inr p \<longrightarrow> p = lock_dest src \<and> (\<forall>q. prefix src q \<longrightarrow> lookup w' q = None)))"
  using assms by (rule lock_folder_outcome)

theorem lock_never_loses_witness:
  "let E = calm\<lparr>os_fails := (\<lambda>n. 20 \<le> n)\<rparr>;
       w' = snd (lock_folder toy_crypto (sample_codec sample_entries) (sample_codec sample_record) E [''d''] [7] [9]
              sample_options None sample_world)
   in lookup w' [''d'', ''s'', ''a''] = Some (File sample_file)
     \<or> (\<exists>c. content_at w' [''d.fvlt''] c
          \<and> holds_folder toy_crypto (sample_codec sample_entries) E [9] [7] sample_options sample_world [''d''] c)"
proof -
  define E where "E = calm\<lparr>os_fails := (\<lambda>n. 20 \<le> n)\<rparr>"
  let ?run = "lock_folder toy_crypto (sample_codec sample_entries) (sample_codec sample_record) E [''d''] [7] [9]
              sample_options None sample_world"
  let ?holds = "\<lambda>c. holds_folder toy_crypto (sample_codec sample_entries) E [9] [7] sample_options sample_world [''d''] c"
  have d: "lock_dest [''d''] = [''d.fvlt'']" by (simp add: lock_dest_def)
  have f: "lookup sample_world [''d'', ''s'', ''a''] = Some (File sample_file)"
    "lookup sample_world (lock_dest [''d'']) = None"
    by (simp_all add: d lookup_def sample_world_def get_sample_fs)
  have p: "wf_fs (w_fs sample_world)" "journal_apart None [''d'']"
    by (simp_all add: sample_world_def journal_apart_def)
  have "(\<forall>q. prefix [''d''] q \<longrightarrow> lookup (snd ?run) q = lookup sample_world q)
      \<or> (\<exists>c. content_at (snd ?run) [''d.fvlt''] c \<and> ?holds c)"
    using lock_never_loses [where bc = "sample_codec sample_entries" and jc = "sample_codec sample_record" and E = E and pw = "[7]"
        and hk = "[9]" and opts = sample_options, OF toy_crypto_ok sample_codec_ok p f(2) prod.collapse [symmetric]] d by (elim disjE conjE) simp_all
  then have "lookup (snd ?run) [''d'', ''s'', ''a''] = Some (File sample_file)
      \<or> (\<exists>c. content_at (snd ?run) [''d.fvlt''] c \<and> ?holds c)"
    using f(1) by (elim disjE) simp_all
  then show ?thesis by (simp add: E_def [symmetric] Let_def)
qed

text \<open>
  C2: Unlocking never loses a folder. Whatever I/O errors occur, and wherever the process is
  killed: afterwards either the container is still there with its keys and its whole payload, or
  the credential was right, the payload begins with the manifest and the contents sealed under
  the data key, and the folder beside the container has every directory and every file of that
  manifest, with the decrypted content, the size and the read-only flag (and the modification
  time when no call failed). A manifest whose entries name one file twice leaves the last of
  them; no manifest written by locking does. If unlocking reports success, it is the second
  case, and the container is gone.
\<close>

theorem unlock_never_loses:
  assumes cf: "container_file cr hk w c h rest ro" and mac: "hmac_len_ok cr"
    and ja: "journal_apart journal (unlock_dest c)" "journal_apart journal (unlock_tmp c)"
    and run: "unlock_container cr bc jc E c cred hk now journal w = (r, w')"
  shows "(isl r \<and> keys_on_disk cr hk c h rest w')
    \<or> (\<exists>dk es datas. fst (decide cr cred now (clamp_foreign h)) = Inr dk
        \<and> payload_starts cr bc (cc_new dk (h_uuid h)) rest es datas
        \<and> lookup w' (unlock_dest c) = Some Dir
        \<and> entries_restored E w' (unlock_dest c) es datas
        \<and> (distinct_targets (unlock_dest c) es \<longrightarrow> folder_restored E w' (unlock_dest c) es datas)
        \<and> (\<forall>p. r = Inr p \<longrightarrow> p = unlock_dest c \<and> lookup w' c = None))"
  using assms by (rule unlock_container_outcome)

theorem unlock_never_loses_witness:
  "keys_on_disk toy_crypto [9] [''c''] sample_header [5]
     (snd (unlock_container toy_crypto (sample_codec []) (sample_codec sample_record) (calm\<lparr>os_fails := (\<lambda>n. 4 \<le> n)\<rparr>) [''c'']
        (Password [1]) [9] 50 (Some [''j'']) sample_disk))"
proof -
  have h: "clamp_foreign sample_header = sample_header" "h_kdf sample_header = kdf_default"
    "wrapped_dk_pw sample_header = replicate 60 3" "h_lockout sample_header = \<lparr>fail_count = 2, locked_until = 42\<rparr>"
    by (simp_all add: sample_header_def clamp_foreign_def)
  have "lockout_check \<lparr>fail_count = 2, locked_until = 42\<rparr> 50 = Inr ()"
    by (simp add: lockout_check_def word_less_nat_alt)
  then have "fst (decide toy_crypto (Password [1]) 50 (clamp_foreign sample_header)) \<noteq> Inr dk" for dk
    by (simp add: decide_def h sample_wrong)
  moreover have "journal_apart (Some [''j'']) (unlock_dest [''c''])" "journal_apart (Some [''j'']) (unlock_tmp [''c''])"
    by (simp_all add: journal_apart_def unlock_dest_def unlock_tmp_def split_name_def)
  ultimately show ?thesis
    using unlock_never_loses [OF sample_disk_own toy_hmac_len _ _ prod.collapse [symmetric], where journal = "Some [''j'']"
        and bc = "sample_codec []" and jc = "sample_codec sample_record" and E = "calm\<lparr>os_fails := (\<lambda>n. 4 \<le> n)\<rparr>"
        and cred = "Password [1]" and now = 50] by blast
qed

end
