(* ===== verification/Crash.thy ===== *)
theory Crash
  imports Vault
begin

text \<open>
  What the journal of \<open>crates/vault-core/src/journal.rs\<close> achieves: replaying a record removes
  nothing but the copy that the interrupted operation was about to remove; locking a folder,
  crashing at any point, and replaying the record never loses the folder; and a recovery that meets
  no I/O error rolls the lock back or finishes it, depending on whether it was killed before or
  after the rename.
\<close>

section \<open>What replaying touches\<close>

lemma path_exists_same: "path_exists E p w = (b, w') \<Longrightarrow> w' = w\<lparr>w_tick := Suc (w_tick w)\<rparr> \<and> (b \<longrightarrow> exists_path w p)"
  by (auto simp: path_exists_def)

lemma both_exist_same:
  "both_exist E p q w = (b, w') \<Longrightarrow> only_ticks w w' \<and> (b \<longrightarrow> exists_path w p \<and> exists_path w q)"
  by (auto simp: both_exist_def path_exists_def only_ticks_def split: bool.splits prod.splits)

lemma changes_refl [simp]: "changes_only P w w"
  by (simp add: changes_only_def)

lemma ticks_change_nothing: "only_ticks w w' \<Longrightarrow> changes_only P w w'"
  by (simp add: changes_only_def lookup_def only_ticks_fs)

lemma changes_weaken: "changes_only P w w' \<Longrightarrow> (\<And>q. P q \<Longrightarrow> Q q) \<Longrightarrow> changes_only Q w w'"
  by (auto simp: changes_only_def)

lemma verify_touches: "keeps (changes_only P) (verify_structure cr E p k)"
proof -
  have f: "keeps (changes_only P) (verify_frame E r)" for E r
    unfolding verify_frame_def by (intro keeps_intros touches read_touches; simp?)
  have "changes_only P w (snd (verify_loop E r n w))" for r n w
  proof (induction E r n w rule: verify_loop.induct)
    case (1 E r n w)
    obtain x w1 where rd: "read_some E 1 r w = (x, w1)" by fastforce
    have c1: "changes_only P w w1" by (rule keepsD [OF read_touches(2) rd])
    show ?case
    proof (cases "\<exists>probe rest. x = Inr (probe, rest) \<and> probe \<noteq> []")
      case False
      then have "snd (verify_loop E r n w) = w1"
        by (subst verify_loop.simps) (use rd in \<open>auto split: sum.split prod.split simp del: One_nat_def\<close>)
      with c1 show ?thesis by simp
    next
      case True
      then obtain probe rest where x: "x = Inr (probe, rest)" "probe \<noteq> []" by blast
      obtain y w2 where vf: "verify_frame E rest w1 = (y, w2)" by fastforce
      have c2: "changes_only P w w2" using changes_trans [OF c1 keepsD [OF f vf]] .
      show ?thesis
      proof (cases y)
        case (Inl e)
        then have "snd (verify_loop E r n w) = w2"
          by (subst verify_loop.simps) (use rd x vf in \<open>simp del: One_nat_def\<close>)
        with c2 show ?thesis by simp
      next
        case (Inr rest2)
        with vf have vf': "verify_frame E rest w1 = (Inr rest2, w2)" by simp
        have "changes_only P w2 (snd (verify_loop E rest2 (n + 1) w2))"
          using "1.IH" [OF rd [unfolded x, symmetric] refl refl x(2) vf' [symmetric] refl] .
        then show ?thesis
          using verify_loop_next [OF rd [unfolded x] x(2) vf'] changes_trans [OF c2] by simp
      qed
    qed
  qed
  then have "keeps (changes_only P) (verify_loop E r n)" for r n by (simp add: keeps_def)
  moreover have "keeps (changes_only P) (read_frame E n r)" for n r
    unfolding read_frame_def by (intro keeps_intros touches read_frame_touches)
  ultimately show ?thesis
    unfolding verify_structure_def by (intro keeps_intros touches read_touches)
qed

text \<open>
  \<open>structurally_complete\<close>: what \<open>verify_structure\<close> can find out about a container without keys.
\<close>

definition structurally_complete :: "crypto \<Rightarrow> byte list \<Rightarrow> world \<Rightarrow> path \<Rightarrow> bool" where
  "structurally_complete cr k w p \<longleftrightarrow>
     (\<exists>d h m fs. lookup w p = Some (File d) \<and> framed_as cr k (f_content d) h m fs)"

lemma replay_lock_changes:
  assumes "replay_lock cr E k rec w = (a, w')"
  shows "changes_only (\<lambda>q. q = j_staging rec
     \<or> prefix (j_folder rec) q \<and> structurally_complete cr k w (j_container rec)) w w'"
    (is "changes_only ?P w w'")
proof -
  obtain b w1 where 1: "path_exists E (j_staging rec) w = (b, w1)" by fastforce
  have c1: "changes_only ?P w w1" using path_exists_same [OF 1] by (simp add: changes_only_def)
  show ?thesis
  proof (cases b)
    case True
    have "changes_only ?P w1 (snd (remove_file E (j_staging rec) w1))" by (rule touched) (intro touches disjI1 refl)
    with assms 1 True changes_trans [OF c1] show ?thesis by (simp add: replay_lock_def)
  next
    case False
    obtain b2 w2 where 2: "both_exist E (j_folder rec) (j_container rec) w1 = (b2, w2)" by fastforce
    have c2: "changes_only ?P w w2"
      using changes_trans [OF c1 ticks_change_nothing] both_exist_same [OF 2] by blast
    obtain x w3 where 3: "verify_structure cr E (j_container rec) k w2 = (x, w3)" by fastforce
    have c3: "changes_only ?P w w3" using changes_trans [OF c2 keepsD [OF verify_touches 3]] .
    have "lookup w2 q = lookup w q" for q
      using 1 both_exist_same [OF 2] path_exists_same [OF 1] by (auto simp: lookup_def only_ticks_fs)
    then have sc: "structurally_complete cr k w (j_container rec)" if "\<exists>n. x = Inr n"
      using that verify_structure_Inr 3 unfolding structurally_complete_def by metis
    have c4: "changes_only ?P w3 (snd (recycle E (j_folder rec) w3))" if "\<exists>n. x = Inr n"
      by (rule touched, intro touches disjI2 conjI sc that)
    show ?thesis
      using assms 1 2 3 False c2 c3 c4 changes_trans [OF c3]
      by (auto simp: replay_lock_def split: bool.splits sum.splits prod.splits)
  qed
qed

lemma replay_unlock_changes:
  assumes "replay_unlock E rec w = (a, w')"
  shows "changes_only (\<lambda>q. prefix (j_staging rec) q
     \<or> prefix (j_container rec) q \<and> exists_path w (j_folder rec)) w w'"
    (is "changes_only ?P w w'")
proof -
  obtain b w1 where 1: "path_exists E (j_staging rec) w = (b, w1)" by fastforce
  have c1: "changes_only ?P w w1" using path_exists_same [OF 1] by (simp add: changes_only_def)
  show ?thesis
  proof (cases b)
    case True
    have "changes_only ?P w1 (snd (remove_dir_all E (j_staging rec) w1))" by (rule touched) (intro touches disjI1)
    with assms 1 True changes_trans [OF c1] show ?thesis by (simp add: replay_unlock_def)
  next
    case False
    obtain b2 w2 where 2: "both_exist E (j_folder rec) (j_container rec) w1 = (b2, w2)" by fastforce
    have c2: "changes_only ?P w w2"
      using changes_trans [OF c1 ticks_change_nothing] both_exist_same [OF 2] by blast
    have ex: "exists_path w (j_folder rec)" if b2
      using that both_exist_same [OF 2] path_exists_same [OF 1] by (simp add: exists_path_def)
    let ?w3 = "snd (set_readonly E (j_container rec) False w2)"
    have c3: "changes_only ?P w ?w3" if b2
      by (rule changes_trans [OF c2 touched], intro touches disjI2 conjI ex that) simp
    have c4: "changes_only ?P ?w3 (snd (recycle E (j_container rec) ?w3))" if b2
      by (rule touched, intro touches disjI2 conjI ex that)
    show ?thesis
      using assms 1 2 False c2 c4 changes_trans [OF c3]
      by (auto simp: replay_unlock_def Let_def split: bool.splits sum.splits prod.splits)
  qed
qed

section \<open>Records\<close>

lemma hex_digit_inj: "i < 16 \<Longrightarrow> j < 16 \<Longrightarrow> hex_digit i = hex_digit j \<longleftrightarrow> i = j"
  unfolding hex_digit_def by (rule nth_eq_iff_index_eq) simp_all

lemma hex_byte_inj: "hex_byte a = hex_byte b \<longleftrightarrow> a = b"
proof
  assume "hex_byte a = hex_byte b"
  then have "unat a div 16 = unat b div 16" "unat a mod 16 = unat b mod 16"
    using unat_bound(1) [of a] unat_bound(1) [of b]
    by (simp_all add: hex_byte_def hex_digit_inj div_less_iff_less_mult del: unat_bound)
  then have "unat a = unat b" by (metis div_mult_mod_eq)
  then show "a = b" by (rule word_unat_eq_iff [THEN iffD2])
qed simp

lemma hex_bytes_inj: "concat (map hex_byte a) = concat (map hex_byte b) \<longleftrightarrow> a = b"
proof (induction a arbitrary: b)
  case Nil
  show ?case by (cases b) (simp_all add: hex_byte_def)
next
  case (Cons x a)
  show ?case
  proof (cases b)
    case (Cons y b')
    have "hex_byte x @ u = hex_byte y @ v \<longleftrightarrow> x = y \<and> u = v" for u v
      using hex_byte_inj [of x y] by (auto simp: hex_byte_def)
    with Cons.IH Cons show ?thesis by simp
  qed (simp add: hex_byte_def)
qed

lemma record_path_inj: "record_path dir a = record_path dir b \<longleftrightarrow> a = b"
  by (simp add: record_path_def hex_bytes_inj)

lemma record_extension: "uuid \<noteq> [] \<Longrightarrow> extension (record_path dir uuid) = Some ''jrec''"
proof -
  assume "uuid \<noteq> []"
  then obtain x xs where hex: "concat (map hex_byte uuid) = x # xs" by (cases uuid) (auto simp: hex_byte_def)
  have "rev ((x # xs) @ ''.jrec'') = ''cerj'' @ CHR ''.'' # rev (x # xs)" by simp
  then have "takeWhile (\<lambda>c. c \<noteq> CHR ''.'') (rev ((x # xs) @ ''.jrec'')) = ''cerj''" by simp
  then show ?thesis
    unfolding extension_def file_name_def record_path_def hex by (simp add: split_name_def Let_def)
qed

lemma journal_begin_writes:
  assumes "journal_begin jc E dir uuid rec w = (Inr p, w')"
  shows "\<exists>d. p = record_path dir uuid \<and> lookup w' p = Some (File d) \<and> ser jc rec = Inr (f_content d)"
proof -
  from assms obtain b w1 w2 u1 u2 u3 where s: "ser jc rec = Inr b" and p: "p = record_path dir uuid"
    and 1: "create_file E p w = (Inr u1, w1)" and 2: "append_file E p b w1 = (Inr u2, w2)"
    and 3: "sync_all E w2 = (Inr u3, w')"
    by (auto simp: journal_begin_def Let_def bindE_Inr_iff mapE_Inr_iff split: sum.splits)
  obtain d where "lookup w1 p = Some (File d)" "f_content d = []" using create_file_Inr [OF 1] by blast
  with append_file_Inr [OF 2] sync_all_Inr [OF 3] s p show ?thesis by simp
qed

lemma recover_item_replays:
  assumes nf: "no_fail E" and d: "lookup w p = Some (File d)" and p: "extension p = Some ''jrec''"
    and dec: "de jc (f_content d) = Some rec"
  shows "recover_item cr jc E k p w =
     (case replay cr E k rec (w\<lparr>w_tick := Suc (w_tick w)\<rparr>) of
        (a, u) \<Rightarrow> (case a of None \<Rightarrow> [] | Some x \<Rightarrow> [x], snd (remove_file E p u)))"
  using assms by (simp add: recover_item_def open_read_def sysop_runs)

section \<open>Finishing an interrupted lock\<close>

lemma sealed_framed:
  assumes "sealed_container cr bc hk pw c h dk es datas" and "hmac_len_ok cr"
  shows "\<exists>g m fs. framed_as cr hk c g m fs"
proof -
  obtain payload where c: "c = to_bytes cr hk h @ payload" and wf: "wf_header h"
    and po: "payload_opens cr bc (cc_new dk (h_uuid h)) payload es datas"
    using assms(1) by (auto simp: sealed_container_def)
  from po obtain m fs where "payload = frame_bytes m @ concat (map frame_bytes fs)" "frame_ok MAX_MANIFEST_LEN m"
    "list_all chunk_frame fs" unfolding payload_opens_def using frames_open_all_ok by blast
  moreover have "from_bytes cr hk (to_bytes cr hk h) = Inr (h\<lparr>hmac_ok := True\<rparr>)"
    using wf assms(2) by (rule to_bytes_parses)
  moreover have "length (to_bytes cr hk h) = HEADER_LEN"
    using length_to_bytes [OF wf assms(2)] by (simp add: HEADER_LEN_def)
  ultimately show ?thesis using c unfolding framed_as_def by blast
qed

lemma replay_lock_finishes:
  assumes nf: "no_fail E" and st: "\<not> exists_path w (j_staging rec)"
    and dir: "j_folder rec \<noteq> []" "lookup w (j_folder rec) = Some Dir" and sc: "structurally_complete cr k w (j_container rec)"
    and apart: "\<not> prefix (j_folder rec) (j_container rec)"
  obtains w' where "replay_lock cr E k rec w = (Some (FinishedLock (j_folder rec)), w')"
    and "\<forall>q. prefix (j_folder rec) q \<longrightarrow> lookup w' q = None"
    and "changes_only (\<lambda>q. prefix (j_folder rec) q) w w'"
proof -
  let ?f = "j_folder rec" and ?c = "j_container rec" and ?s = "j_staging rec"
  obtain d h m fs where d: "lookup w ?c = Some (File d)" "framed_as cr k (f_content d) h m fs"
    using sc by (auto simp: structurally_complete_def)
  obtain w1 where 1: "path_exists E ?s w = (False, w1)" "\<And>q. lookup w1 q = lookup w q"
    using st by (simp add: path_exists_def)
  obtain w2 where 2: "both_exist E ?f ?c w1 = (True, w2)" "\<And>q. lookup w2 q = lookup w q"
    using nf 1(2) dir d(1) by (simp add: both_exist_def path_exists_def exists_path_def no_fail_def)
  obtain n w3 where 3: "verify_structure cr E ?c k w2 = (Inr n, w3)"
    using verify_structure_runs [OF nf _ d(2), of w2 ?c] d(1) 2(2) by (metis prod.collapse)
  have l3: "lookup w3 q = lookup w q" for q
    using changes_onlyD [OF keepsD [OF verify_touches 3], of "\<lambda>_. False"] 2(2) by simp
  then have "lookup w3 ?f = Some Dir" using dir(2) by simp
  with recycle_runs [OF nf dir(1)] obtain w4 where 4: "recycle E ?f w3 = (Inr (), w4)"
    "\<And>q. prefix ?f q \<Longrightarrow> lookup w4 q = None" by metis
  have "changes_only (\<lambda>q. prefix ?f q) w3 w4" by (rule keepsD [OF recycle_touches 4(1)])
  then have "changes_only (\<lambda>q. prefix ?f q) w w4" using l3 by (simp add: changes_only_def)
  moreover have "replay_lock cr E k rec w = (Some (FinishedLock ?f), w4)"
    using 1(1) 2(1) 3 4(1) by (simp add: replay_lock_def)
  ultimately show ?thesis using 4(2) that by blast
qed

text \<open>What replaying the record of a lock does, state by state.\<close>

lemma replay_lock_rolls_back:
  assumes nf: "no_fail E" and st: "exists_path w (j_staging rec)"
  obtains w' where "replay_lock cr E k rec w = (Some (RolledBackLock (j_staging rec)), w')"
    and "changes_only (\<lambda>q. q = j_staging rec) w w'"
    and "(\<exists>d. lookup w (j_staging rec) = Some (File d)) \<longrightarrow> lookup w' (j_staging rec) = None"
proof -
  let ?s = "j_staging rec" and ?w1 = "w\<lparr>w_tick := Suc (w_tick w)\<rparr>"
  have 1: "path_exists E ?s w = (True, ?w1)" using nf st by (simp add: path_exists_def no_fail_def)
  have "changes_only (\<lambda>q. q = ?s) ?w1 (snd (remove_file E ?s ?w1))" by (rule touched) (intro touches refl)
  then have "changes_only (\<lambda>q. q = ?s) w (snd (remove_file E ?s ?w1))" by (simp add: changes_only_def)
  moreover have "(\<exists>d. lookup w ?s = Some (File d)) \<longrightarrow> lookup (snd (remove_file E ?s ?w1)) ?s = None"
    using nf by (auto simp: remove_file_def sysop_runs lookup_upd)
  ultimately show ?thesis using 1 by (intro that [of "snd (remove_file E ?s ?w1)"]) (simp_all add: replay_lock_def)
qed

lemma replay_lock_nothing:
  assumes nf: "no_fail E" and "\<not> exists_path w (j_staging rec)"
    and "\<not> (exists_path w (j_folder rec) \<and> exists_path w (j_container rec))"
  obtains w' where "replay_lock cr E k rec w = (None, w')" and "\<forall>q. lookup w' q = lookup w q"
proof -
  let ?w1 = "w\<lparr>w_tick := Suc (w_tick w)\<rparr>"
  have 1: "path_exists E (j_staging rec) w = (False, ?w1)" using assms(2) by (simp add: path_exists_def)
  obtain b w2 where 2: "both_exist E (j_folder rec) (j_container rec) ?w1 = (b, w2)" by fastforce
  have b: "\<not> b" and t: "only_ticks ?w1 w2" using both_exist_same [OF 2] assms(3) by auto
  have "lookup w2 q = lookup w q" for q using only_ticks_fs [OF t] by (simp add: lookup_def)
  with 1 2 b that show ?thesis by (simp add: replay_lock_def)
qed

section \<open>Where a killed lock can be\<close>

text \<open>A folder that is being removed is there, as a directory, until nothing of it is left.\<close>

definition there_or_gone :: "path \<Rightarrow> world \<Rightarrow> bool" where
  "there_or_gone p w \<longleftrightarrow> lookup w p = Some Dir \<or> (\<forall>q. prefix p q \<longrightarrow> lookup w q = None)"

lemma partly_removed_all:
  assumes "get (partly_removed gone p fs) p = None" and "get fs p \<noteq> None" and "prefix p q"
  shows "get (partly_removed gone p fs) q = None"
proof -
  have key: "get (partly_removed gone p fs) r =
      (if prefix p r \<and> list_all (\<lambda>(s, _). prefix r s \<longrightarrow> gone s) fs then None else get fs r)" for r
    unfolding partly_removed_def get_def by (subst map_of_filter_key) simp
  have "list_all (\<lambda>(s, _). prefix p s \<longrightarrow> gone s) fs" using assms(1,2) by (simp add: key split: if_splits)
  then have "list_all (\<lambda>(s, _). prefix q s \<longrightarrow> gone s) fs"
    using assms(3) by (auto simp: list_all_iff intro: prefix_order.trans)
  with assms(3) show ?thesis by (simp add: key)
qed

lemma remove_dir_all_there:
  assumes "there_or_gone p w"
  shows "there_or_gone p (snd (remove_dir_all E p w))"
proof (cases "lookup w p = Some Dir")
  case True
  let ?gone = "os_gone E (w_tick w)"
  have "get (partly_removed ?gone p (w_fs w)) p = Some Dir \<or> get (partly_removed ?gone p (w_fs w)) p = None"
    using True unfolding partly_removed_def get_def lookup_def by (subst map_of_filter_key, subst map_of_filter_key) simp
  then have "there_or_gone p (upd_fs (partly_removed ?gone p) (w\<lparr>w_tick := Suc (w_tick w)\<rparr>))"
    using partly_removed_all [of ?gone p "w_fs w"] True
    by (auto simp: there_or_gone_def lookup_def upd_fs_def)
  with True show ?thesis
    by (auto simp: remove_dir_all_def sysop_def Let_def is_dir_path_def lookup_upd there_or_gone_def)
next
  case False
  with assms have gone: "lookup w q = None" if "prefix p q" for q using that by (simp add: there_or_gone_def)
  have "changes_only (\<lambda>q. prefix p q) w (snd (remove_dir_all E p w))" by (rule touched) (intro touches)
  have "lookup (snd (remove_dir_all E p w)) q = None" if "prefix p q" for q
    using gone [OF that] gone [of p] get_partly_removed
    by (auto simp: remove_dir_all_def sysop_def Let_def lookup_upd partly_removed_def lookup_def upd_fs_def get_def map_of_filter_key)
  then show ?thesis by (simp add: there_or_gone_def)
qed

lemma recycle_there:
  assumes "lookup w p = Some Dir"
  shows "there_or_gone p (snd (recycle E p w))"
proof -
  obtain b w1 where b: "recycle_win E p w = (b, w1)" by fastforce
  show ?thesis
  proof (cases b)
    case True
    with b show ?thesis by (auto simp: recycle_def recycle_win_def Let_def there_or_gone_def lookup_upd split: if_splits)
  next
    case False
    let ?w2 = "w1\<lparr>w_tick := Suc (w_tick w1)\<rparr>"
    have "lookup ?w2 p = Some Dir" using b False assms by (auto simp: recycle_win_def Let_def split: if_splits)
    then have "there_or_gone p (snd (remove_dir_all E p ?w2))" "there_or_gone p (snd (remove_file E p ?w2))"
      using remove_dir_all_there [of p ?w2 E]
      by (auto simp: there_or_gone_def remove_file_def sysop_def Let_def unspoiled_def)
    with b False show ?thesis by (simp add: recycle_def path_is_dir_def)
  qed
qed

lemma remove_original_there:
  assumes "lookup w src = Some Dir"
  shows "there_or_gone src (snd (remove_original E opts src es w))"
proof -
  have "changes_only (\<lambda>q. strict_prefix src q) w (wipe_tree E src es w)" by (rule wipe_tree_touches)
  then have "lookup (wipe_tree E src es w) src = Some Dir" using assms by (simp add: changes_only_def)
  with assms remove_dir_all_there recycle_there show ?thesis
    by (simp add: remove_original_def mapE_state there_or_gone_def)
qed

lemma lock_finish_there:
  assumes src: "src \<noteq> []" and ja: "journal_apart journal src"
    and rec: "\<And>p. record = Some p \<Longrightarrow> is_record journal p" and dir: "lookup w src = Some Dir"
  shows "there_or_gone src (snd (lock_finish E src (lock_dest src) opts es record w))"
    and "lookup (snd (lock_finish E src (lock_dest src) opts es record w)) (lock_tmp src) = lookup w (lock_tmp src)"
proof -
  let ?P = "\<lambda>q. q = lock_dest src \<or> is_record journal q"
  let ?rest = "bindE (if readonly_container opts then ignoreE (set_readonly E (lock_dest src) True) else returnE () :: unit vio)
    (\<lambda>_. bindE (end_record E record) (\<lambda>_. returnE (lock_dest src)))"
  obtain x w1 where 1: "remove_original E opts src es w = (x, w1)" by fastforce
  have there: "there_or_gone src w1" using remove_original_there [OF dir, of E opts es] 1 by simp
  have "keeps (changes_only ?P) (?rest :: path vio)" by (intro keeps_intros touches) (auto simp: rec)
  then have "changes_only ?P w1 (snd (?rest w1))" by (rule touched)
  moreover have "snd (lock_finish E src (lock_dest src) opts es record w) = (if isl x then w1 else snd (?rest w1))"
    using 1 by (cases x) (simp_all add: lock_finish_def bindE_def)
  ultimately have ch: "changes_only ?P w1 (snd (lock_finish E src (lock_dest src) opts es record w))" by simp
  have "\<not> ?P q" if "prefix src q" for q using that lock_paths(1) [OF src] record_apart [OF ja] by blast
  with ch there show "there_or_gone src (snd (lock_finish E src (lock_dest src) opts es record w))"
    by (simp add: there_or_gone_def changes_only_def)
  have "keeps (changes_only (\<lambda>q. prefix src q)) (remove_original E opts src es)" by (intro touches)
  from keepsD [OF this 1] ch
  show "lookup (snd (lock_finish E src (lock_dest src) opts es record w)) (lock_tmp src) = lookup w (lock_tmp src)"
    using lock_paths(2,3,5) [OF src] by (auto simp: changes_only_def)
qed

text \<open>
  A record that staging has written names a staging copy that is there. A change outside \<open>P\<close>
  means that the steps that change nothing outside \<open>P\<close> have succeeded.
\<close>

lemma bindE_reached:
  assumes "bindE m f w = (x, w')" and "keeps (changes_only P) m" and "changes_only P v w" and "\<not> changes_only P v w'"
  obtains y u where "m w = (Inr y, u)" and "changes_only P v u" and "f y u = (x, w')"
  using assms(1)
proof (cases rule: bindE_outcome)
  case (failed e)
  with changes_trans [OF assms(3) keepsD [OF assms(2)]] assms(4) show ?thesis by blast
next
  case (went_on y u)
  with changes_trans [OF assms(3) keepsD [OF assms(2)]] that show ?thesis by blast
qed

lemma lock_stage_record:
  assumes ok: "crypto_ok cr" "codec_ok bc" and apart: "\<not> strict_prefix src tmp"
    and st: "lock_stage cr bc jc E src dest tmp pw hk opts journal w = (x, w')"
    and fresh: "is_record journal p" "lookup w p = None" "lookup w' p \<noteq> None" and notrec: "\<not> is_record journal tmp"
  shows "\<exists>d. lookup w' tmp = Some (File d)"
proof -
  let ?P = "\<lambda>q. q = tmp"
  have "p \<noteq> tmp" using fresh(1) notrec by blast
  then have n: "\<not> changes_only ?P w w'" using fresh(2,3) by (auto simp: changes_only_def)
  have stale: "keeps (changes_only ?P) (if b then mapE Io (remove_file E tmp) else returnE ())" for b
    by (intro keeps_intros touches refl)
  have wr: "keeps (changes_only ?P) (write_staged cr bc E src tmp es tot pw hk opts)" for es tot
    by (intro touches refl)
  obtain b w1 where 1: "changes_only ?P w w1" and r1: "bindE (if b then mapE Io (remove_file E tmp) else returnE ()) (\<lambda>_.
      bindE (scan E src) (\<lambda>sc.
      bindE (write_staged cr bc E src tmp (scan_entries sc) (scan_total sc) pw hk opts) (\<lambda>uuid.
      bindE (begin_record jc E journal uuid \<lparr>j_op = LockOp, j_folder = src, j_container = dest, j_staging = tmp\<rparr>) (\<lambda>record.
        returnE (scan_entries sc, record))))) w1 = (x, w')"
    by (rule bindE_reached [OF st [unfolded lock_stage_def] ask_touches changes_refl n])
  obtain u w2 where 2: "changes_only ?P w w2" and r2: "bindE (scan E src) (\<lambda>sc.
      bindE (write_staged cr bc E src tmp (scan_entries sc) (scan_total sc) pw hk opts) (\<lambda>uuid.
      bindE (begin_record jc E journal uuid \<lparr>j_op = LockOp, j_folder = src, j_container = dest, j_staging = tmp\<rparr>) (\<lambda>record.
        returnE (scan_entries sc, record)))) w2 = (x, w')"
    by (rule bindE_reached [OF r1 stale 1 n])
  obtain sc :: folder_scan and w3 where 3: "changes_only ?P w w3" and r3: "bindE (write_staged cr bc E src tmp (scan_entries sc) (scan_total sc) pw hk opts) (\<lambda>uuid.
      bindE (begin_record jc E journal uuid \<lparr>j_op = LockOp, j_folder = src, j_container = dest, j_staging = tmp\<rparr>) (\<lambda>record.
        returnE (scan_entries sc, record))) w3 = (x, w')"
    by (rule bindE_reached [OF r2 scan_touches 2 n]) blast
  obtain uuid w4 where 4: "write_container cr bc E src tmp (scan_entries sc) (scan_total sc) pw hk opts w3 = (Inr uuid, w4)"
    and r4: "bindE (begin_record jc E journal uuid \<lparr>j_op = LockOp, j_folder = src, j_container = dest, j_staging = tmp\<rparr>) (\<lambda>record.
        returnE (scan_entries sc, record)) w4 = (x, w')"
    by (rule bindE_reached [OF r3 wr 3 n]) (unfold write_staged_Inr, blast)
  obtain d where "lookup w4 tmp = Some (File d)" using write_container_Inr [OF ok apart 4] by blast
  moreover have "keeps (changes_only (is_record journal)) (bindE (begin_record jc E journal uuid
      \<lparr>j_op = LockOp, j_folder = src, j_container = dest, j_staging = tmp\<rparr>) (\<lambda>record. returnE (scan_entries sc, record)))"
    by (intro keeps_intros touches)
  from keepsD [OF this r4] have "changes_only (is_record journal) w4 w'" .
  ultimately show ?thesis using notrec by (simp add: changes_only_def)
qed

lemma lock_folder_states:
  assumes ok: "crypto_ok cr" "codec_ok bc" and wf: "wf_fs (w_fs w)" and ja: "journal_apart journal src"
    and free: "lookup w (lock_dest src) = None" and src: "src \<noteq> []"
    and run: "lock_folder cr bc jc E src pw hk opts journal w = (r, w')"
  shows "((\<forall>q. prefix src q \<longrightarrow> lookup w' q = lookup w q) \<and> lookup w' (lock_dest src) = None
      \<and> (\<forall>p. is_record journal p \<and> lookup w p = None \<and> lookup w' p \<noteq> None \<longrightarrow> (\<exists>d. lookup w' (lock_tmp src) = Some (File d))))
    \<or> ((\<exists>c. content_at w' (lock_dest src) c \<and> holds_folder cr bc E hk pw opts w src c)
      \<and> lookup w' (lock_tmp src) = None \<and> there_or_gone src w')"
proof (cases "last src = ''..''")
  case True
  with run free show ?thesis by (auto simp: lock_folder_no_name)
next
  case named: False
  let ?d = "lock_dest src" and ?t = "lock_tmp src"
  let ?P = "\<lambda>q. q = ?t \<or> is_record journal q"
  note paths = lock_paths [OF src]
  have intact: "(\<forall>q. prefix src q \<longrightarrow> lookup u q = lookup w q) \<and> lookup u ?d = None" if "changes_only ?P w u" for u
  proof -
    have "\<not> ?P q" if "prefix src q \<or> q = ?d" for q using that paths record_apart [OF ja, of q] by auto
    with that free show ?thesis by (simp add: changes_only_def)
  qed
  have ss: "\<not> strict_prefix src ?t" using paths(2) by (simp add: strict_prefix_def)
  obtain b w1 where ask: "ask (path_exists E ?d) w = (Inr b, w1)" and f1: "w_fs w1 = w_fs w"
    by (simp add: ask_def path_exists_def)
  then have l1: "lookup w1 q = lookup w q" for q by (simp add: lookup_def)
  obtain st w2 where st: "lock_stage cr bc jc E src ?d ?t pw hk opts journal w1 = (st, w2)" by fastforce
  have "keeps (changes_only ?P) (lock_stage cr bc jc E src ?d ?t pw hk opts journal)" by (rule lock_stage_touches) simp_all
  from keepsD [OF this st] have c2: "changes_only ?P w w2" using l1 by (simp add: changes_only_def)
  have recs: "\<exists>d. lookup w2 ?t = Some (File d)" if "is_record journal p" "lookup w p = None" "lookup w2 p \<noteq> None" for p
    using lock_stage_record [OF ok ss st that(1) _ that(3) paths(5)] that(2) l1 by simp
  have run': "bindE (ask (path_exists E ?d)) (\<lambda>there. if there then throwE (Exists ?d)
      else bindE (lock_stage cr bc jc E src ?d ?t pw hk opts journal) (\<lambda>(entries, record).
        bindE (mapE Io (rename E ?t ?d)) (\<lambda>_. lock_finish E src ?d opts entries record))) w = (r, w')"
    using run lock_folder_phases [OF src named] by metis
  consider (there) "w' = w1" | (unstaged) "w' = w2" | (staged) es rc where "st = Inr (es, rc)" "\<not> b"
      "bindE (mapE Io (rename E ?t ?d)) (\<lambda>_. lock_finish E src ?d opts es rc) w2 = (r, w')"
    using run' ask st by (cases b; cases st) (auto simp: bindE_def split: prod.splits)
  then show ?thesis
  proof cases
    case there
    have "changes_only ?P w w1" using l1 by (simp add: changes_only_def)
    from intact [OF this] show ?thesis unfolding there l1 by blast
  next
    case unstaged
    with intact [OF c2] recs show ?thesis by blast
  next
    case (staged es rc)
    have "wf_fs (w_fs w1)" using wf f1 by simp
    note stage = lock_stage_Inr [OF ok this src paths(2,5) st [unfolded staged(1)]]
    obtain c where c: "content_at w2 ?t c" "holds_folder cr bc E hk pw opts w src c"
      using stage(1) l1 holds_folder_cong [of src w1 w] by blast
    have dir: "lookup w src = Some Dir" using stage(3) l1 by simp
    obtain rn w3 where rn: "rename E ?t ?d w2 = (rn, w3)" by fastforce
    show ?thesis
    proof (cases rn)
      case (Inl e)
      then have w3: "w' = w3" using staged(3) rn by (simp add: bindE_def mapE_def)
      have l3: "lookup w3 q = lookup w2 q" for q using rename_Inl [OF rn [unfolded Inl]] by (simp add: lookup_def)
      show ?thesis using intact [OF c2] recs unfolding w3 l3 by blast
    next
      case (Inr u)
      have fin: "lock_finish E src ?d opts es rc w3 = (r, w')"
        using staged(3) rn Inr by (simp add: bindE_def mapE_def)
      have c3: "content_at w3 ?d c" using c(1) rename_file_Inr [OF rn [unfolded Inr]] by (auto simp: content_at_def)
      have t3: "lookup w3 ?t = None"
        using c(1) rn [unfolded Inr] paths(3) by (auto simp: content_at_def rename_def sysop_Inr lookup_upd split: if_splits)
      have "changes_only (\<lambda>q. prefix ?t q \<or> prefix ?d q) w2 w3" by (rule keepsD [OF rename_touches rn]) simp_all
      moreover have "\<not> prefix ?t src" "\<not> prefix ?d src"
        unfolding lock_dest_def lock_tmp_def by (intro beside src; simp)+
      ultimately have d3: "lookup w3 src = Some Dir" using intact [OF c2] dir by (simp add: changes_only_def)
      have isr: "is_record journal p" if "rc = Some p" for p using that by (rule stage(2))
      show ?thesis
        using lock_finish_content [OF src isr c3, of rc E opts es] lock_finish_there [OF src ja isr d3, of rc E opts es] fin t3 c(2)
        by auto
    qed
  qed
qed

section \<open>Samples\<close>

definition journal_world :: world where
  "journal_world = sample_world\<lparr>w_fs := [([''j''], Dir), ([''t''], File sample_file)]\<rparr>"

text \<open>
  A machine on which every call fails from the \<open>N\<close>-th on, as after a kill, and a lock of an empty
  folder on it: with \<open>N = 15\<close> everything up to the rename succeeds and the removal of the folder
  does not.
\<close>

definition killed_at :: "nat \<Rightarrow> os" where
  "killed_at N = calm\<lparr>os_fails := (\<lambda>n. N \<le> n)\<rparr>"

definition bare_world :: world where
  "bare_world = sample_world\<lparr>w_fs := [([''d''], Dir), ([''j''], Dir)]\<rparr>"

definition bare_record :: jrecord where
  "bare_record = \<lparr>j_op = LockOp, j_folder = [''d''], j_container = lock_dest [''d''], j_staging = lock_tmp [''d'']\<rparr>"

lemma killed_calls:
  "sysop (killed_at N) spoil act w = (if w_tick w < N then act (w\<lparr>w_tick := Suc (w_tick w)\<rparr>)
     else (Inl OtherIo, spoil (w_tick w) (w\<lparr>w_tick := Suc (w_tick w)\<rparr>)))"
  "path_exists (killed_at N) p w = (w_tick w < N \<and> exists_path w p, w\<lparr>w_tick := Suc (w_tick w)\<rparr>)"
  by (auto simp: sysop_def path_exists_def killed_at_def Let_def)

lemma world_parts [simp]:
  "w_tick (upd_fs f w) = w_tick w" "w_rng (upd_fs f w) = w_rng w"
  "w_tick (put_file p g w) = w_tick w" "w_rng (put_file p g w) = w_rng w"
  by (simp_all add: upd_fs_def put_file_def split: option.split node.split)

lemma bare_lookup: "lookup bare_world q = (if q = [''d''] \<or> q = [''j''] then Some Dir else None)"
  and bare_parts: "w_tick bare_world = 0" "w_rng bare_world = (\<lambda>_. 0)" "wf_fs (w_fs bare_world)"
  by (auto simp: bare_world_def lookup_def get_def sample_world_def wf_fs_def split: if_splits)

lemma bare_scan:
  "t + 2 \<le> N \<Longrightarrow> scan (killed_at N) [''d''] (bare_world\<lparr>w_tick := t\<rparr>) =
     (Inr \<lparr>scan_entries = [], scan_total = 0\<rparr>, bare_world\<lparr>w_tick := Suc (Suc t)\<rparr>)"
  by (simp add: scan_def bindE_def mapE_def symlink_metadata_def killed_calls lookup_def get_def walk_into_def
      read_dir_def is_dir_path_def children_def exists_path_def Let_def bare_world_def sample_world_def)

lemma bare_write:
  assumes "t + 7 \<le> N"
  obtains w d where "write_container toy_crypto (sample_codec []) (killed_at N) [''d''] [''d.fvlt.tmp''] [] 0 [7] [9]
      sample_options (bare_world\<lparr>w_tick := t\<rparr>) = (Inr (replicate 16 0), w)" and "w_tick w = t + 7"
    and "\<forall>q. lookup w q = (if q = [''d.fvlt.tmp''] then Some (File d) else lookup bare_world q)"
proof -
  obtain k where k: "derive_kek toy_crypto [7] s kdf_default = Inr k" for s
    by (simp add: derive_kek_def toy_crypto_def)
  have fb: "fill_bytes n (\<lambda>_. 0) = (replicate n 0, \<lambda>_. 0)" for n by (simp add: fill_bytes_def map_replicate_const)
  have rk: "random_key (\<lambda>_. 0) = (replicate 32 0, \<lambda>_. 0)" by (simp add: random_key_def fb KEY_LEN_def)
  obtain hd r where nh: "new_header toy_crypto sample_options (replicate 16 0) (replicate 16 0) k (replicate 32 0) 0 0
      (\<lambda>_. 0) = (hd, r)" by fastforce
  obtain n2 r2 where f2: "fill_bytes NONCE_LEN r = (n2, r2)" by fastforce
  have opts: "lo_kdf sample_options = None" by (simp add: sample_options_def)
  have pd: "parent_is_dir w [''d.fvlt.tmp'']" for w by (simp add: parent_is_dir_def is_dir_path_def)
  have "\<exists>w. write_container toy_crypto (sample_codec []) (killed_at N) [''d''] [''d.fvlt.tmp''] [] 0 [7] [9] sample_options
      (bare_world\<lparr>w_tick := t\<rparr>) = (Inr (replicate 16 0), w) \<and> w_tick w = t + 7
      \<and> (\<exists>d. \<forall>q. lookup w q = (if q = [''d.fvlt.tmp''] then Some (File d) else lookup bare_world q))"
    using assms
    by (simp add: write_container_def opts fb rk k nh Let_def bindE_def mapE_def create_file_def killed_calls bare_lookup
        bare_parts pd append_file_def seal_to_def f2 sync_all_def sample_codec_def MAX_MANIFEST_LEN_def TAG_LEN_def)
       (simp add: lookup_put_file lookup_upd bare_lookup)
  then show ?thesis using that by blast
qed

lemma bare_stage:
  fixes N :: nat
  assumes N: "N = 15"
  defines "p \<equiv> record_path [''j''] (replicate 16 0)"
  obtains u d where "lock_stage toy_crypto (sample_codec []) (sample_codec bare_record) (killed_at N) [''d''] [''d.fvlt'']
      [''d.fvlt.tmp''] [7] [9] sample_options (Some [''j'']) (bare_world\<lparr>w_tick := Suc 0\<rparr>) = (Inr ([], Some p), u)"
    and "w_tick u = 14"
    and "\<forall>q. lookup u q = (if q = p then Some (File \<lparr>f_content = [1], f_readonly = False, f_mtime = 0\<rparr>)
           else if q = [''d.fvlt.tmp''] then Some (File d) else lookup bare_world q)"
proof -
  let ?rec = "\<lparr>j_op = LockOp, j_folder = [''d''], j_container = [''d.fvlt''], j_staging = [''d.fvlt.tmp'']\<rparr>"
  obtain w d where wc: "write_container toy_crypto (sample_codec []) (killed_at N) [''d''] [''d.fvlt.tmp''] [] 0 [7] [9]
      sample_options (bare_world\<lparr>w_tick := Suc (Suc (Suc (Suc 0)))\<rparr>) = (Inr (replicate 16 0), w)"
    and t: "w_tick w = 11"
    and l: "\<forall>q. lookup w q = (if q = [''d.fvlt.tmp''] then Some (File d) else lookup bare_world q)"
    by (rule bare_write [of "Suc (Suc (Suc (Suc 0)))" N]) (simp_all add: N)
  have ne: "p \<noteq> [''d'']" "p \<noteq> [''j'']" "p \<noteq> [''d.fvlt.tmp'']" by (simp_all add: p_def record_path_def)
  have pd: "parent_is_dir u p = is_dir_path u [''j'']" for u by (simp add: p_def parent_is_dir_def record_path_def)
  have ser: "ser (sample_codec bare_record) ?rec = Inr [1]"
    by (simp add: sample_codec_def bare_record_def lock_dest_def lock_tmp_def)
  have "\<exists>u. begin_record (sample_codec bare_record) (killed_at N) (Some [''j'']) (replicate 16 0) ?rec w = (Inr (Some p), u)
      \<and> w_tick u = 14 \<and> (\<forall>q. lookup u q =
          (if q = p then Some (File \<lparr>f_content = [1], f_readonly = False, f_mtime = 0\<rparr>) else lookup w q))"
    using ne
    by (simp add: begin_record_def journal_begin_def ser p_def [symmetric] Let_def bindE_def mapE_def create_file_def
        killed_calls t l bare_lookup pd is_dir_path_def append_file_def sync_all_def N)
       (simp add: lookup_put_file lookup_upd l bare_lookup)
  then obtain u where u: "begin_record (sample_codec bare_record) (killed_at N) (Some [''j'']) (replicate 16 0) ?rec w = (Inr (Some p), u)"
    "w_tick u = 14" "\<forall>q. lookup u q =
          (if q = p then Some (File \<lparr>f_content = [1], f_readonly = False, f_mtime = 0\<rparr>) else lookup w q)" by blast
  have "lock_stage toy_crypto (sample_codec []) (sample_codec bare_record) (killed_at N) [''d''] [''d.fvlt'']
      [''d.fvlt.tmp''] [7] [9] sample_options (Some [''j'']) (bare_world\<lparr>w_tick := Suc 0\<rparr>) = (Inr ([], Some p), u)"
    by (simp add: lock_stage_def ask_def killed_calls exists_path_def bare_lookup bindE_def bare_scan N write_staged_def
        wc [unfolded N] u(1) [unfolded N])
  then show ?thesis using u(2,3) l by (intro that [of u d]) simp_all
qed

lemma bare_lock:
  defines "p \<equiv> record_path [''j''] (replicate 16 0)"
  obtains r w where "lock_folder toy_crypto (sample_codec []) (sample_codec bare_record) (killed_at 15) [''d''] [7] [9]
      sample_options (Some [''j'']) bare_world = (r, w)"
    and "lookup w [''d''] = Some Dir" and "lookup w (lock_tmp [''d'']) = None"
    and "lookup w p = Some (File \<lparr>f_content = [1], f_readonly = False, f_mtime = 0\<rparr>)"
proof -
  define N :: nat where "N = 15"
  let ?d = "\<lparr>f_content = [1], f_readonly = False, f_mtime = 0\<rparr>"
  obtain u d where st: "lock_stage toy_crypto (sample_codec []) (sample_codec bare_record) (killed_at N) [''d''] [''d.fvlt'']
      [''d.fvlt.tmp''] [7] [9] sample_options (Some [''j'']) (bare_world\<lparr>w_tick := Suc 0\<rparr>) = (Inr ([], Some p), u)"
    and u: "w_tick u = 14" "\<forall>q. lookup u q = (if q = p then Some (File ?d)
           else if q = [''d.fvlt.tmp''] then Some (File d) else lookup bare_world q)"
    unfolding p_def by (rule bare_stage [OF N_def])
  have ne: "p \<noteq> [''d'']" "p \<noteq> [''d.fvlt.tmp'']" "p \<noteq> [''d.fvlt'']" by (simp_all add: p_def record_path_def)
  have pd: "parent_is_dir u [''d.fvlt'']" for u by (simp add: parent_is_dir_def is_dir_path_def)
  have pr: "partly_removed (\<lambda>_. False) q = (\<lambda>fs. fs)" for q
    unfolding partly_removed_def by (rule ext, rule filter_True) (auto simp: list_all_iff)
  have opts: "secure_delete sample_options = False" "recycle_original sample_options = False" by (simp_all add: sample_options_def)
  have paths: "lock_dest [''d''] = [''d.fvlt'']" "lock_tmp [''d''] = [''d.fvlt.tmp'']" by (simp_all add: lock_dest_def lock_tmp_def)
  have "\<exists>v. rename (killed_at N) [''d.fvlt.tmp''] [''d.fvlt''] u = (Inr (), v) \<and> w_tick v = 15
      \<and> (\<forall>q. lookup v q = (if q = p then Some (File ?d) else if q = [''d.fvlt''] then Some (File d) else lookup bare_world q))"
    using ne by (simp add: rename_def killed_calls u bare_lookup is_dir_path_def pd N_def lookup_upd)
  then obtain v where v: "rename (killed_at N) [''d.fvlt.tmp''] [''d.fvlt''] u = (Inr (), v)" "w_tick v = 15"
    "\<forall>q. lookup v q = (if q = p then Some (File ?d) else if q = [''d.fvlt''] then Some (File d) else lookup bare_world q)"
    by blast
  let ?w = "upd_fs (\<lambda>fs. fs) (v\<lparr>w_tick := 16\<rparr>)"
  have "is_dir_path v [''d'']" "os_gone (killed_at N) = (\<lambda>_ _. False)"
    using v(3) ne by (simp_all add: is_dir_path_def bare_lookup killed_at_def calm_def)
  then have rm: "remove_dir_all (killed_at N) [''d''] v = (Inl OtherIo, ?w)"
    by (simp add: remove_dir_all_def killed_calls v(2) N_def pr)
  have "lock_folder toy_crypto (sample_codec []) (sample_codec bare_record) (killed_at N) [''d''] [7] [9] sample_options
      (Some [''j'']) bare_world = (Inl (Io OtherIo), ?w)"
    by (simp add: lock_folder_phases)
       (simp add: paths ask_def killed_calls exists_path_def bare_lookup bindE_def mapE_def st [unfolded N_def] v(1) [unfolded N_def]
          N_def lock_finish_def remove_original_def opts rm [unfolded N_def] bare_parts)
  moreover have "lookup ?w q = lookup v q" for q by (simp add: lookup_upd_fs) (simp add: lookup_def)
  ultimately show ?thesis
    using that [of "Inl (Io OtherIo)" ?w] v(3) ne by (simp add: N_def paths bare_lookup)
qed

section \<open>Properties\<close>

text \<open>
  C4: Replaying a record never removes both copies, whatever fails on the way: for a lock, it
  changes nothing but the staging file, or the folder when the container is structurally
  complete; for an unlock, nothing but the staging folder, or the container when the folder is
  there.
\<close>

theorem replay_removes_one_copy:
  assumes "replay cr E k rec w = (a, w')" and "lookup w' q \<noteq> lookup w q"
  shows "case j_op rec of
      LockOp \<Rightarrow> q = j_staging rec \<or> prefix (j_folder rec) q \<and> structurally_complete cr k w (j_container rec)
    | UnlockOp \<Rightarrow> prefix (j_staging rec) q \<or> prefix (j_container rec) q \<and> exists_path w (j_folder rec)"
  using assms replay_lock_changes [of cr E k rec w a w'] replay_unlock_changes [of E rec w a w']
  by (auto simp: replay_def changes_only_def split: op_kind.splits)

definition both_copies :: world where
  "both_copies = sample_world\<lparr>w_fs := [([''f''], Dir), ([''c''],
     File \<lparr>f_content = sample_container [sample_frame], f_readonly = False, f_mtime = 0\<rparr>)]\<rparr>"

theorem replay_removes_one_copy_witness:
  "lookup (snd (replay toy_crypto calm [] sample_record both_copies)) [''f''] = None
     \<and> structurally_complete toy_crypto [] both_copies [''c'']"
proof -
  have l: "lookup both_copies [''f''] = Some Dir" "lookup both_copies [''t''] = None"
    "lookup both_copies [''c''] = Some (File \<lparr>f_content = sample_container [sample_frame], f_readonly = False, f_mtime = 0\<rparr>)"
    by (simp_all add: both_copies_def lookup_def get_def)
  have "structurally_complete toy_crypto [] both_copies [''c'']"
    unfolding structurally_complete_def
    by (rule exI, rule exI, rule exI, rule exI, rule conjI, rule l(3)) (use sample_framed [of 1] in simp)
  then obtain w' where "replay_lock toy_crypto calm [] sample_record both_copies = (Some (FinishedLock [''f'']), w')"
    "lookup w' [''f''] = None"
    using replay_lock_finishes [OF no_fail_calm, of both_copies sample_record toy_crypto "[]"] l(1,2)
    by (auto simp: sample_record_def exists_path_def)
  then have r: "replay toy_crypto calm [] sample_record both_copies = (Some (FinishedLock [''f'']), w')"
    by (simp add: replay_def sample_record_def)
  with replay_removes_one_copy [OF r, of "[''f'']"] l(1) \<open>lookup w' [''f''] = None\<close>
  show ?thesis by (simp add: sample_record_def)
qed

text \<open>
  C5: A lock that crashes anywhere, followed by the replay of its record, even one that fails or
  is interrupted itself, never loses the folder: afterwards the folder is as it was, or the
  container holds all of it.
\<close>

theorem crashed_lock_is_recoverable:
  assumes "crypto_ok cr" and "codec_ok bc" and "wf_fs (w_fs w)" and "journal_apart journal src"
    and "lookup w (lock_dest src) = None" and src: "src \<noteq> []"
    and run: "lock_folder cr bc jc E src pw hk opts journal w = (r, w1)"
    and rep: "replay cr E' hk \<lparr>j_op = LockOp, j_folder = src, j_container = lock_dest src,
        j_staging = lock_tmp src\<rparr> w1 = (a, w2)"
  shows "(\<forall>q. prefix src q \<longrightarrow> lookup w2 q = lookup w q)
    \<or> (\<exists>c. content_at w2 (lock_dest src) c \<and> holds_folder cr bc E hk pw opts w src c)"
proof -
  let ?d = "lock_dest src" and ?t = "lock_tmp src"
  note paths = lock_paths [OF src]
  have ch: "changes_only (\<lambda>q. q = ?t \<or> prefix src q \<and> structurally_complete cr hk w1 ?d) w1 w2"
    using replay_lock_changes [of cr E' hk _ w1 a w2] rep by (fastforce simp: replay_def)
  from lock_folder_outcome [OF assms(1-5) run] show ?thesis
  proof (elim disjE conjE)
    assume "\<forall>q. prefix src q \<longrightarrow> lookup w1 q = lookup w q" and "lookup w1 ?d = None"
    moreover from this(2) have "\<not> structurally_complete cr hk w1 ?d" by (simp add: structurally_complete_def)
    ultimately show ?thesis using ch paths(2) by (auto simp: changes_only_def)
  next
    assume "\<exists>c. content_at w1 ?d c \<and> holds_folder cr bc E hk pw opts w src c"
    then obtain c where "content_at w1 ?d c" "holds_folder cr bc E hk pw opts w src c" by blast
    with content_elsewhere [OF ch] paths(1,3) show ?thesis by blast
  qed
qed

theorem crashed_lock_is_recoverable_witness:
  "let E = calm\<lparr>os_fails := (\<lambda>n. 20 \<le> n)\<rparr>; bc = sample_codec sample_entries;
       w1 = snd (lock_folder toy_crypto bc (sample_codec sample_record) E [''d''] [7] [9] sample_options None sample_world);
       w2 = snd (replay toy_crypto calm [9] \<lparr>j_op = LockOp, j_folder = [''d''], j_container = lock_dest [''d''],
        j_staging = lock_tmp [''d'']\<rparr> w1)
   in lookup w2 [''d'', ''s'', ''a''] = Some (File sample_file)
     \<or> (\<exists>c. content_at w2 (lock_dest [''d'']) c
          \<and> holds_folder toy_crypto bc E [9] [7] sample_options sample_world [''d''] c)"
proof -
  define E where "E = calm\<lparr>os_fails := (\<lambda>n. 20 \<le> n)\<rparr>"
  define w1 where "w1 = snd (lock_folder toy_crypto (sample_codec sample_entries) (sample_codec sample_record) E [''d''] [7] [9]
      sample_options None sample_world)"
  define w2 where "w2 = snd (replay toy_crypto calm [9] \<lparr>j_op = LockOp, j_folder = [''d''],
      j_container = lock_dest [''d''], j_staging = lock_tmp [''d'']\<rparr> w1)"
  have f: "lookup sample_world [''d'', ''s'', ''a''] = Some (File sample_file)"
    "lookup sample_world (lock_dest [''d'']) = None" "wf_fs (w_fs sample_world)" "journal_apart None [''d'']"
    by (simp_all add: lock_dest_def lookup_def sample_world_def get_sample_fs journal_apart_def)
  have "(\<forall>q. prefix [''d''] q \<longrightarrow> lookup w2 q = lookup sample_world q)
      \<or> (\<exists>c. content_at w2 (lock_dest [''d'']) c
          \<and> holds_folder toy_crypto (sample_codec sample_entries) E [9] [7] sample_options sample_world [''d''] c)"
    unfolding w2_def w1_def
    by (rule crashed_lock_is_recoverable [OF toy_crypto_ok sample_codec_ok f(3,4,2) _ prod.collapse [symmetric]
          prod.collapse [symmetric]]) simp
  then have "lookup w2 [''d'', ''s'', ''a''] = Some (File sample_file)
      \<or> (\<exists>c. content_at w2 (lock_dest [''d'']) c
          \<and> holds_folder toy_crypto (sample_codec sample_entries) E [9] [7] sample_options sample_world [''d''] c)"
    using f(1) by (elim disjE) simp_all
  then show ?thesis by (simp add: E_def [symmetric] w1_def [symmetric] w2_def [symmetric] Let_def)
qed

text \<open>
  C29: Recovery brings a killed lock to its end. Let a lock be killed, or fail, anywhere, such that
  the journal holds its record, and let the next start find this record on a file system that
  reports no error. Then the record is dropped, and one of two things has happened. If the lock
  was interrupted before the rename, it is rolled back: the folder is as it was, there is no
  container, and the staging copy of that lock is removed and reported. (A record of the same
  lock that an earlier run left behind is replayed as well; nothing is reported if there is no
  staging copy.) If it was interrupted after the rename, it is finished: what was left of the
  folder is removed and reported, and the container holds all of it.
\<close>

theorem interrupted_lock_is_finished:
  assumes ok: "crypto_ok cr" "codec_ok bc" "codec_ok jc" and wf: "wf_fs (w_fs w)" and ja: "journal_apart (Some jdir) src"
    and free: "lookup w (lock_dest src) = None" and src: "src \<noteq> []"
    and run: "lock_folder cr bc jc E src pw hk opts (Some jdir) w = (r, w1)"
    and p: "p = record_path jdir uuid" "uuid \<noteq> []" and d: "lookup w1 p = Some (File d)"
    and rec: "ser jc \<lparr>j_op = LockOp, j_folder = src, j_container = lock_dest src, j_staging = lock_tmp src\<rparr> = Inr (f_content d)"
    and nf: "no_fail E'" and same: "\<forall>q. lookup w2 q = lookup w1 q"
    and again: "recover_item cr jc E' hk p w2 = (acts, w3)"
  shows "lookup w3 p = None
    \<and> ((\<forall>q. prefix src q \<longrightarrow> lookup w3 q = lookup w q) \<and> lookup w3 (lock_dest src) = None
        \<and> acts = (if exists_path w1 (lock_tmp src) then [RolledBackLock (lock_tmp src)] else [])
        \<and> (lookup w p = None \<longrightarrow> acts = [RolledBackLock (lock_tmp src)] \<and> lookup w3 (lock_tmp src) = None)
      \<or> (\<exists>c. content_at w3 (lock_dest src) c \<and> holds_folder cr bc E hk pw opts w src c)
        \<and> (\<forall>q. prefix src q \<longrightarrow> lookup w3 q = None) \<and> lookup w3 (lock_tmp src) = None
        \<and> acts = (if lookup w1 src = None then [] else [FinishedLock src]))"
proof -
  let ?d = "lock_dest src" and ?t = "lock_tmp src"
  let ?rec = "\<lparr>j_op = LockOp, j_folder = src, j_container = lock_dest src, j_staging = lock_tmp src\<rparr>"
  let ?w = "w2\<lparr>w_tick := Suc (w_tick w2)\<rparr>"
  note paths = lock_paths [OF src]
  have isrec: "is_record (Some jdir) p" using p by (auto simp: is_record_def)
  have apart: "p \<noteq> ?t" "p \<noteq> ?d" "\<not> prefix src p" using isrec paths(4,5) record_apart [OF ja] by blast+
  have L: "lookup ?w q = lookup w1 q" for q using same by simp
  obtain a u where rp: "replay_lock cr E' hk ?rec ?w = (a, u)" by fastforce
  have "de jc (f_content d) = Some ?rec" using rec ok(3) by (simp add: codec_ok_def)
  moreover have "lookup w2 p = Some (File d)" using d same by simp
  ultimately have acts: "acts = (case a of None \<Rightarrow> [] | Some x \<Rightarrow> [x])" and w3: "w3 = snd (remove_file E' p u)"
    using recover_item_replays [OF nf, of w2 p d jc ?rec cr hk] again rp record_extension [OF p(2)] p(1)
    by (simp_all add: replay_def)
  have gone: "lookup w3 p = None" if u: "lookup u p = Some (File d)"
    using u nf by (simp add: w3 remove_file_def sysop_runs lookup_upd)
  have L3: "lookup w3 q = lookup u q" if "q \<noteq> p" for q
  proof -
    have "changes_only (\<lambda>q. q = p) u w3" unfolding w3 by (rule touched) (intro touches refl)
    with that show ?thesis by (simp add: changes_only_def)
  qed
  have out: "q \<noteq> p" if "prefix src q \<or> q = ?d \<or> q = ?t" for q using that apart by blast
  from lock_folder_states [OF ok(1,2) wf ja free src run] show ?thesis
  proof (elim disjE conjE)
    assume intact: "\<forall>q. prefix src q \<longrightarrow> lookup w1 q = lookup w q" "lookup w1 ?d = None"
      and staged: "\<forall>p. is_record (Some jdir) p \<and> lookup w p = None \<and> lookup w1 p \<noteq> None \<longrightarrow> (\<exists>d. lookup w1 ?t = Some (File d))"
    have nd: "\<not> exists_path ?w ?d" using intact(2) L by (simp add: exists_path_def lock_dest_def)
    show ?thesis
    proof (cases "exists_path w1 ?t")
      case True
      then have "exists_path ?w (j_staging ?rec)" using L by (simp add: exists_path_def)
      then obtain v where v: "replay_lock cr E' hk ?rec ?w = (Some (RolledBackLock (j_staging ?rec)), v)"
        "changes_only (\<lambda>q. q = j_staging ?rec) ?w v"
        "(\<exists>d. lookup ?w (j_staging ?rec) = Some (File d)) \<longrightarrow> lookup v (j_staging ?rec) = None"
        by (rule replay_lock_rolls_back [OF nf, of ?w ?rec cr hk])
      have a1: "a = Some (RolledBackLock ?t)" and uv: "u = v" using v(1) rp by simp_all
      have ch: "changes_only (\<lambda>q. q = ?t) ?w u" and tn: "lookup ?w ?t = Some (File d) \<Longrightarrow> lookup u ?t = None" for d
        using v(2,3) unfolding uv by simp_all
      have lu: "lookup u q = lookup w1 q" if "q \<noteq> ?t" for q using ch that L by (simp add: changes_only_def)
      have "lookup w3 ?t = None" if "lookup w p = None" using that staged isrec d tn L L3 apart(1) by auto
      moreover have "lookup w3 p = None" using gone lu apart(1) d by simp
      moreover have "(\<forall>q. prefix src q \<longrightarrow> lookup w3 q = lookup w q) \<and> lookup w3 ?d = None"
        using L3 lu out intact paths(2,3) by metis
      ultimately show ?thesis using a1 acts True by simp
    next
      case False
      then have "\<not> exists_path ?w (j_staging ?rec)" using L by (simp add: exists_path_def)
      moreover have "\<not> (exists_path ?w (j_folder ?rec) \<and> exists_path ?w (j_container ?rec))" using nd by simp
      ultimately obtain v where v: "replay_lock cr E' hk ?rec ?w = (None, v)" "\<forall>q. lookup v q = lookup ?w q"
        by (rule replay_lock_nothing [OF nf, of ?w ?rec cr hk])
      have a1: "a = None" and lu: "lookup u q = lookup ?w q" for q using v rp by simp_all
      have "lookup w p \<noteq> None" using False staged isrec d by (auto simp: exists_path_def)
      moreover have "lookup w3 p = None" using gone lu L d by simp
      moreover have "(\<forall>q. prefix src q \<longrightarrow> lookup w3 q = lookup w q) \<and> lookup w3 ?d = None"
        using L3 lu out intact L by metis
      ultimately show ?thesis using a1 acts False by simp
    qed
  next
    assume "\<exists>c. content_at w1 ?d c \<and> holds_folder cr bc E hk pw opts w src c" and t: "lookup w1 ?t = None"
      and st: "there_or_gone src w1"
    then obtain c where c: "content_at w1 ?d c" "holds_folder cr bc E hk pw opts w src c" by blast
    have nt: "\<not> exists_path ?w (j_staging ?rec)" using t L by (simp add: exists_path_def lock_tmp_def)
    have "\<exists>v. replay_lock cr E' hk ?rec ?w = (if lookup w1 src = None then None else Some (FinishedLock src), v)
        \<and> (\<forall>q. prefix src q \<longrightarrow> lookup v q = None) \<and> lookup v ?d = lookup w1 ?d \<and> lookup v ?t = None \<and> lookup v p = Some (File d)"
    proof (cases "lookup w1 src = Some Dir")
      case True
      have "structurally_complete cr hk w1 ?d"
        using c sealed_framed crypto_ok_def ok(1) unfolding structurally_complete_def content_at_def holds_folder_def by metis
      then have sc: "structurally_complete cr hk ?w (j_container ?rec)" using L by (simp add: structurally_complete_def)
      have dir: "j_folder ?rec \<noteq> []" "lookup ?w (j_folder ?rec) = Some Dir" using src True L by simp_all
      have ap: "\<not> prefix (j_folder ?rec) (j_container ?rec)" using paths(1) by simp
      obtain v where v: "replay_lock cr E' hk ?rec ?w = (Some (FinishedLock (j_folder ?rec)), v)"
        "\<forall>q. prefix (j_folder ?rec) q \<longrightarrow> lookup v q = None" "changes_only (\<lambda>q. prefix (j_folder ?rec) q) ?w v"
        by (rule replay_lock_finishes [OF nf nt dir sc ap])
      have "lookup v q = lookup w1 q" if "\<not> prefix src q" for q using v(3) that L by (simp add: changes_only_def)
      with v True t d paths(1,2) apart show ?thesis by (intro exI [of _ v]) simp
    next
      case False
      then have gone1: "\<forall>q. prefix src q \<longrightarrow> lookup w1 q = None" using st by (simp add: there_or_gone_def)
      then have "lookup w1 src = None" by simp
      then have "\<not> (exists_path ?w (j_folder ?rec) \<and> exists_path ?w (j_container ?rec))"
        using L src by (simp add: exists_path_def)
      then obtain v where v: "replay_lock cr E' hk ?rec ?w = (None, v)" "\<forall>q. lookup v q = lookup ?w q"
        by (rule replay_lock_nothing [OF nf nt])
      show ?thesis using v gone1 t d L \<open>lookup w1 src = None\<close> by (intro exI [of _ v]) simp
    qed
    then have a1: "a = (if lookup w1 src = None then None else Some (FinishedLock src))"
      and u: "\<forall>q. prefix src q \<longrightarrow> lookup u q = None" "lookup u ?d = lookup w1 ?d" "lookup u ?t = None" "lookup u p = Some (File d)"
      using rp by auto
    have "content_at w3 ?d c" using c(1) u(2) L3 out by (simp add: content_at_def)
    moreover have "\<forall>q. prefix src q \<longrightarrow> lookup w3 q = None" using u(1) L3 out by metis
    moreover have "lookup w3 ?t = None" "lookup w3 p = None" using u(3,4) L3 out gone by simp_all
    ultimately show ?thesis using c(2) a1 acts by auto
  qed
qed

theorem interrupted_lock_is_finished_witness:
  "\<exists>r w1 w2. lock_folder toy_crypto (sample_codec []) (sample_codec bare_record) (killed_at 15) [''d''] [7] [9]
        sample_options (Some [''j'']) bare_world = (r, w1) \<and> lookup w1 [''d''] = Some Dir
     \<and> recover_item toy_crypto (sample_codec bare_record) calm [9] (record_path [''j''] (replicate 16 0)) w1
        = ([FinishedLock [''d'']], w2) \<and> lookup w2 [''d''] = None"
proof -
  let ?p = "record_path [''j''] (replicate 16 0)" and ?d = "\<lparr>f_content = [1], f_readonly = False, f_mtime = 0\<rparr>"
  obtain r w1 where run: "lock_folder toy_crypto (sample_codec []) (sample_codec bare_record) (killed_at 15) [''d''] [7] [9]
      sample_options (Some [''j'']) bare_world = (r, w1)" and left: "lookup w1 [''d''] = Some Dir"
    "lookup w1 (lock_tmp [''d'']) = None" and d: "lookup w1 ?p = Some (File ?d)" by (rule bare_lock)
  have free: "lookup bare_world (lock_dest [''d'']) = None" "lookup bare_world ?p = None" "journal_apart (Some [''j'']) [''d'']"
    "[''d''] \<noteq> []" "replicate 16 0 \<noteq> ([] :: byte list)"
    by (simp_all add: bare_lookup lock_dest_def record_path_def journal_apart_def)
  have rec: "ser (sample_codec bare_record) \<lparr>j_op = LockOp, j_folder = [''d''], j_container = lock_dest [''d''],
      j_staging = lock_tmp [''d'']\<rparr> = Inr (f_content ?d)"
    by (simp add: sample_codec_def bare_record_def)
  obtain acts w2 where again: "recover_item toy_crypto (sample_codec bare_record) calm [9] ?p w1 = (acts, w2)" by fastforce
  have nt: "\<not> exists_path w1 (lock_tmp [''d''])" using left(2) by (simp add: exists_path_def lock_tmp_def)
  have "acts = [FinishedLock [''d'']] \<and> lookup w2 [''d''] = None"
    using interrupted_lock_is_finished [OF toy_crypto_ok sample_codec_ok sample_codec_ok bare_parts(3) free(3,1,4) run refl
        free(5) d rec no_fail_calm _ again] nt left free(2) by auto
  with run left again show ?thesis by blast
qed

text \<open>
  C30: The journal reads back what it wrote: records of different containers are in different
  files, and a file written by \<open>begin\<close>, found again at the next start, makes \<open>recover\<close> replay
  exactly that record and then drop the file.
\<close>

theorem journal_record_roundtrip:
  assumes "journal_begin jc E dir uuid rec w = (Inr p, w1)" and "codec_ok jc" and "uuid \<noteq> []"
    and "no_fail E'" and "lookup w2 p = lookup w1 p"
  shows "(\<forall>uuid'. uuid' \<noteq> uuid \<longrightarrow> record_path dir uuid' \<noteq> p)
    \<and> fst (recover_item cr jc E' k p w2) =
        (case fst (replay cr E' k rec (w2\<lparr>w_tick := Suc (w_tick w2)\<rparr>)) of None \<Rightarrow> [] | Some x \<Rightarrow> [x])
    \<and> (lookup (snd (replay cr E' k rec (w2\<lparr>w_tick := Suc (w_tick w2)\<rparr>))) p = lookup w2 p \<longrightarrow>
        lookup (snd (recover_item cr jc E' k p w2)) p = None)"
proof -
  obtain d where d: "p = record_path dir uuid" "lookup w2 p = Some (File d)" "ser jc rec = Inr (f_content d)"
    using journal_begin_writes [OF assms(1)] assms(5) by auto
  have "de jc (f_content d) = Some rec" using d(3) assms(2) by (simp add: codec_ok_def)
  from recover_item_replays [where jc = jc, OF assms(4) d(2) _ this]
  have r: "recover_item cr jc E' k p w2 =
     (case replay cr E' k rec (w2\<lparr>w_tick := Suc (w_tick w2)\<rparr>) of
        (a, u) \<Rightarrow> (case a of None \<Rightarrow> [] | Some x \<Rightarrow> [x], snd (remove_file E' p u)))"
    using record_extension [OF assms(3)] d(1) by simp
  moreover have "lookup (snd (remove_file E' p u)) p = None" if "lookup u p = Some (File d)" for u
    using that assms(4) by (simp add: remove_file_def sysop_runs lookup_upd)
  ultimately show ?thesis using d record_path_inj by (auto split: prod.splits)
qed

theorem journal_record_roundtrip_witness:
  "\<exists>p w1. journal_begin (sample_codec sample_record) calm [''j''] [7] sample_record journal_world = (Inr p, w1)
     \<and> fst (recover_item toy_crypto (sample_codec sample_record) calm [] p w1) = [RolledBackLock [''t'']]"
proof -
  let ?p = "record_path [''j''] [7]"
  have p: "?p \<noteq> []" "butlast ?p = [''j'']" "[''j''] \<noteq> ?p" "[''t''] \<noteq> ?p"
    by (simp_all add: record_path_def)
  have nf: "os_fails calm n = False" for n by (simp add: calm_def)
  have "get (w_fs journal_world) ?p = None" using p(3,4) by (simp add: journal_world_def get_def eq_commute)
  then have free: "lookup journal_world ?p = None" "parent_is_dir journal_world ?p"
    using p by (simp_all add: lookup_def parent_is_dir_def is_dir_path_def journal_world_def get_def)
  obtain w1 where b: "journal_begin (sample_codec sample_record) calm [''j''] [7] sample_record journal_world = (Inr ?p, w1)"
    using free by (simp add: journal_begin_def sample_codec_def bindE_def mapE_def create_file_def append_file_def
        sync_all_def sysop_def Let_def nf)
  have "keeps (changes_only (\<lambda>q. q = ?p)) (journal_begin (sample_codec sample_record) calm [''j''] [7] sample_record)"
    by (intro touches refl)
  from keepsD [OF this b] have "lookup w1 [''t''] = Some (File sample_file)"
    using p(4) by (simp add: changes_only_def lookup_def journal_world_def get_def)
  then have "fst (replay toy_crypto calm [] sample_record (w1\<lparr>w_tick := Suc (w_tick w1)\<rparr>)) = Some (RolledBackLock [''t''])"
    by (simp add: replay_def sample_record_def replay_lock_def path_exists_def nf exists_path_def)
  with journal_record_roundtrip [OF b sample_codec_ok _ no_fail_calm refl, of toy_crypto "[]"] b show ?thesis by simp
qed

end
