(* ===== verification/Secrets.thy ===== *)
theory Secrets
  imports Filesys
begin

text \<open>
  \<open>crates/vault-core/src/secrets.rs\<close>: the per-install secret files \<open>install.key\<close> (the HMAC key of
  the container headers) and \<open>master.pub\<close>. The Windows data protection API is a parameter; on
  other systems the code protects nothing.
\<close>

section \<open>The code\<close>

text \<open>\<open>b"FVP1"\<close>.\<close>

definition DPAPI_MAGIC :: "byte list" where
  "DPAPI_MAGIC = [0x46, 0x56, 0x50, 0x31]"

text \<open>\<open>CryptProtectData\<close> and \<open>CryptUnprotectData\<close> on the bytes of a blob, \<open>None\<close> when they fail.\<close>

record dpapi =
  crypt_protect :: "byte list \<Rightarrow> byte list option"
  crypt_unprotect :: "byte list \<Rightarrow> byte list option"

datatype platform = Windows dpapi | NonWindows

text \<open>The length of a blob is passed as \<open>len() as u32\<close>.\<close>

definition blob_of :: "byte list \<Rightarrow> byte list" where
  "blob_of b = take (unat (word_of_nat (length b) :: u32)) b"

definition protect :: "platform \<Rightarrow> byte list \<Rightarrow> byte list option" where
  "protect P plain = (case P of Windows dp \<Rightarrow> crypt_protect dp (blob_of plain) | NonWindows \<Rightarrow> Some plain)"

definition unprotect :: "platform \<Rightarrow> byte list \<Rightarrow> byte list option" where
  "unprotect P blob = (case P of Windows dp \<Rightarrow> crypt_unprotect dp (blob_of blob) | NonWindows \<Rightarrow> Some blob)"

text \<open>Environment variables that hold paths, and the directory relative paths start from.\<close>

record env_vars =
  var_os :: "string \<Rightarrow> path option"
  current_dir :: path

definition data_dir :: "env_vars \<Rightarrow> path" where
  "data_dir V =
     (case var_os V ''FVLT_KEY_DIR'' of Some p \<Rightarrow> p
      | None \<Rightarrow>
          (case var_os V ''LOCALAPPDATA'' of Some d \<Rightarrow> d @ [''FolderVault'']
           | None \<Rightarrow> current_dir V @ [''.foldervault'']))"

definition open_protected :: "platform \<Rightarrow> byte list \<Rightarrow> io_kind + byte list option" where
  "open_protected P raw =
     (if 4 \<le> length raw \<and> take 4 raw = DPAPI_MAGIC
      then (case unprotect P (drop 4 raw) of None \<Rightarrow> Inl InvalidData | Some plain \<Rightarrow> Inr (Some plain))
      else Inr (Some raw))"

definition read_protected :: "platform \<Rightarrow> os \<Rightarrow> path \<Rightarrow> byte list option io" where
  "read_protected P E p w =
     (case open_read E p w of
        (Inr raw, w) \<Rightarrow> (open_protected P raw, w)
      | (Inl NotFound, w) \<Rightarrow> (Inr None, w)
      | (Inl e, w) \<Rightarrow> (Inl e, w))"

definition write_protected :: "platform \<Rightarrow> os \<Rightarrow> path \<Rightarrow> byte list \<Rightarrow> unit io" where
  "write_protected P E p plain =
     (case protect P plain of
        None \<Rightarrow> throwE OtherIo
      | Some protected \<Rightarrow> write_file E p (DPAPI_MAGIC @ protected))"

definition new_install_key :: "platform \<Rightarrow> os \<Rightarrow> path \<Rightarrow> byte list io" where
  "new_install_key P E base =
     bindE (create_dir_all E base) (\<lambda>_ w.
       case fill_bytes 32 (w_rng w) of
         (k, r) \<Rightarrow> bindE (write_protected P E (base @ [''install.key'']) k) (\<lambda>_. returnE k) (w\<lparr>w_rng := r\<rparr>))"

definition load_or_create_install_key :: "platform \<Rightarrow> os \<Rightarrow> path \<Rightarrow> byte list io" where
  "load_or_create_install_key P E base =
     bindE (read_protected P E (base @ [''install.key''])) (\<lambda>found.
       case found of
         Some bytes \<Rightarrow> if length bytes = 32 then returnE bytes else new_install_key P E base
       | None \<Rightarrow> new_install_key P E base)"

definition load_master_pub :: "platform \<Rightarrow> os \<Rightarrow> path \<Rightarrow> world \<Rightarrow> byte list option \<times> world" where
  "load_master_pub P E base w =
     (case read_protected P E (base @ [''master.pub'']) w of
        (Inr (Some bytes), w) \<Rightarrow> (if length bytes = 32 then Some bytes else None, w)
      | (_, w) \<Rightarrow> (None, w))"

definition save_master_pub :: "platform \<Rightarrow> os \<Rightarrow> path \<Rightarrow> byte list \<Rightarrow> unit io" where
  "save_master_pub P E base pub =
     bindE (create_dir_all E base) (\<lambda>_. write_protected P E (base @ [''master.pub'']) pub)"

section \<open>Protection\<close>

text \<open>What the code relies on: a protected blob can be unprotected to what was protected.\<close>

locale protection =
  fixes prot :: "byte list \<Rightarrow> byte list option"
    and unprot :: "byte list \<Rightarrow> byte list option"
  assumes unprot_prot: "prot p = Some b \<Longrightarrow> length p < 4096 \<Longrightarrow> unprot b = Some p"
begin

lemma prot_inj: "prot p = Some b \<Longrightarrow> prot q = Some b \<Longrightarrow> length p < 4096 \<Longrightarrow> length q < 4096 \<Longrightarrow> p = q"
  by (metis option.inject unprot_prot)

lemma opens_written:
  assumes "prot p = Some b" and "length p < 4096"
  shows "(case unprot (drop 4 (DPAPI_MAGIC @ b)) of None \<Rightarrow> Inl e | Some q \<Rightarrow> Inr (Some q)) = Inr (Some p)"
  using unprot_prot [OF assms] by (simp add: DPAPI_MAGIC_def)

end

interpretation plain_files: protection "protect NonWindows" "unprotect NonWindows"
  by unfold_locales (simp add: protect_def unprotect_def)

text \<open>The law for the data protection API, and blobs that fit the 32-bit length.\<close>

definition dpapi_ok :: "dpapi \<Rightarrow> bool" where
  "dpapi_ok dp \<longleftrightarrow> (\<forall>p b. crypt_protect dp p = Some b \<longrightarrow> length p < 4096 \<longrightarrow>
     crypt_unprotect dp b = Some p \<and> length b < 2 ^ 32)"

definition platform_ok :: "platform \<Rightarrow> bool" where
  "platform_ok P \<longleftrightarrow> (case P of Windows dp \<Rightarrow> dpapi_ok dp | NonWindows \<Rightarrow> True)"

lemma blob_of_id: "length b < 2 ^ 32 \<Longrightarrow> blob_of b = b"
  by (simp add: blob_of_def unat_of_nat)

lemma protection_of: "platform_ok P \<Longrightarrow> protection (protect P) (unprotect P)"
proof (cases P)
  case (Windows dp)
  assume ok: "platform_ok P"
  show ?thesis
  proof
    fix p b
    assume "protect P p = Some b" and l: "length p < 4096"
    moreover have "length p < 2 ^ 32" using l by simp
    ultimately have "crypt_protect dp p = Some b" using blob_of_id by (simp add: protect_def Windows)
    with ok l have "crypt_unprotect dp b = Some p" "length b < 2 ^ 32"
      by (auto simp: platform_ok_def dpapi_ok_def Windows)
    then show "unprotect P b = Some p" using blob_of_id by (simp add: unprotect_def Windows)
  qed
next
  case NonWindows
  then show ?thesis using plain_files.protection_axioms by simp
qed

section \<open>What the loaders do\<close>

lemma open_protected_written:
  assumes "platform_ok P" and "protect P p = Some b" and "length p < 4096"
  shows "open_protected P (DPAPI_MAGIC @ b) = Inr (Some p)"
  using protection.opens_written [OF protection_of [OF assms(1)] assms(2,3)]
  by (simp add: open_protected_def DPAPI_MAGIC_def)

lemma read_protected_same:
  assumes "read_protected P E p w = (r, w')"
  shows "w' = w\<lparr>w_tick := Suc (w_tick w)\<rparr>"
    and "r = Inr (Some bytes) \<Longrightarrow>
           \<exists>d. lookup w p = Some (File d) \<and> open_protected P (f_content d) = Inr (Some bytes)"
proof -
  have "snd (open_read E p w) = w\<lparr>w_tick := Suc (w_tick w)\<rparr>"
    by (simp add: open_read_def sysop_def unspoiled_def Let_def split: option.split node.split)
  with assms show "w' = w\<lparr>w_tick := Suc (w_tick w)\<rparr>"
    by (auto simp: read_protected_def split: prod.splits sum.splits io_kind.splits)
  show "r = Inr (Some bytes) \<Longrightarrow>
           \<exists>d. lookup w p = Some (File d) \<and> open_protected P (f_content d) = Inr (Some bytes)"
    using assms by (auto simp: read_protected_def split: prod.splits sum.splits io_kind.splits dest!: open_read_Inr)
qed

lemma read_protected_runs:
  assumes "no_fail E" and "lookup w p = Some (File d)"
  shows "read_protected P E p w = (open_protected P (f_content d), w\<lparr>w_tick := Suc (w_tick w)\<rparr>)"
  using assms by (simp add: read_protected_def open_read_def sysop_runs)

lemma write_protected_Inr:
  assumes "write_protected P E p plain w = (Inr u, w')"
  shows "\<exists>b d. protect P plain = Some b \<and> lookup w' p = Some (File d) \<and> f_content d = DPAPI_MAGIC @ b"
proof -
  from assms obtain b w1 u1 where b: "protect P plain = Some b" and c: "create_file E p w = (Inr u1, w1)"
    and a: "append_file E p (DPAPI_MAGIC @ b) w1 = (Inr u, w')"
    by (auto simp: write_protected_def write_file_def bindE_Inr_iff split: option.splits)
  from create_file_Inr [OF c] obtain d where "lookup w1 p = Some (File d)" "f_content d = []" by blast
  with append_file_Inr [OF a] b show ?thesis by simp
qed

text \<open>A key that was returned is the one the file holds.\<close>

definition key_in_file :: "platform \<Rightarrow> path \<Rightarrow> byte list \<Rightarrow> world \<Rightarrow> bool" where
  "key_in_file P base k w \<longleftrightarrow> length k = 32
     \<and> (\<exists>d. lookup w (base @ [''install.key'']) = Some (File d) \<and> open_protected P (f_content d) = Inr (Some k))"

lemma new_install_key_Inr:
  assumes "new_install_key P E base w = (Inr k, w')" and "platform_ok P"
  shows "key_in_file P base k w'"
proof -
  from assms(1) obtain w1 w2 r u where k: "fill_bytes 32 (w_rng w1) = (k, r)"
    and w: "write_protected P E (base @ [''install.key'']) k (w1\<lparr>w_rng := r\<rparr>) = (Inr u, w')"
    by (auto simp: new_install_key_def bindE_Inr_iff fill_bytes_def)
  from k have "length k = 32" by (auto simp: fill_bytes_def)
  moreover from this have "length k < 4096" by simp
  ultimately show ?thesis
    using write_protected_Inr [OF w] open_protected_written [OF assms(2)] unfolding key_in_file_def by metis
qed

lemma load_Inr:
  assumes "load_or_create_install_key P E base w = (Inr k, w')" and "platform_ok P"
  shows "key_in_file P base k w'"
proof -
  from assms(1) obtain found w1 where rd: "read_protected P E (base @ [''install.key'']) w = (Inr found, w1)"
    and rest: "(case found of Some bytes \<Rightarrow> if length bytes = 32 then returnE bytes else new_install_key P E base
       | None \<Rightarrow> new_install_key P E base) w1 = (Inr k, w')"
    by (auto simp: load_or_create_install_key_def bindE_Inr_iff)
  show ?thesis
  proof (cases "found = Some k \<and> length k = 32 \<and> w' = w1")
    case True
    then show ?thesis
      using read_protected_same(2) [OF rd] read_protected_same(1) [OF rd] by (auto simp: key_in_file_def)
  next
    case False
    then have "new_install_key P E base w1 = (Inr k, w')"
      using rest by (auto split: option.splits if_splits)
    then show ?thesis using assms(2) by (rule new_install_key_Inr)
  qed
qed

lemma load_of_key:
  assumes "no_fail E" and "key_in_file P base k w"
  shows "load_or_create_install_key P E base w = (Inr k, w\<lparr>w_tick := Suc (w_tick w)\<rparr>)"
  using assms read_protected_runs by (fastforce simp: load_or_create_install_key_def key_in_file_def bindE_def)

lemma load_keeps_key:
  assumes "key_in_file P base k w" and "load_or_create_install_key P E base w = (r, w')"
  shows "(r = Inr k \<or> isl r) \<and> w' = w\<lparr>w_tick := Suc (w_tick w)\<rparr>"
proof -
  from assms(1) obtain d where l: "length k = 32" and d: "lookup w (base @ [''install.key'']) = Some (File d)"
    "open_protected P (f_content d) = Inr (Some k)" by (auto simp: key_in_file_def)
  then have "read_protected P E (base @ [''install.key'']) w =
      (if os_fails E (w_tick w) then Inl OtherIo else Inr (Some k), w\<lparr>w_tick := Suc (w_tick w)\<rparr>)"
    by (simp add: read_protected_def open_read_def sysop_def unspoiled_def Let_def)
  with assms(2) l show ?thesis by (auto simp: load_or_create_install_key_def bindE_def split: if_splits)
qed

lemma load_master_pub_same: "load_master_pub P E base w = (pub, w') \<Longrightarrow> w' = w\<lparr>w_tick := Suc (w_tick w)\<rparr>"
  unfolding load_master_pub_def
  by (cases "read_protected P E (base @ [''master.pub'']) w")
     (auto dest: read_protected_same(1) split: sum.splits option.splits)

section \<open>Properties\<close>

lemma new_install_key_effect:
  assumes "new_install_key P E base w = (Inr k, w')"
  shows "changes_only (\<lambda>q. prefix q (base @ [''install.key''])) w w'"
    and "\<exists>b d. protect P k = Some b \<and> lookup w' (base @ [''install.key'']) = Some (File d) \<and> f_content d = DPAPI_MAGIC @ b"
proof -
  let ?P = "\<lambda>q. prefix q (base @ [''install.key''])"
  from assms obtain w1 r u1 u where c: "create_dir_all E base w = (Inr u1, w1)"
    and w: "write_protected P E (base @ [''install.key'']) k (w1\<lparr>w_rng := r\<rparr>) = (Inr u, w')"
    by (auto simp: new_install_key_def bindE_Inr_iff fill_bytes_def)
  have "keeps (changes_only ?P) (create_dir_all E base)" by (rule create_dir_all_touches) simp
  from keepsD [OF this c] have 1: "changes_only ?P w (w1\<lparr>w_rng := r\<rparr>)" by (simp add: changes_only_def)
  have "keeps (changes_only ?P) (write_file E (base @ [''install.key'']) bs)" for bs
    by (rule write_file_touches) simp
  then have "keeps (changes_only ?P) (write_protected P E (base @ [''install.key'']) k)"
    by (cases "protect P k") (auto simp: write_protected_def keeps_def changes_only_def)
  from keepsD [OF this w] 1 show "changes_only ?P w w'" by (simp add: changes_only_def)
  show "\<exists>b d. protect P k = Some b \<and> lookup w' (base @ [''install.key'']) = Some (File d) \<and> f_content d = DPAPI_MAGIC @ b"
    using write_protected_Inr [OF w] .
qed

lemma load_effect:
  assumes "load_or_create_install_key P E base w = (Inr k, w')"
  shows "changes_only (\<lambda>q. prefix q (base @ [''install.key''])) w w'"
    and "(\<forall>q. lookup w' q = lookup w q) \<or> (\<exists>b d. protect P k = Some b
      \<and> lookup w' (base @ [''install.key'']) = Some (File d) \<and> f_content d = DPAPI_MAGIC @ b)"
proof -
  from assms obtain found w1 where rd: "read_protected P E (base @ [''install.key'']) w = (Inr found, w1)"
    and rest: "(case found of Some bytes \<Rightarrow> if length bytes = 32 then returnE bytes else new_install_key P E base
       | None \<Rightarrow> new_install_key P E base) w1 = (Inr k, w')"
    by (auto simp: load_or_create_install_key_def bindE_Inr_iff)
  have same: "lookup w1 q = lookup w q" for q using read_protected_same(1) [OF rd] by simp
  consider "w' = w1" | "new_install_key P E base w1 = (Inr k, w')"
    using rest by (auto split: option.splits if_splits)
  then have "changes_only (\<lambda>q. prefix q (base @ [''install.key''])) w1 w' \<and>
      ((\<forall>q. lookup w' q = lookup w1 q) \<or> (\<exists>b d. protect P k = Some b
      \<and> lookup w' (base @ [''install.key'']) = Some (File d) \<and> f_content d = DPAPI_MAGIC @ b))"
    using new_install_key_effect by cases (simp add: changes_only_def, blast)
  then show "changes_only (\<lambda>q. prefix q (base @ [''install.key''])) w w'"
    "(\<forall>q. lookup w' q = lookup w q) \<or> (\<exists>b d. protect P k = Some b
      \<and> lookup w' (base @ [''install.key'']) = Some (File d) \<and> f_content d = DPAPI_MAGIC @ b)"
    by (simp_all add: changes_only_def same)
qed

text \<open>
  C31: The install key persists. Whatever the environment and whatever was on disk, a key that
  \<open>load_or_create_install_key\<close> returns is 32 bytes long. If the file held a key already - a
  legacy raw one or a protected one - that key is returned and nothing on disk has changed, so a
  legacy file is read but not rewritten; otherwise nothing has changed, or the file now holds the
  key under protection; and nothing but the file and the directories above it is touched. As long
  as the file is not changed, every later start that meets no I/O error returns the same key, and
  no later start, whatever fails in it, returns another key or changes anything on disk.
\<close>

theorem install_key_persists:
  assumes "load_or_create_install_key P E base w = (Inr k, w1)" and "platform_ok P"
    and "lookup w2 (base @ [''install.key'']) = lookup w1 (base @ [''install.key''])" and "no_fail E'"
  shows "length k = 32
    \<and> (\<forall>d. lookup w (base @ [''install.key'']) = Some (File d) \<longrightarrow> length (f_content d) = 32 \<longrightarrow>
         take 4 (f_content d) \<noteq> DPAPI_MAGIC \<longrightarrow> k = f_content d \<and> (\<forall>q. lookup w1 q = lookup w q))
    \<and> (\<forall>d b old. lookup w (base @ [''install.key'']) = Some (File d) \<longrightarrow> f_content d = DPAPI_MAGIC @ b \<longrightarrow>
         protect P old = Some b \<longrightarrow> length old = 32 \<longrightarrow> k = old \<and> (\<forall>q. lookup w1 q = lookup w q))
    \<and> ((\<forall>q. lookup w1 q = lookup w q) \<or> (\<exists>b d. protect P k = Some b
         \<and> lookup w1 (base @ [''install.key'']) = Some (File d) \<and> f_content d = DPAPI_MAGIC @ b))
    \<and> changes_only (\<lambda>q. prefix q (base @ [''install.key''])) w w1
    \<and> load_or_create_install_key P E' base w2 = (Inr k, w2\<lparr>w_tick := Suc (w_tick w2)\<rparr>)
    \<and> (\<forall>E''. (fst (load_or_create_install_key P E'' base w2) = Inr k
               \<or> isl (fst (load_or_create_install_key P E'' base w2)))
            \<and> (\<forall>q. lookup (snd (load_or_create_install_key P E'' base w2)) q = lookup w2 q))"
proof -
  have "key_in_file P base k w1" using assms(1,2) by (rule load_Inr)
  then have "key_in_file P base k w2" using assms(3) by (simp add: key_in_file_def)
  note later = this load_of_key [OF assms(4) this] load_keeps_key [OF this prod.collapse [symmetric]]
  have held: "k = old \<and> (\<forall>q. lookup w1 q = lookup w q)" if "key_in_file P base old w" for old
    using load_keeps_key [OF that assms(1)] by simp
  have "k = f_content d \<and> (\<forall>q. lookup w1 q = lookup w q)"
    if "lookup w (base @ [''install.key'']) = Some (File d)" "length (f_content d) = 32" "take 4 (f_content d) \<noteq> DPAPI_MAGIC" for d
    using that by (intro held) (simp add: key_in_file_def open_protected_def)
  moreover have "k = old \<and> (\<forall>q. lookup w1 q = lookup w q)"
    if "lookup w (base @ [''install.key'']) = Some (File d)" "f_content d = DPAPI_MAGIC @ b" "protect P old = Some b" "length old = 32" for d b old
    using that open_protected_written [OF assms(2) that(3)] by (intro held) (simp add: key_in_file_def)
  ultimately show ?thesis
    using later load_effect [OF assms(1)] by (simp add: key_in_file_def)
qed

definition legacy_world :: world where
  "legacy_world = \<lparr>w_fs = [([''k''], Dir), ([''k'', ''install.key''],
     File \<lparr>f_content = replicate 32 7, f_readonly = False, f_mtime = 0\<rparr>)],
     w_bin = [], w_rng = (\<lambda>_. 0), w_tick = 0, w_progress = []\<rparr>"

lemma open_protected_legacy: "open_protected NonWindows (replicate 32 7) = Inr (Some (replicate 32 7))"
proof -
  have "take 4 (replicate 32 7) \<noteq> DPAPI_MAGIC"
  proof
    assume "take 4 (replicate 32 7) = DPAPI_MAGIC"
    then have "hd (take 4 (replicate 32 (7 :: byte))) = 0x46" by (simp add: DPAPI_MAGIC_def)
    then show False by simp
  qed
  then show ?thesis by (simp add: open_protected_def)
qed

theorem install_key_persists_witness:
  "load_or_create_install_key NonWindows calm [''k''] legacy_world = (Inr (replicate 32 7), legacy_world\<lparr>w_tick := 1\<rparr>)
   \<and> load_or_create_install_key NonWindows calm [''k''] (legacy_world\<lparr>w_tick := 1\<rparr>)
       = (Inr (replicate 32 7), legacy_world\<lparr>w_tick := 2\<rparr>)"
proof -
  have keyfile: "lookup legacy_world [''k'', ''install.key''] =
      Some (File \<lparr>f_content = replicate 32 7, f_readonly = False, f_mtime = 0\<rparr>)"
    by (simp add: lookup_def get_def legacy_world_def)
  moreover note open_protected_legacy
  ultimately have "key_in_file NonWindows [''k''] (replicate 32 7) legacy_world" by (simp add: key_in_file_def)
  from load_of_key [OF no_fail_calm this]
  have l: "load_or_create_install_key NonWindows calm [''k''] legacy_world = (Inr (replicate 32 7), legacy_world\<lparr>w_tick := 1\<rparr>)"
    by (simp add: legacy_world_def)
  have "platform_ok NonWindows" by (simp add: platform_ok_def)
  from install_key_persists [OF l this refl no_fail_calm] l show ?thesis by (simp add: numeral_2_eq_2)
qed

end
