(* ===== verification/Unicode.thy ===== *)
theory Unicode
  imports Recovery
begin

text \<open>
  What the front ends use of Rust's strings: a \<open>String\<close> is the list of its characters (\<open>uchar\<close>),
  \<open>as_bytes\<close> and \<open>len\<close> are those of its UTF-8 encoding, and Windows is spoken to in UTF-16
  (\<open>encode_utf16\<close>, \<open>String::from_utf16_lossy\<close>). All of this is the standard library.
\<close>

type_synonym u16 = "16 word"

text \<open>A Unicode scalar value, the only values of the type \<open>char\<close>.\<close>

definition scalar :: "uchar \<Rightarrow> bool" where
  "scalar c \<longleftrightarrow> unat c < 0xD800 \<or> 0xE000 \<le> unat c \<and> unat c < 0x110000"

section \<open>UTF-8\<close>

definition utf8_char :: "uchar \<Rightarrow> byte list" where
  "utf8_char c =
     (let n = unat c
      in if n < 0x80 then [word_of_nat n]
         else if n < 0x800 then [word_of_nat (0xC0 + n div 64), word_of_nat (0x80 + n mod 64)]
         else if n < 0x10000
         then [word_of_nat (0xE0 + n div 4096), word_of_nat (0x80 + n div 64 mod 64), word_of_nat (0x80 + n mod 64)]
         else [word_of_nat (0xF0 + n div 262144), word_of_nat (0x80 + n div 4096 mod 64),
               word_of_nat (0x80 + n div 64 mod 64), word_of_nat (0x80 + n mod 64)])"

definition utf8 :: "uchar list \<Rightarrow> byte list" where
  "utf8 s = concat (map utf8_char s)"

definition str_len :: "uchar list \<Rightarrow> nat" where
  "str_len s = length (utf8 s)"

text \<open>A literal of the source, all of whose characters are ASCII.\<close>

definition lit :: "string \<Rightarrow> uchar list" where
  "lit s = map (\<lambda>c. word_of_nat (of_char c :: nat)) s"

section \<open>UTF-16\<close>

definition utf16_char :: "uchar \<Rightarrow> u16 list" where
  "utf16_char c =
     (let n = unat c
      in if n < 0x10000 then [word_of_nat n]
         else [word_of_nat (0xD800 + (n - 0x10000) div 1024), word_of_nat (0xDC00 + (n - 0x10000) mod 1024)])"

definition encode_utf16 :: "uchar list \<Rightarrow> u16 list" where
  "encode_utf16 s = concat (map utf16_char s)"

definition high_surrogate :: "u16 \<Rightarrow> bool" where
  "high_surrogate u \<longleftrightarrow> 0xD800 \<le> unat u \<and> unat u < 0xDC00"

definition low_surrogate :: "u16 \<Rightarrow> bool" where
  "low_surrogate u \<longleftrightarrow> 0xDC00 \<le> unat u \<and> unat u < 0xE000"

text \<open>A surrogate without its partner is read as the replacement character U+FFFD.\<close>

fun utf16_lossy :: "u16 list \<Rightarrow> uchar list" where
  "utf16_lossy [] = []"
| "utf16_lossy (u # us) =
     (if high_surrogate u
      then (case us of
              v # vs \<Rightarrow>
                if low_surrogate v
                then word_of_nat (0x10000 + (unat u - 0xD800) * 1024 + (unat v - 0xDC00)) # utf16_lossy vs
                else 0xFFFD # utf16_lossy us
            | [] \<Rightarrow> [0xFFFD])
      else (if low_surrogate u then 0xFFFD else word_of_nat (unat u)) # utf16_lossy us)"

section \<open>Laws\<close>

lemma utf8_simps [simp]: "utf8 [] = []" "utf8 (c # s) = utf8_char c @ utf8 s" "utf8 (s @ t) = utf8 s @ utf8 t"
  by (simp_all add: utf8_def)

lemma utf8_char_nonempty [simp]: "utf8_char c \<noteq> []"
  by (simp add: utf8_char_def Let_def)

lemma utf8_empty [simp]: "utf8 s = [] \<longleftrightarrow> s = []"
  by (cases s) simp_all

text \<open>The length in bytes is between one and four times the number of characters.\<close>

lemma length_utf8_char: "1 \<le> length (utf8_char c) \<and> length (utf8_char c) \<le> 4"
  by (simp add: utf8_char_def Let_def)

lemma str_len_bounds: "length s \<le> str_len s \<and> str_len s \<le> 4 * length s"
proof (induction s)
  case (Cons c s)
  then show ?case using length_utf8_char [of c] by (simp add: str_len_def)
qed (simp add: str_len_def)

lemma encode_utf16_simps [simp]:
  "encode_utf16 [] = []" "encode_utf16 (c # s) = utf16_char c @ encode_utf16 s"
  by (simp_all add: encode_utf16_def)

lemma unat_u16 [simp]: "n < 65536 \<Longrightarrow> unat (word_of_nat n :: u16) = n"
  by (simp add: unat_of_nat)

lemma unat_uchar: "n < 4294967296 \<Longrightarrow> unat (word_of_nat n :: uchar) = n"
  by (simp add: unat_of_nat)

lemma decode_utf16_char:
  assumes "scalar c"
  shows "utf16_lossy (utf16_char c @ us) = c # utf16_lossy us"
proof (cases "unat c < 0x10000")
  case True
  define n where "n = unat c"
  have n: "n < 65536" "n < 55296 \<or> 57344 \<le> n" using True assms by (auto simp: n_def scalar_def)
  then have "\<not> high_surrogate (word_of_nat n)" "\<not> low_surrogate (word_of_nat n)"
    by (auto simp: high_surrogate_def low_surrogate_def)
  moreover have "(word_of_nat n :: uchar) = c" by (simp add: n_def)
  ultimately show ?thesis using n by (simp add: utf16_char_def Let_def n_def [symmetric])
next
  case False
  define m where "m = unat c - 0x10000"
  have m: "m < 1048576" "unat c = 65536 + m" using assms False by (auto simp: m_def scalar_def)
  then have d: "m div 1024 < 1024" by (simp add: div_less_iff_less_mult)
  define hi lo where "hi = 55296 + m div 1024" and "lo = 56320 + m mod 1024"
  have hl: "hi < 56320" "55296 \<le> hi" "lo < 57344" "56320 \<le> lo" using d by (simp_all add: hi_def lo_def)
  then have s: "high_surrogate (word_of_nat hi)" "low_surrogate (word_of_nat lo)"
    by (simp_all add: high_surrogate_def low_surrogate_def)
  have "(word_of_nat (unat c) :: uchar) = c" by simp
  then have "(word_of_nat (65536 + m) :: uchar) = c" unfolding m(2) .
  moreover have "65536 + (hi - 55296) * 1024 + (lo - 56320) = 65536 + m" by (simp add: hi_def lo_def)
  moreover have "utf16_char c = [word_of_nat hi, word_of_nat lo]"
    using False unfolding utf16_char_def Let_def m_def [symmetric] hi_def lo_def by simp
  ultimately show ?thesis using hl s by simp
qed

lemma utf16_roundtrip: "list_all scalar s \<Longrightarrow> utf16_lossy (encode_utf16 s @ us) = s @ utf16_lossy us"
  by (induction s) (simp_all add: decode_utf16_char)

lemmas utf16_roundtrip_all = utf16_roundtrip [of _ "[]", simplified]

lemma lit_scalar: "list_all scalar (lit s)"
proof -
  have "scalar (word_of_nat n)" if "n < 256" for n
    using that unat_uchar [of n] by (simp add: scalar_def)
  then show ?thesis by (simp add: lit_def list_all_iff)
qed

end
