(* ===== verification/Host.thy ===== *)
theory Host
  imports Crash Secrets Unicode
begin

text \<open>
  What both front ends share: the machine they run on (the parameters of the model in one
  record), and the start of both programs, which loads the install key, opens the journal and
  replays it before anything else.
\<close>

record host =
  host_crypto :: crypto
  host_entries :: "entry list codec"
  host_records :: "jrecord codec"
  host_os :: os
  host_platform :: platform
  host_vars :: env_vars
  host_path :: "uchar list \<Rightarrow> path"

definition host_dir :: "host \<Rightarrow> path" where
  "host_dir H = data_dir (host_vars H)"

text \<open>The install key, the journal when it can be opened, and what was recovered.\<close>

definition start_up :: "host \<Rightarrow> (byte list \<times> path option \<times> recovery_action list) io" where
  "start_up H w =
     (case load_or_create_install_key (host_platform H) (host_os H) (host_dir H) w of
        (Inl e, w) \<Rightarrow> (Inl e, w)
      | (Inr key, w) \<Rightarrow>
          (case journal_open (host_os H) (host_dir H @ [''journal'']) w of
             (Inl _, w) \<Rightarrow> (Inr (key, None, []), w)
           | (Inr dir, w) \<Rightarrow>
               (case recover (host_crypto H) (host_records H) (host_os H) key dir w of
                  (Inl _, w) \<Rightarrow> (Inr (key, Some dir, []), w)
                | (Inr actions, w) \<Rightarrow> (Inr (key, Some dir, actions), w))))"

text \<open>The three operations on the machine, as the front ends call them.\<close>

definition host_lock ::
  "host \<Rightarrow> path \<Rightarrow> uchar list \<Rightarrow> byte list \<Rightarrow> lock_options \<Rightarrow> path option \<Rightarrow> path vio" where
  "host_lock H src pw key opts journal =
     lock_folder (host_crypto H) (host_entries H) (host_records H) (host_os H) src (utf8 pw) key opts journal"

definition host_unlock :: "host \<Rightarrow> path \<Rightarrow> credential \<Rightarrow> byte list \<Rightarrow> u64 \<Rightarrow> path option \<Rightarrow> path vio" where
  "host_unlock H c cred key now journal =
     unlock_container (host_crypto H) (host_entries H) (host_records H) (host_os H) c cred key now journal"

definition host_delete :: "host \<Rightarrow> path \<Rightarrow> credential \<Rightarrow> byte list \<Rightarrow> u64 \<Rightarrow> unit vio" where
  "host_delete H c cred key now = verify_and_delete (host_crypto H) (host_os H) c cred key now"

definition credential_of :: "bool \<Rightarrow> uchar list \<Rightarrow> credential" where
  "credential_of use_master secret = (if use_master then MasterCode secret else Password (utf8 secret))"

text \<open>
  \<open>pct = done * 100 / total\<close> on \<open>u64\<close>, reported when it differs from the last one; \<open>shown\<close> is the
  list of percentages reported so far, latest first. The CLI prints them, the GUI posts them.
\<close>

fun percent_step :: "u64 \<times> u64 \<Rightarrow> u64 \<times> u64 list \<Rightarrow> u64 \<times> u64 list" where
  "percent_step (dn, tot) (prev, shown) =
     (if tot = 0 then (prev, shown)
      else let pct = dn * 100 div tot in if pct \<noteq> prev then (pct, pct # shown) else (prev, shown))"

definition percents :: "world \<Rightarrow> world \<Rightarrow> u64 list" where
  "percents w w' =
     rev (snd (fold percent_step (rev (take (length (w_progress w') - length (w_progress w)) (w_progress w'))) (0, [])))"

text \<open>As long as the total is below 2^64/100 (184 PB) every percentage is at most 100.\<close>

lemma percent_bounded:
  fixes dn tot :: u64
  assumes "unat tot * 100 < 2 ^ 64" and "dn \<le> tot" and "tot \<noteq> 0"
  shows "unat (dn * 100 div tot) = unat dn * 100 div unat tot" and "dn * 100 div tot \<le> 100"
proof -
  have le: "unat dn \<le> unat tot" using assms(2) by (simp add: word_le_nat_alt)
  then have "unat dn * unat (100 :: u64) < 2 ^ LENGTH(64)" using assms(1) by simp
  then have "unat (dn * 100) = unat dn * 100" using unat_mult_lem [of dn "100 :: u64"] by simp
  then show u: "unat (dn * 100 div tot) = unat dn * 100 div unat tot" by (simp add: unat_div)
  have "unat tot > 0" using assms(3) by (simp add: unat_gt_0)
  then have "unat tot * 100 div unat tot = 100" by simp
  moreover have "unat dn * 100 div unat tot \<le> unat tot * 100 div unat tot" using le by (intro div_le_mono) simp
  ultimately have "unat dn * 100 div unat tot \<le> 100" by simp
  with u show "dn * 100 div tot \<le> 100" by (simp add: word_le_nat_alt)
qed

end
