(* ===== verification/Cli.thy ===== *)
theory Cli
  imports Host
begin

text \<open>
  \<open>crates/vault-cli/src/main.rs\<close>: the command line front end. Standard input is the list of what
  \<open>read_line\<close> will return; what the program prints is a list of events, one per message.
\<close>

section \<open>The terminal\<close>

datatype event =
    Usage
  | Failed string
  | KeyError io_kind
  | PubKeyError io_kind
  | ErrorShown verror
  | Recovered recovery_action
  | CodeShown "uchar list"
  | NoMasterNote
  | Prompt string
  | Percent u64
  | LockedTo path
  | UnlockedTo path
  | Deleted path
  | Details path header
  | StructureOk u64

record console =
  c_stdin :: "(string + uchar list) list"
  c_shown :: "event list"

definition tell :: "event \<Rightarrow> console \<Rightarrow> console" where
  "tell e con = con\<lparr>c_shown := c_shown con @ [e]\<rparr>"

definition usage :: "console \<Rightarrow> nat \<times> console" where
  "usage con = (2, tell Usage con)"

definition fail :: "string \<Rightarrow> console \<Rightarrow> nat \<times> console" where
  "fail msg con = (1, tell (Failed msg) con)"

definition err_code :: "verror \<Rightarrow> console \<Rightarrow> nat \<times> console" where
  "err_code e con =
     (case e of WrongPassword _ \<Rightarrow> 3 | LockedOut _ \<Rightarrow> 4 | Tampered \<Rightarrow> 5 | BadMagic \<Rightarrow> 5 | BadVersion _ \<Rightarrow> 5 | _ \<Rightarrow> 1,
      tell (ErrorShown e) con)"

text \<open>\<open>read_line\<close>, which returns nothing at the end of the input, and \<open>trim_end_matches(['\r', '\n'])\<close>.\<close>

definition next_line :: "console \<Rightarrow> (string + uchar list) \<times> console" where
  "next_line con = (case c_stdin con of [] \<Rightarrow> (Inr [], con) | l # ls \<Rightarrow> (l, con\<lparr>c_stdin := ls\<rparr>))"

definition trim_end :: "uchar list \<Rightarrow> uchar list" where
  "trim_end l = rev (dropWhile (\<lambda>c. c = 13 \<or> c = 10) (rev l))"

definition read_trimmed :: "string \<Rightarrow> bool \<Rightarrow> console \<Rightarrow> (string + uchar list) \<times> console" where
  "read_trimmed prompt from_stdin con =
     (let con = (if from_stdin then con else tell (Prompt prompt) con)
      in case next_line con of
           (Inl e, con) \<Rightarrow> (Inl e, con)
         | (Inr line, con) \<Rightarrow>
             (let line = trim_end line in (if line = [] then Inl ''empty input'' else Inr line, con)))"

definition read_secret :: "string \<Rightarrow> bool \<Rightarrow> bool \<Rightarrow> console \<Rightarrow> (string + uchar list) \<times> console" where
  "read_secret prompt from_stdin confirm =
     bindE (read_trimmed prompt from_stdin) (\<lambda>pw.
       if confirm \<and> \<not> from_stdin
       then bindE (read_trimmed ''confirm:  '' from_stdin) (\<lambda>again.
              if pw \<noteq> again then throwE ''passwords do not match'' else returnE pw)
       else returnE pw)"

definition print_progress :: "world \<Rightarrow> world \<Rightarrow> console \<Rightarrow> console" where
  "print_progress w w' con = con\<lparr>c_shown := c_shown con @ map Percent (percents w w')\<rparr>"

section \<open>Commands\<close>

definition flag :: "uchar list list \<Rightarrow> string \<Rightarrow> bool" where
  "flag rest name \<longleftrightarrow> list_ex (\<lambda>a. a = lit name) rest"

text \<open>The first argument that is not an option.\<close>

definition operand :: "uchar list list \<Rightarrow> uchar list option" where
  "operand rest = find (\<lambda>a. take 2 a \<noteq> lit ''--'') rest"

definition cmd_master_init :: "host \<Rightarrow> uchar list list \<Rightarrow> console \<Rightarrow> world \<Rightarrow> nat \<times> console \<times> world" where
  "cmd_master_init H rest con w =
     (case load_master_pub (host_platform H) (host_os H) (host_dir H) w of (existing, w) \<Rightarrow>
      if existing \<noteq> None \<and> \<not> flag rest ''--force''
      then (case fail ''a master key already exists'' con of (code, con) \<Rightarrow> (code, con, w))
      else
        (case generate_master (host_crypto H) (w_rng w) of (pair, r) \<Rightarrow>
         (case save_master_pub (host_platform H) (host_os H) (host_dir H) (mk_public pair) (w\<lparr>w_rng := r\<rparr>) of
            (Inl e, w) \<Rightarrow> (1, tell (PubKeyError e) con, w)
          | (Inr _, w) \<Rightarrow> (0, tell (CodeShown (mk_code pair)) con, w))))"

definition cli_options :: "uchar list list \<Rightarrow> byte list option \<Rightarrow> lock_options" where
  "cli_options rest pub =
     \<lparr>lo_kdf = None, lo_master_pub = pub, secure_delete = flag rest ''--secure-delete'',
      recycle_original = flag rest ''--recycle'', readonly_container = flag rest ''--readonly''\<rparr>"

definition cmd_lock ::
  "host \<Rightarrow> byte list \<Rightarrow> path option \<Rightarrow> uchar list list \<Rightarrow> console \<Rightarrow> world \<Rightarrow> nat \<times> console \<times> world" where
  "cmd_lock H hmac_key journal rest con w =
     (case operand rest of
        None \<Rightarrow> (case usage con of (code, con) \<Rightarrow> (code, con, w))
      | Some a \<Rightarrow>
          (case read_secret ''password: '' (flag rest ''--password-stdin'') True con of
             (Inl e, con) \<Rightarrow> (case fail e con of (code, con) \<Rightarrow> (code, con, w))
           | (Inr pw, con) \<Rightarrow>
               (case load_master_pub (host_platform H) (host_os H) (host_dir H) w of (pub, w) \<Rightarrow>
                let opts = cli_options rest pub;
                    con = (if pub = None then tell NoMasterNote con else con)
                in case host_lock H (host_path H a) pw hmac_key opts journal w of
                     (Inr dest, w') \<Rightarrow> (0, tell (LockedTo dest) (print_progress w w' con), w')
                   | (Inl e, w') \<Rightarrow>
                       (case err_code e (print_progress w w' con) of (code, con) \<Rightarrow> (code, con, w')))))"

text \<open>The credential of \<open>unlock\<close> and \<open>delete\<close>.\<close>

definition ask_credential :: "uchar list list \<Rightarrow> console \<Rightarrow> (string + credential) \<times> console" where
  "ask_credential rest =
     (let use_master = flag rest ''--master-stdin''
      in bindE (read_secret (if use_master then ''recovery code: '' else ''password: '')
                  (flag rest ''--password-stdin'' \<or> use_master) False) (\<lambda>secret.
         returnE (credential_of use_master secret)))"

definition cmd_unlock ::
  "host \<Rightarrow> byte list \<Rightarrow> path option \<Rightarrow> u64 \<Rightarrow> uchar list list \<Rightarrow> console \<Rightarrow> world \<Rightarrow> nat \<times> console \<times> world" where
  "cmd_unlock H hmac_key journal now rest con w =
     (case operand rest of
        None \<Rightarrow> (case usage con of (code, con) \<Rightarrow> (code, con, w))
      | Some a \<Rightarrow>
          (case ask_credential rest con of
             (Inl e, con) \<Rightarrow> (case fail e con of (code, con) \<Rightarrow> (code, con, w))
           | (Inr cred, con) \<Rightarrow>
               (case host_unlock H (host_path H a) cred hmac_key now journal w of
                  (Inr dest, w') \<Rightarrow> (0, tell (UnlockedTo dest) (print_progress w w' con), w')
                | (Inl e, w') \<Rightarrow>
                    (case err_code e (print_progress w w' con) of (code, con) \<Rightarrow> (code, con, w')))))"

definition cmd_delete ::
  "host \<Rightarrow> byte list \<Rightarrow> u64 \<Rightarrow> uchar list list \<Rightarrow> console \<Rightarrow> world \<Rightarrow> nat \<times> console \<times> world" where
  "cmd_delete H hmac_key now rest con w =
     (case operand rest of
        None \<Rightarrow> (case usage con of (code, con) \<Rightarrow> (code, con, w))
      | Some a \<Rightarrow>
          (case ask_credential rest con of
             (Inl e, con) \<Rightarrow> (case fail e con of (code, con) \<Rightarrow> (code, con, w))
           | (Inr cred, con) \<Rightarrow>
               (case host_delete H (host_path H a) cred hmac_key now w of
                  (Inr _, w) \<Rightarrow> (0, tell (Deleted (host_path H a)) con, w)
                | (Inl e, w) \<Rightarrow> (case err_code e con of (code, con) \<Rightarrow> (code, con, w)))))"

definition cmd_inspect :: "host \<Rightarrow> byte list \<Rightarrow> uchar list list \<Rightarrow> console \<Rightarrow> world \<Rightarrow> nat \<times> console \<times> world" where
  "cmd_inspect H hmac_key rest con w =
     (case rest of
        [] \<Rightarrow> (case usage con of (code, con) \<Rightarrow> (code, con, w))
      | a # _ \<Rightarrow>
          (case inspect (host_crypto H) (host_os H) (host_path H a) hmac_key w of
             (Inr h, w) \<Rightarrow> (0, tell (Details (host_path H a) h) con, w)
           | (Inl e, w) \<Rightarrow> (case err_code e con of (code, con) \<Rightarrow> (code, con, w))))"

definition cmd_verify :: "host \<Rightarrow> byte list \<Rightarrow> uchar list list \<Rightarrow> console \<Rightarrow> world \<Rightarrow> nat \<times> console \<times> world" where
  "cmd_verify H hmac_key rest con w =
     (case rest of
        [] \<Rightarrow> (case usage con of (code, con) \<Rightarrow> (code, con, w))
      | a # _ \<Rightarrow>
          (case verify_structure (host_crypto H) (host_os H) (host_path H a) hmac_key w of
             (Inr n, w) \<Rightarrow> (0, tell (StructureOk n) con, w)
           | (Inl e, w) \<Rightarrow> (case err_code e con of (code, con) \<Rightarrow> (code, con, w))))"

definition dispatch ::
  "host \<Rightarrow> u64 \<Rightarrow> uchar list \<Rightarrow> uchar list list \<Rightarrow> byte list \<Rightarrow> path option \<Rightarrow> console \<Rightarrow> world \<Rightarrow>
     nat \<times> console \<times> world" where
  "dispatch H now cmd rest hmac_key journal con w =
     (if cmd = lit ''master-init'' then cmd_master_init H rest con w
      else if cmd = lit ''recover'' then (0, con, w)
      else if cmd = lit ''lock'' then cmd_lock H hmac_key journal rest con w
      else if cmd = lit ''unlock'' then cmd_unlock H hmac_key journal now rest con w
      else if cmd = lit ''delete'' then cmd_delete H hmac_key now rest con w
      else if cmd = lit ''inspect'' then cmd_inspect H hmac_key rest con w
      else if cmd = lit ''verify'' then cmd_verify H hmac_key rest con w
      else (case usage con of (code, con) \<Rightarrow> (code, con, w)))"

definition run :: "host \<Rightarrow> u64 \<Rightarrow> uchar list list \<Rightarrow> console \<Rightarrow> world \<Rightarrow> nat \<times> console \<times> world" where
  "run H now args con w =
     (case args of
        [] \<Rightarrow> (case usage con of (code, con) \<Rightarrow> (code, con, w))
      | cmd # rest \<Rightarrow>
          (case start_up H w of
             (Inl e, w) \<Rightarrow> (1, tell (KeyError e) con, w)
           | (Inr (hmac_key, journal, actions), w) \<Rightarrow>
               dispatch H now cmd rest hmac_key journal (con\<lparr>c_shown := c_shown con @ map Recovered actions\<rparr>) w))"

section \<open>Laws\<close>

lemma read_trimmed_nonempty: "read_trimmed prompt b con = (Inr pw, con') \<Longrightarrow> pw \<noteq> []"
  by (auto simp: read_trimmed_def Let_def split: prod.splits sum.splits if_splits)

lemma read_secret_nonempty: "read_secret prompt b c con = (Inr pw, con') \<Longrightarrow> pw \<noteq> []"
  by (auto simp: read_secret_def bindE_Inr_iff split: if_splits dest: read_trimmed_nonempty)

text \<open>A confirmed password is one that was typed twice.\<close>

lemma read_secret_confirmed:
  assumes "read_secret prompt False True con = (Inr pw, con')"
  shows "\<exists>l1 l2 ls. c_stdin con = Inr l1 # Inr l2 # ls \<and> trim_end l1 = pw \<and> trim_end l2 = pw"
  using assms
  by (auto simp: read_secret_def bindE_Inr_iff read_trimmed_def next_line_def tell_def Let_def trim_end_def
      split: if_splits list.splits sum.splits)

lemma err_code_nonzero: "err_code e con = (code, con') \<Longrightarrow> code \<noteq> 0"
  by (auto simp: err_code_def split: verror.splits)

lemma lit_inj: "lit a = lit b \<longleftrightarrow> a = b"
proof
  have u: "unat (word_of_nat (of_char c) :: uchar) = of_char c" for c
  proof (rule unat_uchar)
    show "of_char c < (4294967296 :: nat)" using nat_of_char_less_256 [of c] by linarith
  qed
  have "c = d" if "(word_of_nat (of_char c) :: uchar) = word_of_nat (of_char d)" for c d
    using arg_cong [OF that, of unat] unfolding u by (simp only: of_char_eq_iff)
  then have "inj (\<lambda>c. word_of_nat (of_char c :: nat) :: uchar)" by (intro injI)
  then show "lit a = lit b \<Longrightarrow> a = b" unfolding lit_def by (simp add: inj_map_eq_map)
qed simp

text \<open>What \<open>fvlt lock\<close> comes down to: an early exit that changes nothing, or \<open>lock_folder\<close>.\<close>

lemma cmd_lock_outcome:
  assumes run: "cmd_lock H key journal rest con w = (code, con', w')"
  obtains (refused) "code \<noteq> 0" and "w' = w"
  | (locked) a pw pub r where "operand rest = Some a" and "pw \<noteq> []"
      and "host_lock H (host_path H a) pw key (cli_options rest pub) journal (w\<lparr>w_tick := Suc (w_tick w)\<rparr>) = (r, w')"
      and "code = 0 \<longleftrightarrow> \<not> isl r"
proof (cases "operand rest")
  case None
  with run refused show ?thesis by (simp add: cmd_lock_def usage_def)
next
  case (Some a)
  show ?thesis
  proof (cases "read_secret ''password: '' (flag rest ''--password-stdin'') True con")
    case (Pair x con1)
    show ?thesis
    proof (cases x)
      case (Inl e)
      with run Some Pair refused show ?thesis by (simp add: cmd_lock_def fail_def)
    next
      case (Inr pw)
      obtain pub w1 where p: "load_master_pub (host_platform H) (host_os H) (host_dir H) w = (pub, w1)" by fastforce
      obtain r w2 where l: "host_lock H (host_path H a) pw key (cli_options rest pub) journal w1 = (r, w2)" by fastforce
      have "w' = w2 \<and> (code = 0 \<longleftrightarrow> \<not> isl r)"
        using run Some Pair Inr p l
        by (cases r) (auto simp: cmd_lock_def Let_def split: prod.splits dest: err_code_nonzero)
      with locked [OF Some _ _, of pw pub r] l read_secret_nonempty [OF Pair [unfolded Inr]] load_master_pub_same [OF p]
      show ?thesis by simp
    qed
  qed
qed

section \<open>Properties\<close>

text \<open>
  C32: The exit code of \<open>fvlt lock\<close> is to be trusted. If the program exits with 0, the folder was
  replaced by a container that holds it under a password that is not empty; if it exits with
  another code, the folder is as it was and there is no container, or the container holds it.
\<close>

theorem cli_lock_exit_code:
  assumes ok: "crypto_ok (host_crypto H)" "codec_ok (host_entries H)"
    and start: "start_up H w = (Inr (key, journal, actions), w1)"
    and arg: "operand rest = Some a" "host_path H a = src"
    and wf: "wf_fs (w_fs w1)" and ja: "journal_apart journal src" and free: "lookup w1 (lock_dest src) = None"
    and run: "run H now (lit ''lock'' # rest) con w = (code, con', w')"
  shows "(code \<noteq> 0 \<and> (\<forall>q. prefix src q \<longrightarrow> lookup w' q = lookup w1 q) \<and> lookup w' (lock_dest src) = None)
    \<or> (\<exists>pw pub c. pw \<noteq> [] \<and> content_at w' (lock_dest src) c
          \<and> holds_folder (host_crypto H) (host_entries H) (host_os H) key (utf8 pw) (cli_options rest pub) w1 src c
          \<and> (code = 0 \<longrightarrow> (\<forall>q. prefix src q \<longrightarrow> lookup w' q = None)))"
proof -
  let ?w = "w1\<lparr>w_tick := Suc (w_tick w1)\<rparr>"
  obtain con1 where "cmd_lock H key journal rest con1 w1 = (code, con', w')"
    using run start by (simp add: run_def dispatch_def lit_inj)
  then show ?thesis
  proof (cases rule: cmd_lock_outcome)
    case refused
    with free show ?thesis by simp
  next
    case (locked a' pw pub r)
    have l: "lock_folder (host_crypto H) (host_entries H) (host_records H) (host_os H) src (utf8 pw) key
        (cli_options rest pub) journal ?w = (r, w')"
      using locked(1,3) arg by (simp add: host_lock_def)
    have w: "wf_fs (w_fs ?w)" "lookup ?w (lock_dest src) = None" using wf free by simp_all
    consider "(\<forall>q. prefix src q \<longrightarrow> lookup w' q = lookup ?w q) \<and> lookup w' (lock_dest src) = None \<and> isl r"
      | c where "content_at w' (lock_dest src) c"
        "holds_folder (host_crypto H) (host_entries H) (host_os H) key (utf8 pw) (cli_options rest pub) ?w src c"
        "\<forall>p. r = Inr p \<longrightarrow> p = lock_dest src \<and> (\<forall>q. prefix src q \<longrightarrow> lookup w' q = None)"
      using lock_folder_outcome [OF ok w(1) ja w(2) l] by blast
    then show ?thesis
    proof cases
      case 1
      then show ?thesis using locked(4) by simp
    next
      case (2 c)
      have "holds_folder (host_crypto H) (host_entries H) (host_os H) key (utf8 pw) (cli_options rest pub) w1 src c"
        using holds_folder_cong [OF _ 2(2)] by simp
      with 2(1,3) locked(2,4) show ?thesis by (cases r) auto
    qed
  qed
qed

definition sample_host :: "os \<Rightarrow> host" where
  "sample_host E = \<lparr>host_crypto = toy_crypto, host_entries = sample_codec [], host_records = sample_codec sample_record,
     host_os = E, host_platform = NonWindows,
     host_vars = \<lparr>var_os = (\<lambda>_. Some [''k'']), current_dir = []\<rparr>, host_path = (\<lambda>_. [''d''])\<rparr>"

definition keyed_world :: world where
  "keyed_world = legacy_world\<lparr>w_fs := [([''k''], Dir), ([''k'', ''install.key''],
     File \<lparr>f_content = replicate 32 7, f_readonly = False, f_mtime = 0\<rparr>), ([''d''], Dir)]\<rparr>"

text \<open>The start of the program when the first system call succeeds and no later one does.\<close>

lemma start_up_sample:
  "start_up (sample_host (calm\<lparr>os_fails := (\<lambda>n. 1 \<le> n)\<rparr>)) keyed_world =
     (Inr (replicate 32 7, None, []), keyed_world\<lparr>w_tick := 2\<rparr>)"
proof -
  let ?E = "calm\<lparr>os_fails := (\<lambda>n. 1 \<le> n)\<rparr>"
  have keyfile: "lookup keyed_world [''k'', ''install.key''] =
      Some (File \<lparr>f_content = replicate 32 7, f_readonly = False, f_mtime = 0\<rparr>)" "lookup keyed_world [''k''] = Some Dir"
    "lookup keyed_world [''k'', ''journal''] = None" "w_tick keyed_world = 0"
    by (simp_all add: lookup_def get_def keyed_world_def legacy_world_def)
  have "open_protected NonWindows (replicate 32 7) = Inr (Some (replicate 32 7))" by (rule open_protected_legacy)
  with keyfile have "load_or_create_install_key NonWindows ?E [''k''] keyed_world = (Inr (replicate 32 7), keyed_world\<lparr>w_tick := 1\<rparr>)"
    by (simp add: load_or_create_install_key_def read_protected_def open_read_def sysop_def bindE_def calm_def Let_def)
  moreover have "journal_open ?E [''k'', ''journal''] (keyed_world\<lparr>w_tick := 1\<rparr>) = (Inl (Io OtherIo), keyed_world\<lparr>w_tick := 2\<rparr>)"
    using keyfile by (simp add: journal_open_def create_dir_all_def upt_rec is_dir_path_def create_dir_def sysop_def
        bindE_def mapE_def unspoiled_def Let_def numeral_2_eq_2)
  ultimately show ?thesis by (simp add: start_up_def sample_host_def host_dir_def data_dir_def)
qed

theorem cli_lock_exit_code_witness:
  "let w' = snd (snd (run (sample_host (calm\<lparr>os_fails := (\<lambda>n. 1 \<le> n)\<rparr>)) 0
        [lit ''lock'', lit ''d'', lit ''--password-stdin''] \<lparr>c_stdin = [Inr (lit ''secret'')], c_shown = []\<rparr> keyed_world))
   in lookup w' [''d''] = Some Dir \<or> (\<exists>c. content_at w' [''d.fvlt''] c)"
proof -
  let ?H = "sample_host (calm\<lparr>os_fails := (\<lambda>n. 1 \<le> n)\<rparr>)" and ?rest = "[lit ''d'', lit ''--password-stdin'']"
  let ?con = "\<lparr>c_stdin = [Inr (lit ''secret'')], c_shown = []\<rparr>"
  have h: "host_crypto ?H = toy_crypto" "host_entries ?H = sample_codec []" by (simp_all add: sample_host_def)
  then have ok: "crypto_ok (host_crypto ?H)" "codec_ok (host_entries ?H)" by simp_all
  have arg: "operand ?rest = Some (lit ''d'')" "host_path ?H (lit ''d'') = [''d'']"
    by (simp_all add: operand_def lit_def sample_host_def)
  have w: "wf_fs (w_fs (keyed_world\<lparr>w_tick := 2\<rparr>))" "journal_apart None [''d'']"
    "lookup (keyed_world\<lparr>w_tick := 2\<rparr>) (lock_dest [''d'']) = None"
    by (auto simp: wf_fs_def keyed_world_def get_def lookup_def journal_apart_def lock_dest_def)
  obtain code con' w' where r: "run ?H 0 (lit ''lock'' # ?rest) ?con keyed_world = (code, con', w')"
    using prod_cases3 by blast
  have d: "lookup (keyed_world\<lparr>w_tick := 2\<rparr>) [''d''] = Some Dir" by (simp add: keyed_world_def lookup_def get_def)
  from cli_lock_exit_code [OF ok start_up_sample arg w r] d
  have "lookup w' [''d''] = Some Dir \<or> (\<exists>c. content_at w' [''d.fvlt''] c)" by (auto simp: lock_dest_def)
  then show ?thesis using r by (simp add: Let_def)
qed

end
