(* ===== verification/Errors.thy ===== *)
theory Errors
  imports Vault
begin

text \<open>
  Which errors the operations on containers can report. \<open>raises Q m\<close> says that every error of
  \<open>m\<close> satisfies \<open>Q\<close>; the locale collects the operations whose errors are never about passwords,
  once for every class of errors that includes the others.
\<close>

definition raises :: "('e \<Rightarrow> bool) \<Rightarrow> ('s \<Rightarrow> ('e + 'a) \<times> 's) \<Rightarrow> bool" where
  "raises Q m \<longleftrightarrow> (\<forall>s e. fst (m s) = Inl e \<longrightarrow> Q e)"

named_theorems raising "errors of operations"

lemma raisesI: "(\<And>s e s'. m s = (Inl e, s') \<Longrightarrow> Q e) \<Longrightarrow> raises Q m"
  unfolding raises_def by (metis prod.collapse)

lemma raisesD: "raises Q m \<Longrightarrow> m s = (Inl e, s') \<Longrightarrow> Q e"
  by (metis fst_conv raises_def)

lemma raises_returnE [raising]: "raises Q (returnE x)"
  by (simp add: raises_def)

lemma raises_ignoreE [raising]: "raises Q (ignoreE m)"
  by (simp add: raises_def)

lemma raises_throwE: "Q e \<Longrightarrow> raises Q (throwE e)"
  by (simp add: raises_def)

lemma raises_liftR: "(\<And>e. r = Inl e \<Longrightarrow> Q e) \<Longrightarrow> raises Q (liftR r)"
  by (simp add: raises_def)

lemma raises_bindE [raising]: "raises Q m \<Longrightarrow> (\<And>x. raises Q (f x)) \<Longrightarrow> raises Q (bindE m f)"
proof (rule raisesI)
  fix s e s'
  assume r: "raises Q m" "\<And>x. raises Q (f x)" and "bindE m f s = (Inl e, s')"
  then consider "m s = (Inl e, s')" | x u where "f x u = (Inl e, s')" by (auto simp: bindE_Inl_iff)
  then show "Q e" by cases (auto intro: raisesD [OF r(1)] raisesD [OF r(2)])
qed

lemma raises_mapE: "(\<And>k. Q (g k)) \<Longrightarrow> raises Q (mapE g m)"
  by (auto intro!: raisesI simp: mapE_Inl_iff)

lemma raises_split [raising]:
  "(\<And>a b. raises Q (f a b)) \<Longrightarrow> raises Q (case x of (a, b) \<Rightarrow> f a b)"
  "(P \<Longrightarrow> raises Q m) \<Longrightarrow> (\<not> P \<Longrightarrow> raises Q n) \<Longrightarrow> raises Q (if P then m else n)"
  "raises Q m \<Longrightarrow> (\<And>a. raises Q (h a)) \<Longrightarrow> raises Q (case y of None \<Rightarrow> m | Some a \<Rightarrow> h a)"
  "(\<And>a. raises Q (k a)) \<Longrightarrow> raises Q (Let z k)"
  by (simp_all split: prod.split option.split)

section \<open>Errors that are not about passwords\<close>

definition plain_error :: "verror \<Rightarrow> bool" where
  "plain_error e \<longleftrightarrow> (case e of WrongPassword _ \<Rightarrow> False | LockedOut _ \<Rightarrow> False | _ \<Rightarrow> True)"

lemma plain_errors [simp]:
  "plain_error Tampered" "plain_error BadMagic" "plain_error (BadVersion v)" "plain_error (Exists p)"
  "plain_error (Unsupported s)" "plain_error (Other s)" "plain_error (Io k)"
  "\<not> plain_error (WrongPassword n)" "\<not> plain_error (LockedOut t)"
  by (simp_all add: plain_error_def)

lemma safe_join_error: "safe_join root rel = Inl e \<Longrightarrow> e = Tampered"
proof -
  have "join_components out cs = Inl e \<Longrightarrow> e = Tampered" for out cs
    by (induction out cs rule: join_components.induct) (auto split: if_splits)
  then show "safe_join root rel = Inl e \<Longrightarrow> e = Tampered" by (auto simp: safe_join_def split: if_splits)
qed

lemma derive_kek_error: "derive_kek cr pw salt p = Inl e \<Longrightarrow> plain_error e"
  by (auto simp: derive_kek_def kdf_validate_def bindR_def split: sum.splits option.splits if_splits)

lemma from_bytes_error: "from_bytes cr k b = Inl e \<Longrightarrow> plain_error e"
  by (auto simp: from_bytes_def Let_def split: if_splits)

lemma open_in_place_error: "open_in_place cr cc seq n b = Inl e \<Longrightarrow> e = Tampered"
  by (auto simp: open_in_place_def split: option.splits)

lemma rel_path_of_error: "rel_path_of root p = Inl e \<Longrightarrow> plain_error e"
  by (auto simp: rel_path_of_def split: if_splits option.splits)

lemma read_frame_error: "read_frame_into E n rest w = (Inl e, w') \<Longrightarrow> plain_error e"
  by (auto simp: read_frame_into_def bindE_Inl_iff mapE_Inl_iff Let_def split: if_splits)

locale error_class =
  fixes Q :: "verror \<Rightarrow> bool"
  assumes plain: "plain_error e \<Longrightarrow> Q e"
begin

lemma plain_throw [raising]: "plain_error e \<Longrightarrow> raises Q (throwE e)"
  by (rule raises_throwE) (rule plain)

lemma plain_map [raising]: "(\<And>k. plain_error (g k)) \<Longrightarrow> raises Q (mapE g m)"
  by (rule raises_mapE) (rule plain)

lemma plain_lift [raising]: "(\<And>e. r = Inl e \<Longrightarrow> plain_error e) \<Longrightarrow> raises Q (liftR r)"
  by (rule raises_liftR) (rule plain)

lemma read_frame [raising]: "raises Q (read_frame_into E n rest)"
  by (rule raisesI) (auto intro: plain read_frame_error)

lemma write_chunks [raising]: "raises Q (write_chunks cr E cc tmp rel tot remaining f seq dn)"
proof (rule raisesI)
  fix w e w'
  assume "write_chunks cr E cc tmp rel tot remaining f seq dn w = (Inl e, w')"
  then have "plain_error e"
  proof (induction cr E cc tmp rel tot remaining f seq dn w rule: write_chunks.induct)
    case (1 cr E cc tmp rel tot remaining f seq dn w)
    then show ?case
      by (subst (asm) (2) write_chunks.simps)
         (auto simp: Let_def changed_def split: if_splits prod.splits sum.splits)
  qed
  then show "Q e" by (rule plain)
qed

lemma write_files [raising]: "raises Q (write_files cr E cc src tmp tot es seq dn)"
proof (induction es arbitrary: seq dn)
  case Nil
  then show ?case by (simp add: raises_def)
next
  case (Cons e es)
  show ?case unfolding write_files.simps
    by (intro raising Cons.IH; auto simp: changed_def dest: safe_join_error)
qed

lemma extract_chunks [raising]: "raises Q (extract_chunks cr E cc target plen remaining r seq dn)"
proof (rule raisesI)
  fix w e w'
  assume "extract_chunks cr E cc target plen remaining r seq dn w = (Inl e, w')"
  then have "plain_error e"
  proof (induction cr E cc target plen remaining r seq dn w rule: extract_chunks.induct)
    case (1 cr E cc target plen remaining r seq dn w)
    then show ?case
      by (subst (asm) (2) extract_chunks.simps)
         (auto simp: Let_def dest: open_in_place_error read_frame_error split: if_splits prod.splits sum.splits)
  qed
  then show "Q e" by (rule plain)
qed

lemma extract_entries [raising]: "raises Q (extract_entries cr E cc tmpdir plen es r seq dn)"
proof (induction es arbitrary: r seq dn)
  case Nil
  then show ?case by (simp add: raises_def)
next
  case (Cons e es)
  show ?case unfolding extract_entries.simps
    by (intro raising Cons.IH; auto dest: safe_join_error)
qed

lemma scan [raising]: "raises Q (scan E root)"
proof -
  have w: "plain_error e" if "walk_items E root dir items acc w = (Inl e, t)" for dir items acc w e t
    using that
  proof (induction E root dir items acc w arbitrary: t rule: walk_items.induct)
    case (2 E root dir item items dirs files tot w)
    then show ?case
      by (auto simp: Let_def dest: rel_path_of_error split: prod.splits sum.splits node.splits)
  qed simp
  have "raises Q (walk_into E root dir acc)" for dir acc
    by (rule raisesI) (auto simp: walk_into_def intro!: plain dest: w split: prod.splits sum.splits)
  then show ?thesis unfolding scan_def by (intro raising) (auto dest: rel_path_of_error)
qed

lemma write_container [raising]: "raises Q (write_container cr bc E src tmp es tot pw hk opts)"
proof (rule raisesI)
  fix w e w'
  assume w: "write_container cr bc E src tmp es tot pw hk opts w = (Inl e, w')"
  obtain uuid r1 where 1: "fill_bytes 16 (w_rng w) = (uuid, r1)" by fastforce
  obtain salt r2 where 2: "fill_bytes 16 r1 = (salt, r2)" by fastforce
  obtain dk r3 where 3: "random_key r2 = (dk, r3)" by fastforce
  define kdf where "kdf = (case lo_kdf opts of Some k \<Rightarrow> k | None \<Rightarrow> kdf_default)"
  show "Q e"
  proof (cases "derive_kek cr pw salt kdf")
    case (Inl d)
    with w 1 2 3 have "e = d" by (simp add: write_container_def Let_def kdf_def [symmetric])
    with Inl show ?thesis by (auto intro: plain derive_kek_error)
  next
    case (Inr kek)
    obtain h r4 where 4: "new_header cr opts uuid salt kek dk (length es) tot r3 = (h, r4)" by fastforce
    have "raises Q (bindE (mapE Io (create_file E tmp)) (\<lambda>_.
                 bindE (mapE Io (append_file E tmp (to_bytes cr hk h))) (\<lambda>_.
                 bindE (liftR (case ser bc es of Inl e \<Rightarrow> Inl (Other (''manifest: '' @ e)) | Inr m \<Rightarrow> Inr m)) (\<lambda>manifest.
                   if MAX_MANIFEST_LEN - TAG_LEN < length manifest
                   then throwE (Other ''folder has too many entries'')
                   else
                     bindE (mapE Io (seal_to cr E tmp (cc_new dk uuid) MANIFEST_SEQ manifest)) (\<lambda>_.
                     bindE (write_files cr E (cc_new dk uuid) src tmp tot es 0 0) (\<lambda>_.
                     bindE (mapE Io (sync_all E)) (\<lambda>_.
                     bindE (mapE Io (sync_all E)) (\<lambda>_.
                       returnE uuid))))))))" (is "raises Q ?m")
      by (intro raising; auto split: sum.splits)
    moreover have "?m (w\<lparr>w_rng := r4\<rparr>) = (Inl e, w')"
      using w 1 2 3 4 Inr by (simp add: write_container_def Let_def kdf_def [symmetric])
    ultimately show ?thesis by (rule raisesD)
  qed
qed

lemma journal [raising]: "raises Q (begin_record jc E journal uuid rec)"
  unfolding begin_record_def journal_begin_def
  by (intro raising; auto split: sum.splits)

lemma lock_folder_raises: "raises Q (lock_folder cr bc jc E src pw hk opts journal)"
proof -
  have a: "raises Q (ask q)" for q by (simp add: raises_def ask_def split: prod.split)
  have e: "raises Q (end_record E record)" for "record" by (simp add: raises_def end_record_def split: option.split)
  have s: "raises Q (write_staged cr bc E src tmp es tot pw hk opts)" for tmp es tot
    by (rule raisesI) (auto simp: write_staged_def intro: raisesD [OF write_container] split: prod.splits sum.splits)
  have r: "raises Q (remove_original E opts src es)" for es
    by (rule raisesI) (auto simp: remove_original_def mapE_Inl_iff intro!: plain split: if_splits)
  show ?thesis
    unfolding lock_folder_def lock_stage_def lock_finish_def
    by (intro raising a e s r; auto simp: some_or_def split: option.splits)
qed

end

section \<open>Errors of a password check\<close>

text \<open>What may be reported about passwords: a count of 1 to 3 attempts left, or a lockout.\<close>

definition check_error :: "verror \<Rightarrow> bool" where
  "check_error e \<longleftrightarrow> (case e of WrongPassword n \<Rightarrow> 1 \<le> n \<and> n \<le> MAX_ATTEMPTS | _ \<Rightarrow> True)"

interpretation plain_only: error_class plain_error
  by unfold_locales simp

interpretation checks: error_class check_error
  by unfold_locales (simp add: check_error_def plain_error_def split: verror.splits)

lemma record_failure_error: "check_error (fst (record_failure s now))"
proof -
  have "MAX_ATTEMPTS - n \<le> MAX_ATTEMPTS \<and> 1 \<le> MAX_ATTEMPTS - n" if "\<not> MAX_ATTEMPTS \<le> n" for n
  proof -
    have "unat n < 3" "n \<le> MAX_ATTEMPTS" using that by (simp_all add: MAX_ATTEMPTS_def word_le_nat_alt)
    moreover from this have "unat (MAX_ATTEMPTS - n) = unat MAX_ATTEMPTS - unat n" by (simp add: unat_sub)
    ultimately show ?thesis by (simp add: word_le_nat_alt) (simp add: MAX_ATTEMPTS_def)
  qed
  then show ?thesis by (simp add: record_failure_def Let_def check_error_def)
qed

lemma lockout_check_error: "lockout_check s now = Inl e \<Longrightarrow> check_error e"
  by (auto simp: lockout_check_def check_error_def split: if_splits)

lemma bail_raises: "check_error e \<Longrightarrow> raises check_error (bail E c ro e)"
  by (simp add: raises_def bail_def)

lemma plain_is_check: "plain_error e \<Longrightarrow> check_error e"
  by (rule checks.plain)

lemma rewrite_raises: "raises check_error (rewrite_header cr E c h hk)"
  unfolding rewrite_header_def by (intro raising; simp)

lemma check_credential_raises: "raises check_error (check_credential cr E c cred hk now ro h)"
proof (cases cred)
  case (Password pw)
  have "raises check_error (bindE (liftR (derive_kek cr pw (h_salt h) (h_kdf h))) (\<lambda>kek.
          case unwrap_key cr kek (wrapped_dk_pw h) of
            Some dk \<Rightarrow> returnE dk
          | None \<Rightarrow>
              (let (err, lock) = record_failure (h_lockout h) now
               in bindE (rewrite_header cr E c (h\<lparr>h_lockout := lock\<rparr>) hk) (\<lambda>_. bail E c ro err))))"
    unfolding Let_def case_prod_beta
    by (intro raising checks.plain_lift rewrite_raises bail_raises record_failure_error derive_kek_error)
  then show ?thesis
    by (auto simp: check_credential_def Password intro!: bail_raises lockout_check_error split: sum.split)
next
  case (MasterCode code)
  then show ?thesis
    by (auto simp: check_credential_def check_error_def intro!: raising bail_raises split: option.split)
qed

lemma authorize_raises: "raises check_error (open_and_authorize cr E c cred hk now)"
proof (rule raisesI)
  fix w e w'
  assume a: "open_and_authorize cr E c cred hk now w = (Inl e, w')"
  obtain ro w1 where e: "was_readonly_on_entry E c w = (ro, w1)" by fastforce
  have cl: "raises check_error (clear_lockout cr E c hk h)" for h
    unfolding clear_lockout_def Let_def by (intro raising rewrite_raises)
  have "raises check_error (bindE (mapE Io (open_rw E c)) (\<lambda>f.
         bindE (mapE Io (read_exact E HEADER_LEN f)) (\<lambda>(hb, rest).
         bindE (liftR (from_bytes cr hk hb)) (\<lambda>header.
           let header = clamp_foreign header
           in bindE (check_credential cr E c cred hk now ro header) (\<lambda>dk.
              bindE (clear_lockout cr E c hk header) (\<lambda>header.
                returnE (rest, header, dk, ro)))))))" (is "raises _ ?m")
    by (intro raising checks.plain_map checks.plain_lift check_credential_raises cl from_bytes_error plain_errors)
  moreover have "?m (if ro then snd (set_readonly E c False w1) else w1) = (Inl e, w')"
    using a e by (simp add: open_and_authorize_def)
  ultimately show "check_error e" by (rule raisesD)
qed

lemma delete_raises: "raises check_error (verify_and_delete cr E c cred hk now)"
proof -
  have "raises check_error (\<lambda>w. let w = snd (set_readonly E c False w)
       in case recycle E c w of (Inl e, w) \<Rightarrow> (Inl (Io e), rearm E c ro w) | (Inr _, w) \<Rightarrow> (Inr (), w))" for ro
    by (rule raisesI) (auto simp: Let_def check_error_def split: prod.splits sum.splits)
  then show ?thesis unfolding verify_and_delete_def by (intro raising authorize_raises)
qed

lemma unlock_raises: "raises check_error (unlock_container cr bc jc E c cred hk now journal)"
proof -
  have r: "raises check_error (rearm_on E c ro m)" if "raises check_error m" for ro and m :: "'z vio"
    by (rule raisesI) (auto simp: rearm_on_def bail_def intro: raisesD [OF that] split: prod.splits sum.splits)
  have m: "raises check_error (read_manifest cr bc E cc n rest)" for cc n rest
    unfolding read_manifest_def
    by (intro raising) (auto simp: some_or_def dest: open_in_place_error split: option.splits)
  have x: "raises check_error (extract_staged cr E cc tmpdir plen es rest)" for cc tmpdir plen es rest
    by (rule raisesI) (auto simp: extract_staged_def intro: raisesD [OF checks.extract_entries] split: prod.splits sum.splits)
  have a: "raises check_error (ask q)" for q by (simp add: raises_def ask_def split: prod.split)
  have e: "raises check_error (end_record E record)" for "record" by (simp add: raises_def end_record_def split: option.split)
  show ?thesis
    unfolding unlock_container_def unlock_stage_def unlock_finish_def
    by (intro raising authorize_raises r m x a e bail_raises)
       (auto simp: some_or_def check_error_def split: option.splits)
qed

end
