(* ===== verification/Roundtrip.thy ===== *)
theory Roundtrip
  imports Vault
begin

text \<open>
  Locking and unlocking together: when the operations succeed, and that unlocking gives back the
  folder that was locked. The lemmas follow the two operations call by call on a file system that
  reports no error; what the calls leave behind is taken from the theories of the components.
\<close>

section \<open>Records of the journal\<close>

text \<open>A path at which \<open>File::create\<close> finds nothing or a file it may overwrite.\<close>

definition writable :: "world \<Rightarrow> path \<Rightarrow> bool" where
  "writable w p \<longleftrightarrow> (case lookup w p of None \<Rightarrow> True | Some (File d) \<Rightarrow> \<not> f_readonly d | _ \<Rightarrow> False)"

definition journal_ready :: "jrecord codec \<Rightarrow> path option \<Rightarrow> jrecord \<Rightarrow> world \<Rightarrow> bool" where
  "journal_ready jc journal rec w \<longleftrightarrow> (\<exists>b. journal \<noteq> None \<longrightarrow> ser jc rec = Inr b)
     \<and> (\<forall>dir. journal = Some dir \<longrightarrow> is_dir_path w dir) \<and> (\<forall>q. is_record journal q \<longrightarrow> writable w q)"

definition keeps_records :: "path option \<Rightarrow> world \<Rightarrow> world \<Rightarrow> bool" where
  "keeps_records journal w w' \<longleftrightarrow> (\<forall>q. is_record journal q \<longrightarrow> writable w q \<longrightarrow> writable w' q)"

lemma keeps_records_preorder: "preorderS (keeps_records journal)"
  by (auto simp: preorderS_def keeps_records_def)

lemma writable_cong: "lookup w p = lookup w' p \<Longrightarrow> writable w p = writable w' p"
  by (simp add: writable_def)

lemma elsewhere_keeps_records:
  assumes "keeps (changes_only P) m" and "\<And>q. P q \<Longrightarrow> \<not> is_record journal q"
  shows "keeps (keeps_records journal) m"
  using assms writable_cong unfolding keeps_def keeps_records_def changes_only_def by metis

lemma record_writing:
  "keeps (\<lambda>w w'. writable w q \<longrightarrow> writable w' q) (create_file E p)"
  "keeps (\<lambda>w w'. writable w q \<longrightarrow> writable w' q) (append_file E p bs)"
  "keeps (\<lambda>w w'. writable w q \<longrightarrow> writable w' q) (remove_file E p)"
  "keeps (\<lambda>w w'. writable w q \<longrightarrow> writable w' q) (sync_all E)"
  by (auto simp: keeps_def create_file_def append_file_def remove_file_def sync_all_def sysop_def Let_def unspoiled_def
      writable_def lookup_put_file lookup_upd split: option.splits node.splits)

lemma begin_record_keeps_records: "keeps (keeps_records journal') (begin_record jc E journal uuid rec)"
proof -
  have pre: "preorderS (\<lambda>w w'. writable w q \<longrightarrow> writable w' q)" for q by (auto simp: preorderS_def)
  have "keeps (\<lambda>w w'. writable w q \<longrightarrow> writable w' q) (begin_record jc E journal uuid rec)" for q
    unfolding begin_record_def journal_begin_def Let_def
    by (cases journal) (auto intro!: keeps_intros pre record_writing)
  then show ?thesis by (simp add: keeps_def keeps_records_def)
qed

lemma end_record_keeps_records: "keeps (keeps_records journal) (end_record E record)"
  using record_writing(3)
  by (cases "record") (simp_all add: end_record_def complete_def keeps_def keeps_records_def)

lemma create_file_runs:
  "no_fail E \<Longrightarrow> writable w p \<Longrightarrow> parent_is_dir w p \<Longrightarrow> succeeds (create_file E p) w"
  by (auto simp: succeeds_def create_file_def sysop_runs writable_def split: option.splits node.splits)

lemma begin_record_runs:
  assumes nf: "no_fail E" and ready: "journal_ready jc journal rec w"
  shows "succeeds (begin_record jc E journal uuid rec) w"
proof (cases journal)
  case None
  then show ?thesis by (simp add: begin_record_def succeeds_def)
next
  case (Some dir)
  obtain b where b: "ser jc rec = Inr b" using ready Some by (auto simp: journal_ready_def)
  have "is_record journal (record_path dir uuid)" using Some by (auto simp: is_record_def)
  then have "writable w (record_path dir uuid)" "parent_is_dir w (record_path dir uuid)"
    using ready Some by (auto simp: journal_ready_def parent_is_dir_def record_path_def)
  with nf show ?thesis
    unfolding begin_record_def journal_begin_def Some Let_def option.case b sum.case
    by (intro succeeds_bindE succeeds_mapE succeeds_returnE succeeds_liftR [OF refl])
       (auto intro: create_file_runs runs)
qed

lemma journal_ready_later:
  assumes "journal_ready jc journal rec w" and "keeps_records journal w w'"
    and "\<And>dir. journal = Some dir \<Longrightarrow> is_dir_path w dir \<Longrightarrow> is_dir_path w' dir"
  shows "journal_ready jc journal rec w'"
  using assms by (auto simp: journal_ready_def keeps_records_def)

lemma dir_not_record: "is_record journal q \<Longrightarrow> writable w q \<Longrightarrow> lookup w q \<noteq> Some Dir"
  by (auto simp: writable_def)

section \<open>Locking succeeds\<close>

definition safe_below :: "path \<Rightarrow> path \<Rightarrow> bool" where
  "safe_below root p \<longleftrightarrow> list_all is_safe_component (drop (length root) p)"

text \<open>
  What locking needs, apart from calls that succeed: a directory with a name, nothing in the
  way beside it, no link inside, file names that \<open>safe_join\<close> accepts, files below 2^64 bytes, a
  key derivation that accepts its parameters, and a manifest that fits.
\<close>

definition kdf_of :: "lock_options \<Rightarrow> kdf_params" where
  "kdf_of opts = (case lo_kdf opts of Some k \<Rightarrow> k | None \<Rightarrow> kdf_default)"

definition lockable ::
  "crypto \<Rightarrow> entry list codec \<Rightarrow> os \<Rightarrow> path \<Rightarrow> byte list \<Rightarrow> lock_options \<Rightarrow> world \<Rightarrow> bool" where
  "lockable cr bc E src pw opts w \<longleftrightarrow>
     src \<noteq> [] \<and> last src \<noteq> ''..'' \<and> lookup w src = Some Dir
     \<and> lookup w (lock_dest src) = None \<and> lookup w (lock_tmp src) = None
     \<and> (\<forall>p. strict_prefix src p \<longrightarrow> lookup w p \<noteq> Some Link)
     \<and> (\<forall>p d. strict_prefix src p \<longrightarrow> lookup w p = Some (File d) \<longrightarrow>
          safe_below src p \<and> length (f_content d) < 2 ^ 64)
     \<and> (\<forall>salt. length salt = 16 \<longrightarrow> (\<exists>k. derive_kek cr pw salt (kdf_of opts) = Inr k))
     \<and> (\<forall>ds fl. listed (w_fs w) {p. strict_prefix src p} ds fl \<longrightarrow>
          (\<exists>m. ser bc (map (entry_at E src (w_fs w)) (ds @ fl)) = Inr m \<and> length m \<le> MAX_MANIFEST_LEN - TAG_LEN))"

lemma rel_of_join:
  assumes "strict_prefix src p" and "safe_below src p"
  shows "safe_join root (rel_of src p) = Inr (root @ drop (length src) p)"
  using assms by (auto simp: rel_of_def safe_below_def strict_prefix_def elim!: prefixE intro!: safe_join_join_slash)

lemma rel_of_join_self:
  assumes "strict_prefix src p" and "safe_below src p"
  shows "safe_join src (rel_of src p) = Inr p"
  using rel_of_join [OF assms, of src] assms(1) by (auto simp: strict_prefix_def elim!: prefixE)

lemma entry_at_simps [simp]:
  "get fs p = Some (File d) \<Longrightarrow> entry_at E src fs p = file_entry (rel_of src p) d"
  "get fs p = Some Dir \<Longrightarrow> entry_at E src fs p = dir_entry E p (rel_of src p)"
  "rel_path (entry_at E src fs p) = rel_of src p"
  "rel_path (dir_entry E p rel) = rel" "rel_path (file_entry rel d) = rel"
  "e_is_dir (file_entry rel d) = False" "e_is_dir (dir_entry E p rel) = True"
  by (auto simp: entry_at_def file_entry_def dir_entry_def split: option.split node.split)

lemma listed_file_of:
  assumes "lookup w p = Some (File d)" and "strict_prefix src p" and "safe_below src p" and "length (f_content d) < 2 ^ 64"
  shows "file_of w src (entry_at E src (w_fs w) p) (f_content d)"
proof -
  have "unat (word_of_nat (length (f_content d)) :: u64) = length (f_content d)"
    using assms(4) by (simp add: unat_of_nat take_bit_nat_eq_self)
  with assms(1) rel_of_join_self [OF assms(2,3)] show ?thesis
    by (auto simp: file_of_def lookup_def file_entry_def file_len_def)
qed

lemma lock_stage_runs:
  assumes nf: "no_fail E" and ok: "crypto_ok cr" and wf: "wf_fs (w_fs w)" and lk: "lockable cr bc E src pw opts w"
    and ready: "journal_ready jc journal \<lparr>j_op = LockOp, j_folder = src, j_container = dest, j_staging = lock_tmp src\<rparr> w"
  shows "succeeds (lock_stage cr bc jc E src dest (lock_tmp src) pw hk opts journal) w"
proof -
  let ?t = "lock_tmp src"
  have src: "src \<noteq> []" "lookup w src = Some Dir" "lookup w ?t = None" using lk by (auto simp: lockable_def)
  note paths = lock_paths [OF src(1)]
  have apart: "\<not> strict_prefix src ?t" using paths(2) by (simp add: strict_prefix_def)
  show ?thesis
    unfolding lock_stage_def
  proof (intro succeeds_bindE, goal_cases)
    case 1
    show ?case by (simp add: ask_def succeeds_def split: prod.split)
  next
    case (2 stale w1)
    then have "\<not> stale" using src(3) by (auto simp: ask_def path_exists_def exists_path_def lock_tmp_def)
    then show ?case by (simp add: succeeds_def)
  next
    case (3 stale w1 u w2)
    then have "\<not> stale" using src(3) by (auto simp: ask_def path_exists_def exists_path_def lock_tmp_def)
    with 3 have fs: "w_fs w2 = w_fs w" by (auto simp: ask_def path_exists_def)
    show ?case
      by (rule scan_runs [OF nf]) (use fs wf src lk in \<open>auto simp: lockable_def lookup_def\<close>)
  next
    case (4 stale w1 u w2 sc w3)
    then have "\<not> stale" using src(3) by (auto simp: ask_def path_exists_def exists_path_def lock_tmp_def)
    with 4 have fs2: "w_fs w2 = w_fs w" by (auto simp: ask_def path_exists_def)
    obtain ds fl where l: "listed (w_fs w) {p. strict_prefix src p} ds fl"
      "scan_entries sc = map (entry_at E src (w_fs w)) (ds @ fl)" "w_fs w3 = w_fs w"
      using scan_listed [OF 4(3) _ src(1)] wf fs2 by metis
    have L: "lookup w3 q = lookup w q" for q using l(3) by (simp add: lookup_def)
    obtain m where m: "ser bc (scan_entries sc) = Inr m" "length m \<le> MAX_MANIFEST_LEN - TAG_LEN"
      using lk l(1,2) unfolding lockable_def by metis
    have files: "\<exists>data. file_of w3 src e data" if "e \<in> set (scan_entries sc)" "\<not> e_is_dir e" for e
    proof -
      from that l(2) obtain p where p: "e = entry_at E src (w_fs w3) p" "p \<in> set (ds @ fl)" using l(3) by auto
      with l(1) that(2) obtain d where d: "strict_prefix src p" "lookup w3 p = Some (File d)"
        by (auto simp: listed_def L lookup_def l(3))
      with lk have "safe_below src p" "length (f_content d) < 2 ^ 64" by (auto simp: lockable_def L)
      from listed_file_of [OF d(2,1) this] p(1) show ?thesis by blast
    qed
    have "parent_is_dir w3 ?t"
    proof -
      have "get (w_fs w) src \<noteq> None" using src(2) by (simp add: lookup_def)
      then have "butlast src = [] \<or> lookup w (butlast src) = Some Dir" using wf unfolding wf_fs_def lookup_def by blast
      then show ?thesis by (simp add: parent_is_dir_def lock_tmp_def is_dir_path_def L)
    qed
    then have "succeeds (write_container cr bc E src ?t (scan_entries sc) (scan_total sc) pw hk opts) w3"
      using nf ok apart m files src(3) lk
      by (intro write_container_runs) (auto simp: L lockable_def kdf_of_def)
    then show ?case unfolding succeeds_def write_staged_Inr .
  next
    case (5 stale w1 u w2 sc w3 uuid w4)
    then have "\<not> stale" using src(3) by (auto simp: ask_def path_exists_def exists_path_def lock_tmp_def)
    with 5 have c2: "changes_only (\<lambda>q. q = ?t) w w2" by (auto simp: ask_def path_exists_def changes_only_def lookup_def)
    have "keeps (changes_only (\<lambda>q. q = ?t)) (write_staged cr bc E src ?t (scan_entries sc) (scan_total sc) pw hk opts)"
      by (intro touches refl)
    from c2 keepsD [OF scan_touches 5(3)] keepsD [OF this 5(4)]
    have c: "changes_only (\<lambda>q. q = ?t) w w4" using changes_trans by blast
    have "keeps_records journal w w4"
      using c paths(5) writable_cong unfolding keeps_records_def changes_only_def by metis
    moreover have "is_dir_path w4 dir" if "is_dir_path w dir" for dir
      using that c src(3) unfolding is_dir_path_def changes_only_def by (metis option.distinct(1))
    ultimately show ?case using ready nf by (intro begin_record_runs journal_ready_later [OF ready]) auto
  next
    case (6 stale w1 u w2 sc w3 uuid w4 rc w5)
    show ?case by (simp add: succeeds_def)
  qed
qed

lemma remove_original_runs:
  assumes nf: "no_fail E" and src: "src \<noteq> []" "lookup w src = Some Dir"
  shows "succeeds (remove_original E opts src es) w"
proof -
  have "succeeds (mapE Io (remove_dir_all E src)) u" if "lookup u src = Some Dir" for u :: world
    using nf that by (intro succeeds_mapE runs)
  moreover have "lookup (wipe_tree E src es w) src = Some Dir"
    using wipe_tree_touches [of src "\<lambda>q. q \<noteq> src" w E es] src(2) by (simp add: changes_only_def)
  moreover have "succeeds (mapE Io (recycle E src)) w"
    using recycle_runs [OF nf src] by (metis succeeds_mapE succeedsI)
  ultimately show ?thesis using src(2) by (simp add: remove_original_def succeeds_def)
qed

lemma lock_finish_runs:
  assumes "no_fail E" and "src \<noteq> []" and "lookup w src = Some Dir"
  shows "succeeds (lock_finish E src dest opts es record) w"
  unfolding lock_finish_def
  by (intro succeeds_bindE remove_original_runs assms succeeds_returnE)
     (simp_all add: succeeds_def end_record_def split: option.split)

lemma stage_keeps:
  assumes ready: "journal_ready jc journal rec w"
    and st: "lock_stage cr bc jc E src dest (lock_tmp src) pw hk opts journal w = (Inr x, w')"
    and q: "q \<noteq> lock_tmp src" "lookup w q = Some Dir \<or> \<not> is_record journal q"
  shows "lookup w' q = lookup w q"
proof -
  have "keeps (changes_only (\<lambda>q. q = lock_tmp src \<or> is_record journal q))
      (lock_stage cr bc jc E src dest (lock_tmp src) pw hk opts journal)"
    by (rule lock_stage_touches) simp_all
  from keepsD [OF this st] have "changes_only (\<lambda>q. q = lock_tmp src \<or> is_record journal q) w w'" .
  moreover have "\<not> is_record journal q"
    using q(2) ready dir_not_record by (auto simp: journal_ready_def)
  ultimately show ?thesis using q(1) by (simp add: changes_only_def)
qed

lemma lock_folder_runs:
  assumes nf: "no_fail E" and ok: "crypto_ok cr" "codec_ok bc" and wf: "wf_fs (w_fs w)" and lk: "lockable cr bc E src pw opts w"
    and ready: "journal_ready jc journal
      \<lparr>j_op = LockOp, j_folder = src, j_container = lock_dest src, j_staging = lock_tmp src\<rparr> w"
  shows "succeeds (lock_folder cr bc jc E src pw hk opts journal) w"
proof -
  let ?t = "lock_tmp src" and ?d = "lock_dest src"
  have src: "src \<noteq> []" "last src \<noteq> ''..''" "lookup w src = Some Dir" "lookup w ?t = None" "lookup w ?d = None"
    using lk by (auto simp: lockable_def)
  note paths = lock_paths [OF src(1)]
  have par: "butlast src = [] \<or> lookup w (butlast src) = Some Dir"
    using wf src(3) unfolding wf_fs_def lookup_def by (metis option.distinct(1))
  have len: "length ?d = length src" "length ?t = length src"
    using src(1) by (simp_all add: lock_dest_def lock_tmp_def)
  show ?thesis
    unfolding lock_folder_phases [OF src(1,2)]
  proof (intro succeeds_bindE, goal_cases)
    case 1
    show ?case by (simp add: ask_def succeeds_def split: prod.split)
  next
    case (2 there w1)
    then have not: "\<not> there" and fs: "w_fs w1 = w_fs w"
      using src(5) by (auto simp: ask_def path_exists_def exists_path_def lock_dest_def)
    then have L: "lookup w1 q = lookup w q" for q by (simp add: lookup_def)
    have lk1: "lockable cr bc E src pw opts w1" using lk by (simp add: lockable_def L fs)
    have ready1: "journal_ready jc journal \<lparr>j_op = LockOp, j_folder = src, j_container = ?d, j_staging = ?t\<rparr> w1"
      using ready by (simp add: journal_ready_def is_dir_path_def writable_def L)
    have wf1: "wf_fs (w_fs w1)" using wf fs by simp
    have "succeeds (bindE (lock_stage cr bc jc E src ?d ?t pw hk opts journal) (\<lambda>(entries, rc).
        bindE (mapE Io (rename E ?t ?d)) (\<lambda>_. lock_finish E src ?d opts entries rc))) w1"
    proof (intro succeeds_bindE, goal_cases)
      case 1
      show ?case using lock_stage_runs [OF nf ok(1) wf1 lk1 ready1] .
    next
      case (2 x w2)
      obtain es rc where x: "x = (es, rc)" by fastforce
      note stage = lock_stage_Inr [OF ok wf1 src(1) paths(2,5) 2 [unfolded x]]
      note keep = stage_keeps [OF ready1 2]
      obtain d where d: "lookup w2 ?t = Some (File d)" using stage(1) by (auto simp: content_at_def)
      have "lookup w2 ?d = None" using keep [of ?d] paths(3,4) src(5) L by auto
      moreover have "butlast src \<noteq> ?t" using len src(1) by (metis diff_less length_0_conv length_butlast length_greater_0_conv less_irrefl zero_less_one)
      then have "parent_is_dir w2 ?d"
        using keep [of "butlast src"] par L by (auto simp: parent_is_dir_def is_dir_path_def lock_dest_def)
      ultimately have mv: "succeeds (mapE Io (rename E ?t ?d)) w2"
        using rename_runs(1) [OF nf _ _ d] by (intro succeeds_mapE)
      have dir: "lookup w3 src = Some Dir" if "mapE Io (rename E ?t ?d) w2 = (Inr u, w3)" for u w3
      proof -
        have "changes_only (\<lambda>q. prefix ?t q \<or> prefix ?d q) w2 w3"
          using that by (intro keepsD [OF rename_touches, of ?t _ ?d E]) (auto simp: mapE_Inr_iff)
        moreover have "\<not> prefix ?t src" "\<not> prefix ?d src"
          unfolding lock_dest_def lock_tmp_def by (intro beside src; simp)+
        moreover have "lookup w2 src = Some Dir" using keep [of src] src(3) L paths(2) by auto
        ultimately show ?thesis by (simp add: changes_only_def)
      qed
      show ?case
        unfolding x prod.case
        by (intro succeeds_bindE mv lock_finish_runs nf src(1) dir)
    qed
    with not show ?case by simp
  qed
qed

text \<open>What locking leaves alone.\<close>

lemma journal_apart_absent:
  assumes wf: "wf_fs (w_fs w)" and ready: "journal_ready jc journal rec w" and ja: "journal_apart journal src"
    and p: "p \<noteq> []" "butlast p = butlast src" "lookup w p = None"
  shows "journal_apart journal p"
proof -
  have "\<not> prefix p dir" if "journal = Some dir" for dir
  proof
    assume "prefix p dir"
    then obtain r where r: "dir = p @ r" by (elim prefixE)
    with p(1) ready that have "lookup w (p @ r) = Some Dir" by (auto simp: journal_ready_def is_dir_path_def)
    with p(3) have "get (w_fs w) (p @ r) \<noteq> None" "r \<noteq> []" by (auto simp: lookup_def)
    with wf_fs_ancestor [OF wf] p(1,3) show False by (metis lookup_def option.distinct(1))
  qed
  then show ?thesis using ja p(2) by (simp add: journal_apart_def)
qed

lemma lock_finish_touches:
  assumes "\<And>q. prefix src q \<Longrightarrow> P q" and "P dest" and "\<And>p. record = Some p \<Longrightarrow> P p"
  shows "keeps (changes_only P) (lock_finish E src dest opts es record)"
  unfolding lock_finish_def by (intro keeps_intros touches assms)

lemma lock_folder_frame:
  assumes named: "src \<noteq> []" "last src \<noteq> ''..''"
    and run: "lock_folder cr bc jc E src pw hk opts journal w = (r, w')"
    and q: "\<not> prefix src q" "\<not> prefix (lock_dest src) q" "\<not> prefix (lock_tmp src) q" "\<not> is_record journal q"
  shows "lookup w' q = lookup w q"
proof -
  let ?P = "\<lambda>q. prefix src q \<or> prefix (lock_dest src) q \<or> prefix (lock_tmp src) q \<or> is_record journal q"
  note tr = changes_trans [of ?P]
  have stage: "keeps (changes_only ?P) (lock_stage cr bc jc E src (lock_dest src) (lock_tmp src) pw hk opts journal)"
    by (rule lock_stage_touches) simp_all
  have mv: "keeps (changes_only ?P) (mapE Io (rename E (lock_tmp src) (lock_dest src)))" by (intro keeps_intros touches) auto
  have "changes_only ?P w w'"
    using run [unfolded lock_folder_phases [OF named]]
  proof (cases rule: bindE_outcome)
    case (failed e)
    then show ?thesis using keepsD [OF ask_touches] by blast
  next
    case (went_on there w1)
    have 1: "changes_only ?P w w1" using keepsD [OF ask_touches went_on(1)] .
    show ?thesis
    proof (cases there)
      case True
      with went_on(2) 1 show ?thesis by simp
    next
      case False
      with went_on(2) have "bindE (lock_stage cr bc jc E src (lock_dest src) (lock_tmp src) pw hk opts journal) (\<lambda>(entries, rc).
        bindE (mapE Io (rename E (lock_tmp src) (lock_dest src))) (\<lambda>_. lock_finish E src (lock_dest src) opts entries rc)) w1 = (r, w')"
        by simp
      then show ?thesis
      proof (cases rule: bindE_outcome)
        case (failed e)
        with 1 keepsD [OF stage] tr show ?thesis by blast
      next
        case (went_on x w2)
        obtain es rc where x: "x = (es, rc)" by fastforce
        have "is_record journal p" if "rc = Some p" for p
          using went_on(1) that begin_record_Inr unfolding x lock_stage_def bindE_Inr_iff by (auto split: prod.splits)
        then have "keeps (changes_only ?P) (lock_finish E src (lock_dest src) opts es rc)"
          by (intro lock_finish_touches) auto
        then have "keeps (changes_only ?P) (bindE (mapE Io (rename E (lock_tmp src) (lock_dest src))) (\<lambda>_.
            lock_finish E src (lock_dest src) opts es rc))"
          using mv by (intro keeps_bindE) (auto intro: touches)
        with 1 keepsD [OF stage went_on(1)] keepsD [OF this went_on(2) [unfolded x prod.case]] tr show ?thesis by blast
      qed
    qed
  qed
  then show ?thesis using q by (simp add: changes_only_def)
qed

lemma lock_folder_keeps_records:
  assumes named: "src \<noteq> []" "last src \<noteq> ''..''"
    and ja: "journal_apart journal src" "journal_apart journal (lock_dest src)" "journal_apart journal (lock_tmp src)"
  shows "keeps (keeps_records journal) (lock_folder cr bc jc E src pw hk opts journal)"
proof -
  note pre = keeps_records_preorder and els = elsewhere_keeps_records
  have apart: "\<not> is_record journal q"
    if "prefix src q \<or> prefix (lock_dest src) q \<or> prefix (lock_tmp src) q" for q
    using that ja record_apart by blast
  let ?P = "\<lambda>q. prefix src q \<or> prefix (lock_dest src) q \<or> prefix (lock_tmp src) q"
  have k: "keeps (keeps_records journal) m" if "keeps (changes_only ?P) m" for m :: "'x vio"
    using that apart by (rule els)
  have stage: "keeps (keeps_records journal) (lock_stage cr bc jc E src (lock_dest src) (lock_tmp src) pw hk opts journal)"
    unfolding lock_stage_def
    by (intro keeps_bindE keeps_if pre begin_record_keeps_records keeps_returnE) (intro k keeps_intros touches, simp?)+
  have fin: "keeps (keeps_records journal) (lock_finish E src (lock_dest src) opts es rc)" for es rc
    unfolding lock_finish_def
    by (intro keeps_bindE keeps_if pre end_record_keeps_records keeps_returnE) (intro k keeps_intros touches, simp?)+
  have mv: "keeps (keeps_records journal) (mapE Io (rename E (lock_tmp src) (lock_dest src)))"
    by (intro k keeps_intros touches) auto
  have "keeps (keeps_records journal) (ask (path_exists E (lock_dest src)))" by (intro k touches)
  then show ?thesis
    unfolding lock_folder_phases [OF named]
    by (intro keeps_bindE keeps_if keeps_case_prod keeps_throwE pre stage fin mv)
qed

definition kept_outside :: "path option \<Rightarrow> path \<Rightarrow> world \<Rightarrow> world \<Rightarrow> bool" where
  "kept_outside journal src w w' \<longleftrightarrow>
     (\<forall>q. \<not> prefix src q \<longrightarrow> \<not> prefix (lock_dest src) q \<longrightarrow> \<not> prefix (lock_tmp src) q \<longrightarrow> \<not> is_record journal q \<longrightarrow>
        lookup w' q = lookup w q)"

lemma lock_folder_locks:
  assumes nf: "no_fail E" and ok: "crypto_ok cr" "codec_ok bc" and wf: "wf_fs (w_fs w)" and lk: "lockable cr bc E src pw opts w"
    and ready: "journal_ready jc journal
      \<lparr>j_op = LockOp, j_folder = src, j_container = lock_dest src, j_staging = lock_tmp src\<rparr> w"
    and ja: "journal_apart journal src"
  obtains w1 c where "lock_folder cr bc jc E src pw hk opts journal w = (Inr (lock_dest src), w1)"
    and "content_at w1 (lock_dest src) c" and "holds_folder cr bc E hk pw opts w src c"
    and "\<And>q. prefix src q \<Longrightarrow> lookup w1 q = None"
    and "kept_outside journal src w w1" and "keeps_records journal w w1"
proof -
  have src: "src \<noteq> []" "last src \<noteq> ''..''" "lookup w (lock_tmp src) = None" "lookup w (lock_dest src) = None"
    using lk by (auto simp: lockable_def)
  obtain p w1 where run: "lock_folder cr bc jc E src pw hk opts journal w = (Inr p, w1)"
    using lock_folder_runs [OF nf ok wf lk ready, where hk = hk] by (auto simp: succeeds_def)
  have "butlast (lock_dest src) = butlast src" "butlast (lock_tmp src) = butlast src"
    "lock_dest src \<noteq> []" "lock_tmp src \<noteq> []" by (simp_all add: lock_dest_def lock_tmp_def)
  then have "journal_apart journal (lock_dest src)" "journal_apart journal (lock_tmp src)"
    using journal_apart_absent [OF wf ready ja] src by blast+
  from keepsD [OF lock_folder_keeps_records [OF src(1,2) ja this] run] have "keeps_records journal w w1" .
  moreover have "kept_outside journal src w w1"
    unfolding kept_outside_def using lock_folder_frame [OF src(1,2) run] by blast
  moreover note lock_folder_outcome [OF ok wf ja src(4) run]
  ultimately show ?thesis using that run by auto
qed

section \<open>A check touches only the container\<close>

lemma set_readonly_only: "keeps (changes_only (\<lambda>q. q = c)) (set_readonly E c ro)"
  by (intro touches refl)

lemma rearm_only: "changes_only (\<lambda>q. q = c) w (rearm E c ro w)"
  using set_readonly_only [of c E True] by (simp add: rearm_def keeps_def changes_only_def)

lemma bail_only [touches]: "keeps (changes_only (\<lambda>q. q = c)) (bail E c ro e)"
  by (rule keepsI) (simp add: bail_def rearm_only)

lemma rewrite_only [touches]: "keeps (changes_only (\<lambda>q. q = c)) (rewrite_header cr E c h hk)"
  unfolding rewrite_header_def by (intro keeps_intros touches refl)

lemma check_only [touches]: "keeps (changes_only (\<lambda>q. q = c)) (check_credential cr E c cred hk now ro h)"
proof (cases cred)
  case (Password pw)
  have whole: "keeps (changes_only (\<lambda>q. q = c)) (case lockout_check (h_lockout h) now of
      Inl e \<Rightarrow> bail E c ro e | Inr _ \<Rightarrow> m)"
    if "keeps (changes_only (\<lambda>q. q = c)) m" for m :: "key vio"
    by (auto intro: that bail_only split: sum.split)
  show ?thesis
    unfolding check_credential_def Password credential.case by (intro whole keeps_intros touches)
next
  case (MasterCode code)
  show ?thesis unfolding check_credential_def MasterCode credential.case by (intro keeps_intros touches)
qed

lemma clear_only [touches]: "keeps (changes_only (\<lambda>q. q = c)) (clear_lockout cr E c hk h)"
  unfolding clear_lockout_def by (intro keeps_intros touches)

lemma authorize_only: "keeps (changes_only (\<lambda>q. q = c)) (open_and_authorize cr E c cred hk now)"
proof (rule keepsI)
  fix w :: world
  let ?P = "\<lambda>q. q = c"
  obtain ro w1 where 1: "entry_state E c w = (ro, w1)" by fastforce
  have "changes_only ?P w (snd (was_readonly_on_entry E c w))"
    by (auto simp: was_readonly_on_entry_def intro: keepsD [OF reading_touches(2)] split: prod.split sum.split)
  moreover have "changes_only ?P u (snd (set_readonly E c False u))" for u
    using set_readonly_only by (simp add: keeps_def)
  ultimately have "changes_only ?P w w1"
    using 1 changes_trans by (auto simp: entry_state_def Let_def split: prod.splits if_splits)
  moreover have "keeps (changes_only ?P) (bindE (mapE Io (open_rw E c)) (\<lambda>f.
        bindE (mapE Io (read_exact E HEADER_LEN f)) (\<lambda>(hb, rest).
        bindE (liftR (from_bytes cr hk hb)) (\<lambda>h.
        bindE (check_credential cr E c cred hk now ro (clamp_foreign h)) (\<lambda>dk.
        bindE (clear_lockout cr E c hk (clamp_foreign h)) (\<lambda>h. returnE (rest, h, dk, ro)))))))"
    by (intro keeps_intros touches read_touches)
  ultimately show "changes_only ?P w (snd (open_and_authorize cr E c cred hk now w))"
    unfolding open_and_authorize_entry 1 prod.case unfolding keeps_def by (blast intro: changes_trans)
qed

section \<open>Unlocking succeeds\<close>

lemma bindE_ok: "m s = (Inr x, t) \<Longrightarrow> bindE m f s = f x t"
  by (simp add: bindE_def)

lemma prefix_same_length: "prefix p q \<Longrightarrow> length p = length q \<Longrightarrow> p = q"
  by (auto elim: prefixE)

lemma strict_butlast: "t \<noteq> [] \<Longrightarrow> strict_prefix (butlast t) t"
  by (cases t rule: rev_cases) (auto simp: strict_prefix_def)

lemma unlock_stage_runs:
  assumes nf: "no_fail E" and pl: "plan t dirs es" and below: "\<And>q. q \<in> dirs \<Longrightarrow> strict_prefix t q"
    and free: "\<And>q. prefix t q \<Longrightarrow> lookup w q = None" and up: "\<And>q. strict_prefix q t \<Longrightarrow> is_dir_path w q" and t: "t \<noteq> []"
    and fs: "frames_open cr (cc_new dk (h_uuid g)) 0 fs (concat (map split_chunks datas))"
    and sizes: "list_all2 (\<lambda>e data. length data = unat (e_size e)) (files_of es) datas"
    and ready: "journal_ready jc journal \<lparr>j_op = UnlockOp, j_folder = d, j_container = c, j_staging = t\<rparr> w"
    and ja: "journal_apart journal t"
  obtains rc w' where "unlock_stage cr jc E c d t g dk ro es (concat (map frame_bytes fs) @ y) journal w = (Inr rc, w')"
    and "is_dir_path w' (butlast t)"
    and "\<And>q. \<not> prefix q t \<Longrightarrow> lookup w' q = lookup w q \<or> q \<in> dirs \<or> q \<in> targets t es \<or> is_record journal q"
proof -
  let ?y = "concat (map frame_bytes fs) @ y" and ?cc = "cc_new dk (h_uuid g)"
    and ?rec = "\<lparr>j_op = UnlockOp, j_folder = d, j_container = c, j_staging = t\<rparr>"
  obtain w1 where 1: "ask (path_exists E t) w = (Inr False, w1)" and L1: "\<And>q. lookup w1 q = lookup w q"
    using free [of t] t by (auto simp: ask_def path_exists_def exists_path_def)
  have D1: "is_dir_path w1 q = is_dir_path w q" for q by (simp add: is_dir_path_def L1)
  have mk: "parent_is_dir w1 t" using up [OF strict_butlast [OF t]] t by (simp add: parent_is_dir_def D1)
  obtain w2 where 2: "create_dir E t w1 = (Inr (), w2)" and L2: "\<And>q. lookup w2 q = (if q = t then Some Dir else lookup w q)"
    using create_dir_runs [OF nf _ mk] free [of t] by (metis L1 prefix_order.refl)
  have D2: "is_dir_path w2 q" if "prefix q t" for q
    using that up [of q] by (cases "q = t") (auto simp: is_dir_path_def L2 strict_prefix_def)
  have "room t dirs (targets t es) w2"
    using D2 below free plan_targets [OF pl] unfolding room_def by (auto simp: L2 strict_prefix_def)
  from extract_entries_runs [OF nf pl this fs sizes] obtain w3 where
    3: "extract_entries cr E ?cc t (payload_len g) es ?y 0 0 w2 = (Inr (), w3)"
    and L3: "\<And>q. lookup w3 q = lookup w2 q \<or> prefix q t \<or> q \<in> dirs \<or> q \<in> targets t es" by blast
  have g3: "grows (\<lambda>q. q \<in> targets t es) w2 w3" by (rule keepsD [OF extract_entries_grows 3])
  have ex: "rearm_on E c ro (extract_staged cr E ?cc t (payload_len g) es ?y) w2 = (Inr (), w3)"
    using 3 by (simp add: rearm_on_def extract_staged_def)
  have rec_apart: "\<not> prefix t q" if "is_record journal q" for q using record_apart [OF ja that] .
  have "writable w3 q" if "is_record journal q" for q
  proof -
    have "writable w q" using ready that by (simp add: journal_ready_def)
    moreover have "lookup w3 q = lookup w q \<or> strict_prefix q t"
      using L3 [of q] rec_apart [OF that] below plan_targets [OF pl] by (cases "q = t") (auto simp: L2 strict_prefix_def)
    moreover have False if "strict_prefix q t"
    proof -
      have "q \<noteq> []" using \<open>is_record journal q\<close> by (auto simp: is_record_def record_path_def)
      then show False using up [OF that] \<open>writable w q\<close> by (auto simp: is_dir_path_def writable_def)
    qed
    ultimately show ?thesis by (auto simp: writable_def)
  qed
  moreover have "is_dir_path w3 dir" if "journal = Some dir" for dir
    using that ready L2 grows_is_dir [OF g3] by (auto simp: journal_ready_def is_dir_path_def)
  ultimately have "journal_ready jc journal ?rec w3" using ready by (simp add: journal_ready_def)
  then obtain rc w4 where 4: "begin_record jc E journal (h_uuid g) ?rec w3 = (Inr rc, w4)"
    using begin_record_runs [OF nf] unfolding succeeds_def by blast
  have c4: "changes_only (is_record journal) w3 w4" by (rule keepsD [OF begin_record_touches 4])
  have "unlock_stage cr jc E c d t g dk ro es ?y journal w = (Inr rc, w4)"
    using 1 2 ex 4 by (simp add: unlock_stage_def bindE_def mapE_def)
  moreover have "is_dir_path w4 (butlast t)"
  proof (cases "butlast t = []")
    case False
    have p: "prefix (butlast t) t" by (rule prefixeq_butlast)
    then have d3: "lookup w3 (butlast t) = Some Dir" using grows_is_dir [OF g3 D2 [OF p]] False by (simp add: is_dir_path_def)
    have "lookup w (butlast t) = Some Dir"
      using up [OF strict_butlast [OF t]] False by (simp add: is_dir_path_def)
    then have "\<not> is_record journal (butlast t)" using ready dir_not_record by (auto simp: journal_ready_def)
    with c4 d3 show ?thesis by (simp add: changes_only_def is_dir_path_def)
  qed (simp add: is_dir_path_def)
  moreover have "lookup w4 q = lookup w q \<or> q \<in> dirs \<or> q \<in> targets t es \<or> is_record journal q" if "\<not> prefix q t" for q
    using that changes_onlyD [OF c4, of q] L3 [of q] by (cases "q = t") (auto simp: L2)
  ultimately show ?thesis using that by blast
qed

lemma read_manifest_runs:
  assumes nf: "no_fail E" and pay: "payload_opens cr bc cc rest es datas" and n: "n_entries = word_of_nat (length es)"
  obtains fs w' where "rearm_on E c ro (read_manifest cr bc E cc n_entries rest) w = (Inr (es, concat (map frame_bytes fs)), w')"
    and "frames_open cr cc 0 fs (concat (map split_chunks datas))" and "w_fs w' = w_fs w"
proof -
  from pay obtain m fs manifest where p: "rest = frame_bytes m @ concat (map frame_bytes fs)" "frame_ok MAX_MANIFEST_LEN m"
    "open_in_place cr cc MANIFEST_SEQ (fst m) (snd m) = Inr manifest" "de bc manifest = Some es"
    "frames_open cr cc 0 fs (concat (map split_chunks datas))"
    unfolding payload_opens_def by blast
  obtain w1 where 1: "read_frame_into E MAX_MANIFEST_LEN rest w = (Inr (fst m, snd m, concat (map frame_bytes fs)), w1)"
    "only_ticks w w1"
    using read_frame_into_runs [OF nf p(2)] p(1) by (auto simp: MAX_MANIFEST_LEN_def)
  have "read_manifest cr bc E cc n_entries rest w = (Inr (es, concat (map frame_bytes fs)), w1)"
    using 1(1) p(3,4) n by (simp add: read_manifest_def bindE_def some_or_def)
  with only_ticks_fs [OF 1(2)] p(5) that show ?thesis by (simp add: rearm_on_def)
qed

lemma unlock_finish_runs:
  assumes nf: "no_fail E" and c: "c \<noteq> []" "lookup w c = Some (File d)"
  obtains w' where "unlock_finish E c dest rc w = (Inr dest, w')"
proof -
  obtain w1 where 1: "ignoreE (set_readonly E c False) w = (Inr () :: verror + unit, w1)" by simp
  obtain d' where "lookup w1 c = Some (File d')"
  proof -
    have "content_at w1 c (f_content d)"
      using set_readonly_content [of w c "f_content d" E c False] c(2) 1 by (simp add: content_at_def)
    then show ?thesis using that by (auto simp: content_at_def)
  qed
  then obtain w2 where 2: "recycle E c w1 = (Inr (), w2)" using recycle_runs [OF nf c(1)] by metis
  obtain w3 where "end_record E rc w2 = (Inr (), w3)" by (cases rc) (simp_all add: end_record_def)
  then have "unlock_finish E c dest rc w = (Inr dest, w3)"
    using 1 2 by (simp add: unlock_finish_def bindE_def mapE_def)
  then show ?thesis by (rule that)
qed

lemma chunks_determine:
  assumes "list_all2 (\<lambda>a b. length a = length b) as bs" and "concat (map split_chunks as) = concat (map split_chunks bs)"
  shows "as = bs"
  using assms
proof (induction rule: list_all2_induct)
  case (Cons a as b bs)
  from Cons.hyps(1) have "length (split_chunks a) = length (split_chunks b)" by (rule length_split_chunks_eq)
  with Cons.prems have "split_chunks a = split_chunks b" "as = bs" using Cons.IH by simp_all
  then show ?case by (metis concat_split_chunks)
qed simp

text \<open>The contents that extraction found are the ones the frames were written from.\<close>

lemma restored_contents:
  assumes fs: "frames_open cr cc 0 fs (concat (map split_chunks datas))"
    and sizes: "list_all2 (\<lambda>e data. length data = unat (e_size e)) (files_of es) datas"
    and y: "concat (map frame_bytes fs) = concat (map frame_bytes gs) @ z"
    and gs: "frames_open cr cc 0 gs (concat (map split_chunks ds))" and r: "folder_restored E w root es ds"
  shows "ds = datas"
proof -
  have l: "list_all2 (\<lambda>e data. length data = unat (e_size e)) (files_of es) ds"
    using r unfolding folder_restored_def by (auto elim!: list_all2_mono simp: restored_def)
  have len: "list_all2 (\<lambda>a b. length a = length b) ds datas"
    using l sizes unfolding list_all2_conv_all_nth by (metis (lifting))
  then have "length (concat (map split_chunks ds)) = length (concat (map split_chunks datas))"
  proof (induction rule: list_all2_induct)
    case (Cons a as b bs)
    then show ?case using length_split_chunks_eq [OF Cons.hyps(1)] by simp
  qed simp
  moreover have "frames_open cr cc 0 fs (concat (map split_chunks datas) @ [])" using fs by simp
  moreover have "concat (map frame_bytes gs) @ z = concat (map frame_bytes fs) @ []" using y by simp
  ultimately have "concat (map split_chunks ds) = concat (map split_chunks datas)"
    using frames_open_front [OF gs] by blast
  with len show ?thesis by (rule chunks_determine)
qed

lemma unlock_container_runs:
  assumes nf: "no_fail E" and mac: "hmac_len_ok cr" and up: "\<And>q. strict_prefix q (unlock_tmp c) \<Longrightarrow> is_dir_path w q"
    and c: "c \<noteq> []" "last c \<noteq> ''..''" and cf: "container_file cr hk w c h rest ro"
    and dec: "fst (decide cr cred now (clamp_foreign h)) = Inr dk"
    and pay: "payload_opens cr bc (cc_new dk (h_uuid h)) rest es datas" and n: "entry_count h = word_of_nat (length es)"
    and sizes: "list_all2 (\<lambda>e data. length data = unat (e_size e)) (files_of es) datas"
    and pl: "plan (unlock_tmp c) dirs es" and below: "\<And>q. q \<in> dirs \<Longrightarrow> strict_prefix (unlock_tmp c) q"
    and free: "lookup w (unlock_dest c) = None" "\<And>q. prefix (unlock_tmp c) q \<Longrightarrow> lookup w q = None"
    and ready: "journal_ready jc journal
        \<lparr>j_op = UnlockOp, j_folder = unlock_dest c, j_container = c, j_staging = unlock_tmp c\<rparr> w"
    and ja: "journal_apart journal (unlock_dest c)" "journal_apart journal (unlock_tmp c)"
  obtains w' where "unlock_container cr bc jc E c cred hk now journal w = (Inr (unlock_dest c), w')"
    and "\<And>r. lookup w' (unlock_dest c @ r) \<noteq> None \<Longrightarrow>
           r = [] \<or> unlock_tmp c @ r \<in> dirs \<or> unlock_tmp c @ r \<in> targets (unlock_tmp c) es"
    and "lookup w' (unlock_dest c) = Some Dir" and "lookup w' c = None" and "folder_restored E w' (unlock_dest c) es datas"
proof -
  let ?d = "unlock_dest c" and ?t = "unlock_tmp c" and ?rec = "\<lparr>j_op = UnlockOp, j_folder = unlock_dest c, j_container = c, j_staging = unlock_tmp c\<rparr>"
  define g where "g = (clamp_foreign h)\<lparr>h_lockout := lockout_default\<rparr>"
  have g: "h_uuid g = h_uuid h" "entry_count g = entry_count h" by (simp_all add: g_def clamp_foreign_def)
  note paths = unlock_paths [OF c(1)]
  have nrc: "\<not> is_record journal c" using paths(3) ja(1) by blast
  obtain d0 where c0: "lookup w c = Some (File d0)" using cf by (auto simp: container_file_def)
  have len: "length ?t = length c" "length ?d = length c" using c(1) by (simp_all add: unlock_tmp_def unlock_dest_def)
  have ne: "c \<noteq> ?t" "c \<noteq> ?d" "?d \<noteq> ?t" using free c0 by (auto simp: unlock_dest_def unlock_tmp_def)
  obtain w1 where 1: "open_and_authorize cr E c cred hk now w = (Inr (rest, g, dk, ro), w1)"
    using authorize_runs [OF nf cf mac, of cred now] dec unfolding g_def by force
  have c1: "changes_only (\<lambda>q. q = c) w w1" by (rule keepsD [OF authorize_only 1])
  obtain fs w2 where 2: "rearm_on E c ro (read_manifest cr bc E (cc_new dk (h_uuid g)) (entry_count g) rest) w1
        = (Inr (es, concat (map frame_bytes fs)), w2)"
    and fs: "frames_open cr (cc_new dk (h_uuid g)) 0 fs (concat (map split_chunks datas))" and f2: "w_fs w2 = w_fs w1"
    using read_manifest_runs [OF nf pay n] g by metis
  have L2: "lookup w2 q = lookup w q" if "q \<noteq> c" for q using c1 that f2 by (simp add: changes_only_def lookup_def)
  obtain w3 where 3: "ask (path_exists E ?d) w2 = (Inr False, w3)" "w_fs w3 = w_fs w2"
    using free(1) L2 ne(2) by (auto simp: ask_def path_exists_def exists_path_def unlock_dest_def)
  have L3: "lookup w3 q = lookup w q" if "q \<noteq> c" for q using L2 [OF that] 3(2) by (simp add: lookup_def)
  obtain d3 where c3: "lookup w3 c = Some (File d3)"
  proof -
    obtain h' ro' where "container_file cr hk w1 c h' rest ro'" using authorize_keeps_keys [OF cf mac, of E cred now] 1
      by (auto simp: keys_on_disk_def)
    with that f2 3(2) show ?thesis by (auto simp: container_file_def lookup_def)
  qed
  have up3: "is_dir_path w3 q" if "strict_prefix q ?t" for q
    using up [OF that] L3 [of q] c0 by (cases "q = c") (auto simp: is_dir_path_def)
  have "\<not> prefix ?t c" using len ne(1) by (metis prefix_same_length)
  then have free3: "lookup w3 q = None" if "prefix ?t q" for q using that free(2) L3 by metis
  have ready3: "journal_ready jc journal ?rec w3"
  proof (rule journal_ready_later [OF ready])
    show "keeps_records journal w w3" using L3 nrc writable_cong unfolding keeps_records_def by metis
    show "is_dir_path w3 dir" if "journal = Some dir" "is_dir_path w dir" for dir
      using that(2) L3 [of dir] c0 by (cases "dir = c") (auto simp: is_dir_path_def)
  qed
  obtain rc w4 where 4: "unlock_stage cr jc E c ?d ?t g dk ro es (concat (map frame_bytes fs)) journal w3 = (Inr rc, w4)"
    and par: "is_dir_path w4 (butlast ?t)"
    and L4: "\<And>q. \<not> prefix q ?t \<Longrightarrow> lookup w4 q = lookup w3 q \<or> q \<in> dirs \<or> q \<in> targets ?t es \<or> is_record journal q"
    using unlock_stage_runs [OF nf pl below free3 up3 paths(5) fs sizes ready3 ja(2), where y = "[]"] by (metis append_Nil2)
  have same: "lookup w4 q = lookup w3 q" if "length q = length c" "q \<noteq> ?t" "\<not> is_record journal q" for q
  proof -
    have "\<not> prefix q ?t" using that len prefix_same_length by metis
    moreover have "\<not> strict_prefix ?t q" using that(1) len(1) prefix_length_less by force
    ultimately show ?thesis using L4 [of q] that(3) below plan_targets [OF pl] by blast
  qed
  have d4: "lookup w4 ?d = None" using same [of ?d] len ne record_apart [OF ja(1)] L3 free(1) by auto
  have t4: "lookup w4 ?t = Some Dir" by (rule unlock_stage_Inr(1) [OF 4 paths(5) ja(2)])
  obtain u w5 where 5: "rename E ?t ?d w4 = (Inr u, w5)"
  proof -
    have "parent_is_dir w4 ?d" using par by (simp add: parent_is_dir_def unlock_dest_def unlock_tmp_def)
    from rename_runs(2) [OF nf d4 this t4 paths(4)] show ?thesis using that by (auto simp: succeeds_def)
  qed
  have "changes_only (\<lambda>q. prefix ?t q \<or> prefix ?d q) w4 w5" by (rule keepsD [OF rename_touches 5]) simp_all
  moreover have "\<not> prefix ?d c" using len ne(2) by (metis prefix_same_length)
  ultimately have c5: "lookup w5 c = Some (File d3)"
    using same [OF refl ne(1) nrc] c3 \<open>\<not> prefix ?t c\<close> by (simp add: changes_only_def)
  then obtain w6 where 6: "unlock_finish E c ?d rc w5 = (Inr ?d, w6)" using unlock_finish_runs [OF nf c(1)] by metis
  have run: "unlock_container cr bc jc E c cred hk now journal w = (Inr ?d, w6)"
    unfolding unlock_container_def bindE_ok [where m = "open_and_authorize cr E c cred hk now", OF 1]
      prod.case bindE_ok [where m = "rearm_on E c ro m" for m, OF 2]
    using c 3(1) 4 5 6 unfolding unlock_dest_def unlock_tmp_def
    by (simp add: file_stem_def file_name_def parent_def some_or_def Let_def bindE_def mapE_def)
  let ?P = "\<lambda>q. prefix c q \<or> is_record journal q"
  have recs: "is_record journal p" if "rc = Some p" for p using that by (rule unlock_stage_Inr(2) [OF 4 paths(5) ja(2)])
  have "keeps (changes_only ?P) (unlock_finish E c ?d rc)"
    unfolding unlock_finish_def by (intro keeps_intros touches) (auto dest: recs)
  from keepsD [OF this 6] have fin: "changes_only ?P w5 w6" .
  have out: "\<not> ?P (?d @ r)" for r using paths(2) ne(2) record_apart [OF ja(1)] by (metis prefixI)
  have moved: "lookup w6 (?d @ r) = lookup w4 (?t @ r)" for r
    using rename_dir_Inr [OF 5 t4] fin out by (simp add: changes_only_def)
  have "r = [] \<or> ?t @ r \<in> dirs \<or> ?t @ r \<in> targets ?t es" if "lookup w6 (?d @ r) \<noteq> None" for r
    using that moved [of r] L4 [of "?t @ r"] free3 record_apart [OF ja(2), of "?t @ r"] by (cases "r = []") auto
  moreover have "lookup w6 ?d = Some Dir" using moved [of "[]"] t4 by simp
  moreover have "folder_restored E w6 ?d es datas"
  proof -
    have "distinct_targets ?t es" using pl by (simp add: plan_def)
    note distinct = entries_restored_distinct [OF _ this]
    from unlock_stage_Inr(3) [OF 4 paths(5) ja(2)] distinct obtain ds gs z where
      r: "concat (map frame_bytes fs) = concat (map frame_bytes gs) @ z"
      "frames_open cr (cc_new dk (h_uuid g)) 0 gs (concat (map split_chunks ds))" "folder_restored E w4 ?t es ds" by blast
    from restored_contents [OF fs sizes r] r(3) show ?thesis using folder_restored_move [OF moved] by simp
  qed
  moreover have "lookup w6 c = None"
    using unlock_container_outcome [OF cf mac ja run] by auto
  ultimately show ?thesis using run that by blast
qed

section \<open>The manifest of a folder as an extraction plan\<close>

lemma in_folder:
  assumes "strict_prefix src p"
  obtains ns where "p = src @ ns" and "ns \<noteq> []" and "drop (length src) p = ns"
  using assms by (auto simp: strict_prefix_def elim!: prefixE)

lemma manifest_files:
  assumes l: "listed fs {p. strict_prefix src p} ds fl"
  shows "files_of (map (entry_at E src fs) (ds @ fl)) = map (entry_at E src fs) fl"
proof -
  have "filter (\<lambda>e. \<not> e_is_dir e) (map (entry_at E src fs) ds) = []"
    using l by (auto simp: listed_def filter_empty_conv)
  moreover have "filter (\<lambda>e. \<not> e_is_dir e) (map (entry_at E src fs) fl) = map (entry_at E src fs) fl"
    using l by (auto simp: listed_def filter_id_conv)
  ultimately show ?thesis by simp
qed

text \<open>The paths a staging directory at \<open>t\<close> gets for the paths below \<open>src\<close>.\<close>

definition staged :: "path \<Rightarrow> path \<Rightarrow> path \<Rightarrow> path" where
  "staged src t p = t @ drop (length src) p"

lemma staged_simp [simp]: "staged src t (src @ ns) = t @ ns"
  by (simp add: staged_def)

lemma folder_plan:
  assumes l: "listed fs {p. strict_prefix src p} ds fl" and wf: "wf_fs fs" and src: "src \<noteq> []"
    and safe: "\<And>p. strict_prefix src p \<Longrightarrow> get fs p \<noteq> None \<Longrightarrow> safe_below src p"
  shows "plan t (staged src t ` set ds) (map (entry_at E src fs) (ds @ fl))"
proof -
  let ?es = "map (entry_at E src fs) (ds @ fl)" and ?D = "staged src t ` set ds"
  have ds: "p \<in> set ds \<longleftrightarrow> strict_prefix src p \<and> get fs p = Some Dir" for p using l by (auto simp: listed_def)
  have fl: "p \<in> set fl \<longleftrightarrow> strict_prefix src p \<and> (\<exists>d. get fs p = Some (File d))" for p using l by (auto simp: listed_def)
  have join: "safe_join t (rel_of src p) = Inr (staged src t p)" if "p \<in> set (ds @ fl)" for p
    using that rel_of_join [of src p t] safe ds fl by (auto simp: staged_def)
  have D: "t @ ns \<in> ?D \<longleftrightarrow> ns \<noteq> [] \<and> get fs (src @ ns) = Some Dir" for ns
  proof
    assume "t @ ns \<in> ?D"
    then obtain p where p: "p \<in> set ds" "ns = drop (length src) p" by (auto simp: staged_def)
    then obtain ms where "p = src @ ms" "ms \<noteq> []" using ds in_folder by metis
    with p ds show "ns \<noteq> [] \<and> get fs (src @ ns) = Some Dir" by auto
  next
    assume "ns \<noteq> [] \<and> get fs (src @ ns) = Some Dir"
    then have "src @ ns \<in> set ds" using ds by (simp add: strict_prefix_def)
    then show "t @ ns \<in> ?D" by (intro image_eqI [of _ _ "src @ ns"]) simp_all
  qed
  have par: "butlast ns = [] \<or> get fs (src @ butlast ns) = Some Dir" if "get fs (src @ ns) \<noteq> None" "ns \<noteq> []" for ns
    using wf_fs_ancestor [OF wf, of "src @ butlast ns" "[last ns]"] that src by simp
  have "\<exists>p. safe_join t (rel_path e) = Inr p
      \<and> (if e_is_dir e then p \<in> ?D else p \<notin> ?D \<and> (butlast p = t \<or> butlast p \<in> ?D))" if "e \<in> set ?es" for e
  proof -
    from that obtain p where p: "p \<in> set (ds @ fl)" "e = entry_at E src fs p" by auto
    then obtain ns where ns: "p = src @ ns" "ns \<noteq> []" using ds fl in_folder by (metis Un_iff set_append)
    show ?thesis
    proof (cases "p \<in> set ds")
      case True
      then have "staged src t p \<in> ?D" "get fs p = Some Dir" using ds by blast+
      then show ?thesis using join [OF p(1)] p(2) by simp
    next
      case False
      with p(1) fl obtain d where d: "get fs p = Some (File d)" by auto
      have "butlast (t @ ns) = t @ butlast ns" using ns(2) by (simp add: butlast_append)
      with par [of ns] d ns D [of ns] D [of "butlast ns"] have "butlast (t @ ns) = t \<or> butlast (t @ ns) \<in> ?D" by auto
      with join [OF p(1)] p(2) d ns D [of ns] show ?thesis by simp
    qed
  qed
  moreover have "q \<in> ?D" if below: "p \<in> ?D" "strict_prefix t q" "prefix q p" for p q
  proof -
    obtain ms where ms: "q = t @ ms" "ms \<noteq> []" using below(2) in_folder by metis
    obtain k where k: "p = t @ ms @ k" using below(3) ms(1) by (auto elim: prefixE)
    with below(1) D [of "ms @ k"] have "get fs ((src @ ms) @ k) = Some Dir" by simp
    then have "get fs (src @ ms) = Some Dir"
      using wf_fs_ancestor [OF wf, of "src @ ms" k] src by (cases "k = []") auto
    with D ms show ?thesis by simp
  qed
  moreover have "distinct_targets t ?es"
  proof -
    have "inj_on (\<lambda>p. Inr (staged src t p) :: verror + path) (set fl)"
    proof (rule inj_onI)
      fix p q
      assume "p \<in> set fl" "q \<in> set fl" and e: "(Inr (staged src t p) :: verror + path) = Inr (staged src t q)"
      then obtain m n where "p = src @ m" "q = src @ n" using fl in_folder by metis
      with e show "p = q" by simp
    qed
    then have "distinct (map (\<lambda>p. Inr (staged src t p) :: verror + path) fl)"
      using l by (simp add: distinct_map listed_def)
    moreover have "map (\<lambda>e. safe_join t (rel_path e)) (files_of ?es) = map (\<lambda>p. Inr (staged src t p)) fl"
      using join unfolding manifest_files [OF l] by simp
    ultimately show ?thesis by (simp add: distinct_targets_def)
  qed
  ultimately show ?thesis unfolding plan_def by blast
qed

section \<open>The credentials that open a fresh container\<close>

text \<open>
  The password, or the recovery code of the enrolled pair however it is typed. The code counts as
  enrolled when sealing to its key never yields a block of zeros, which is how \<open>is_enrolled\<close> marks a
  container without one.
\<close>

definition opens_with :: "crypto \<Rightarrow> lock_options \<Rightarrow> byte list \<Rightarrow> credential \<Rightarrow> bool" where
  "opens_with cr opts pw cred \<longleftrightarrow> cred = Password pw
     \<or> (\<exists>r0 typed. cred = MasterCode typed \<and> sha_len_ok cr
          \<and> lo_master_pub opts = Some (mk_public (fst (generate_master cr r0)))
          \<and> retyped (mk_code (fst (generate_master cr r0))) typed
          \<and> (\<forall>dk r. is_enrolled (fst (seal_dk cr (mk_public (fst (generate_master cr r0))) dk r))))"

lemma fresh_container_opens:
  assumes ok: "crypto_ok cr" and sc: "sealed_container cr bc hk pw c h dk es datas" and en: "enrolled_with cr opts h dk"
    and cred: "opens_with cr opts pw cred"
  shows "fst (decide cr cred now (clamp_foreign h)) = Inr dk"
proof -
  have h: "clamp_foreign h = h" "h_lockout h = lockout_default" "password_opens cr pw h dk"
    using sc by (auto simp: sealed_container_def clamp_foreign_def)
  have len: "length dk = 32"
    using h(3) sc ok unwrap_key_length by (auto simp: password_opens_def sealed_container_def wf_header_def crypto_ok_def)
  from cred consider (password) "cred = Password pw"
    | (code) r0 typed r where "cred = MasterCode typed" "sha_len_ok cr" "retyped (mk_code (fst (generate_master cr r0))) typed"
      "wrapped_dk_mk h = fst (seal_dk cr (mk_public (fst (generate_master cr r0))) dk r)" "is_enrolled (wrapped_dk_mk h)"
    using en by (auto simp: opens_with_def enrolled_with_def)
  then show ?thesis
  proof cases
    case password
    have "lockout_check lockout_default now = Inr ()" by (simp add: lockout_check_def lockout_default_def)
    with h password show ?thesis by (auto simp: decide_def password_opens_def)
  next
    case code
    have "open_dk cr typed (wrapped_dk_mk h) = Some dk"
      using open_seal_dk [OF _ _ code(2) len code(3)] ok code(4) by (simp add: crypto_ok_def)
    with h code show ?thesis by (simp add: decide_def)
  qed
qed

section \<open>There and back\<close>

definition same_node :: "node option \<Rightarrow> node option \<Rightarrow> bool" where
  "same_node a b \<longleftrightarrow>
     (case a of
        Some (File d) \<Rightarrow> (\<exists>d'. b = Some (File d') \<and> f_content d' = f_content d \<and> f_readonly d' = f_readonly d
                             \<and> (0 < f_mtime d \<longrightarrow> f_mtime d' = f_mtime d))
      | _ \<Rightarrow> b = a)"

definition restoring :: "path \<Rightarrow> path" where
  "restoring src = butlast src @ [last src @ ''.__restoring'']"

text \<open>
  What unlocking needs on top: names that can be recreated (directories included), nothing at the
  staging path, and a journal that takes the two records and lies elsewhere.
\<close>

definition restorable :: "jrecord codec \<Rightarrow> path option \<Rightarrow> path \<Rightarrow> world \<Rightarrow> bool" where
  "restorable jc journal src w \<longleftrightarrow>
     last src \<noteq> [] \<and> (\<forall>p. strict_prefix src p \<longrightarrow> lookup w p \<noteq> None \<longrightarrow> safe_below src p)
     \<and> lookup w (restoring src) = None \<and> journal_apart journal src
     \<and> journal_ready jc journal \<lparr>j_op = LockOp, j_folder = src, j_container = lock_dest src, j_staging = lock_tmp src\<rparr> w
     \<and> journal_ready jc journal \<lparr>j_op = UnlockOp, j_folder = src, j_container = lock_dest src, j_staging = restoring src\<rparr> w"

lemma unlock_of_lock:
  assumes "src \<noteq> []" and "last src \<noteq> []"
  shows "unlock_dest (lock_dest src) = src" and "unlock_tmp (lock_dest src) = restoring src"
proof -
  have "split_name (last src @ ''.fvlt'') = (last src, Some ''fvlt'')"
    using assms(2) by (auto simp: split_name_def Let_def)
  then show "unlock_dest (lock_dest src) = src" "unlock_tmp (lock_dest src) = restoring src"
    using assms(1) by (simp_all add: unlock_dest_def unlock_tmp_def lock_dest_def restoring_def)
qed

lemma restored_tree:
  assumes l: "listed (w_fs w) {p. strict_prefix src p} ds fl" and es: "es = map (entry_at E src (w_fs w)) (ds @ fl)"
    and nf: "no_fail E" and safe: "\<And>p. strict_prefix src p \<Longrightarrow> lookup w p \<noteq> None \<Longrightarrow> safe_below src p"
    and files: "list_all2 (file_of w src) (files_of es) datas" and r: "folder_restored E w2 src es datas"
    and none: "\<And>ns. lookup w2 (src @ ns) \<noteq> None \<Longrightarrow> ns = [] \<or> t @ ns \<in> staged src t ` set ds \<or> t @ ns \<in> targets t es"
    and dirs: "lookup w src = Some Dir" "lookup w2 src = Some Dir" and q: "prefix src q"
  shows "same_node (lookup w q) (lookup w2 q)"
proof -
  obtain ns where ns: "q = src @ ns" using q by (elim prefixE)
  have set: "p \<in> set (ds @ fl) \<longleftrightarrow> strict_prefix src p \<and> lookup w p \<noteq> None" for p
    using l by (auto simp: listed_def lookup_def) (metis node.exhaust)
  have join: "safe_join root (rel_of src p) = Inr (root @ drop (length src) p)" if "p \<in> set (ds @ fl)" for p root
    using that rel_of_join safe set by blast
  show ?thesis
  proof (cases "ns = []")
    case True
    with ns dirs show ?thesis by (simp add: same_node_def)
  next
    case False
    then have below: "strict_prefix src q" using ns by (simp add: strict_prefix_def)
    show ?thesis
    proof (cases "lookup w q")
      case None
      have "lookup w2 (src @ ns) = None"
      proof (rule ccontr)
        assume "lookup w2 (src @ ns) \<noteq> None"
        with none False have "t @ ns \<in> staged src t ` set ds \<or> t @ ns \<in> targets t es" by blast
        moreover have "targets t es \<subseteq> staged src t ` set (ds @ fl)"
        proof
          fix r
          assume "r \<in> targets t es"
          then obtain e where e: "e \<in> set es" "safe_join t (rel_path e) = Inr r" by (auto simp: targets_def)
          then obtain p where "p \<in> set (ds @ fl)" "e = entry_at E src (w_fs w) p" unfolding es by (metis imageE list.set_map)
          with e join [of p t] show "r \<in> staged src t ` set (ds @ fl)" by (auto simp: staged_def)
        qed
        ultimately have "t @ ns \<in> staged src t ` set (ds @ fl)" by auto
        then obtain p where p: "p \<in> set (ds @ fl)" "t @ ns = t @ drop (length src) p"
          unfolding staged_def by blast
        then obtain m where "p = src @ m" using set in_folder by metis
        with p ns None set show False by auto
      qed
      with None ns show ?thesis by (simp add: same_node_def)
    next
      case (Some n)
      then have mem: "q \<in> set (ds @ fl)" using below set by simp
      let ?e = "entry_at E src (w_fs w) q"
      have e: "?e \<in> set es" using mem es by auto
      have jq: "safe_join src (rel_path ?e) = Inr q" using join [OF mem, of src] ns by simp
      show ?thesis
      proof (cases n)
        case (File d)
        with Some have d: "?e = file_entry (rel_of src q) d" by (simp add: lookup_def)
        then have "?e \<in> set (files_of es)" using e by simp
        then obtain i where i: "i < length (files_of es)" "files_of es ! i = ?e" by (metis in_set_conv_nth)
        have "file_of w src ?e (datas ! i)" using files i by (auto simp: list_all2_conv_all_nth)
        then have c: "datas ! i = f_content d" using jq Some File by (auto simp: file_of_def)
        have "restored E w2 src ?e (datas ! i)" using r i by (auto simp: folder_restored_def list_all2_conv_all_nth)
        then show ?thesis
          using jq Some File nf c by (auto simp: restored_def same_node_def d file_entry_def)
      next
        case Dir
        with Some have "e_is_dir ?e" by (simp add: lookup_def)
        then have "dir_restored w2 src ?e" using r e by (simp add: folder_restored_def)
        with Some Dir jq show ?thesis by (simp add: dir_restored_def same_node_def)
      next
        case Link
        with Some l below show ?thesis by (auto simp: listed_def lookup_def)
      qed
    qed
  qed
qed

lemma sealed_container_file:
  assumes sc: "sealed_container cr bc hk pw c h dk es datas" and mac: "hmac_len_ok cr" and c: "content_at w p c"
  obtains rest ro where "container_file cr hk w p h rest ro" and "payload_opens cr bc (cc_new dk (h_uuid h)) rest es datas"
proof -
  obtain rest where rest: "c = to_bytes cr hk h @ rest" "payload_opens cr bc (cc_new dk (h_uuid h)) rest es datas"
    and h: "wf_header h" "hmac_ok h" using sc by (auto simp: sealed_container_def)
  have "from_bytes cr hk (to_bytes cr hk h) = Inr h" using to_bytes_parses [OF h(1) mac] h(2) by simp
  moreover have "length (to_bytes cr hk h) = HEADER_LEN" using length_to_bytes [OF h(1) mac] by (simp add: HEADER_LEN_def)
  ultimately show ?thesis using that rest c by (fastforce simp: container_file_def content_at_def)
qed

text \<open>After locking, everything unlocking needs is in place.\<close>

lemma after_lock:
  assumes wf: "wf_fs (w_fs w)" and lk: "lockable cr bc E src pw opts w" and rb: "restorable jc journal src w"
    and gone: "\<And>q. prefix src q \<Longrightarrow> lookup w1 q = None" and kept: "kept_outside journal src w w1"
    and recs: "keeps_records journal w w1"
  shows "\<And>q. prefix (restoring src) q \<Longrightarrow> lookup w1 q = None" and "\<And>q. strict_prefix q (restoring src) \<Longrightarrow> is_dir_path w1 q"
    and "journal_ready jc journal \<lparr>j_op = UnlockOp, j_folder = src, j_container = lock_dest src, j_staging = restoring src\<rparr> w1"
    and "journal_apart journal (restoring src)"
proof -
  let ?r = "restoring src"
  have src: "src \<noteq> []" "lookup w src = Some Dir" using lk by (auto simp: lockable_def)
  have ready: "journal_ready jc journal \<lparr>j_op = UnlockOp, j_folder = src, j_container = lock_dest src, j_staging = ?r\<rparr> w"
    and ja: "journal_apart journal src" and free: "lookup w ?r = None" using rb by (simp_all add: restorable_def)
  show ap: "journal_apart journal ?r"
    by (rule journal_apart_absent [OF wf ready ja _ _ free]) (simp_all add: restoring_def)
  have len: "length (lock_dest src) = length src" "length (lock_tmp src) = length src" "length ?r = length src"
    using src(1) by (simp_all add: lock_dest_def lock_tmp_def restoring_def)
  have ne: "?r \<noteq> src" "?r \<noteq> lock_dest src" "?r \<noteq> lock_tmp src"
    using free src(2) by (auto simp: restoring_def lock_dest_def lock_tmp_def)
  show "lookup w1 q = None" if "prefix ?r q" for q
  proof -
    have "lookup w q = None"
    proof (rule ccontr)
      assume a: "lookup w q \<noteq> None"
      obtain k where "q = ?r @ k" using \<open>prefix ?r q\<close> by (elim prefixE)
      with a free wf_fs_ancestor [OF wf, of ?r k] show False by (cases "k = []") (auto simp: lookup_def restoring_def)
    qed
    moreover have "\<not> prefix p q" if "p \<noteq> ?r" "length p = length src" for p
      using that len(3) \<open>prefix ?r q\<close> prefix_same_cases prefix_same_length by metis
    ultimately show ?thesis
      using kept record_apart [OF ap, of q] \<open>prefix ?r q\<close> len ne unfolding kept_outside_def by metis
  qed
  have dirs: "is_dir_path w1 q" if "is_dir_path w q" "\<not> prefix src q" "\<not> prefix (lock_dest src) q" "\<not> prefix (lock_tmp src) q" for q
  proof (cases "q = []")
    case False
    with that(1) have "lookup w q = Some Dir" by (simp add: is_dir_path_def)
    moreover have "\<not> is_record journal q" using calculation ready dir_not_record by (auto simp: journal_ready_def)
    ultimately show ?thesis using that kept by (simp add: kept_outside_def is_dir_path_def)
  qed (simp add: is_dir_path_def)
  show "is_dir_path w1 q" if "strict_prefix q ?r" for q
  proof (rule dirs)
    have p: "prefix q (butlast src)" using that by (auto simp: restoring_def strict_prefix_def)
    then have "strict_prefix q src" using strict_butlast [OF src(1)] by (rule prefix_order.le_less_trans)
    then obtain k where k: "src = q @ k" "k \<noteq> []" using in_folder by metis
    with wf_fs_ancestor [OF wf, of q k] src(2) show "is_dir_path w q" by (auto simp: is_dir_path_def lookup_def)
    have "length q < length src" using k by (cases k) simp_all
    then show "\<not> prefix src q" "\<not> prefix (lock_dest src) q" "\<not> prefix (lock_tmp src) q"
      using len prefix_length_le by fastforce+
  qed
  show "journal_ready jc journal \<lparr>j_op = UnlockOp, j_folder = src, j_container = lock_dest src, j_staging = ?r\<rparr> w1"
  proof (rule journal_ready_later [OF ready recs])
    show "is_dir_path w1 dir" if "journal = Some dir" "is_dir_path w dir" for dir
    proof (rule dirs [OF that(2)])
      have "journal_apart journal (lock_dest src)" "journal_apart journal (lock_tmp src)"
        using journal_apart_absent [OF wf ready ja] lk by (auto simp: lockable_def lock_dest_def lock_tmp_def)
      with that(1) ja show "\<not> prefix src dir" "\<not> prefix (lock_dest src) dir" "\<not> prefix (lock_tmp src) dir"
        by (simp_all add: journal_apart_def)
    qed
  qed
qed

lemma lock_then_unlock:
  assumes nf: "no_fail E" and ok: "crypto_ok cr" "codec_ok bc" and wf: "wf_fs (w_fs w)"
    and lk: "lockable cr bc E src pw opts w" and rb: "restorable jc journal src w" and cred: "opens_with cr opts pw cred"
  shows "\<exists>w1 w2. lock_folder cr bc jc E src pw hk opts journal w = (Inr (lock_dest src), w1)
     \<and> (\<forall>q. prefix src q \<longrightarrow> lookup w1 q = None)
     \<and> unlock_container cr bc jc E (lock_dest src) cred hk now journal w1 = (Inr src, w2)
     \<and> lookup w2 (lock_dest src) = None \<and> (\<forall>q. prefix src q \<longrightarrow> same_node (lookup w q) (lookup w2 q))"
proof -
  let ?c = "lock_dest src"
  have src: "src \<noteq> []" "last src \<noteq> []" "lookup w src = Some Dir" using lk rb by (auto simp: lockable_def restorable_def)
  note paths = unlock_of_lock [OF src(1,2)]
  have mac: "hmac_len_ok cr" using ok(1) by (simp add: crypto_ok_def)
  have ready: "journal_ready jc journal \<lparr>j_op = LockOp, j_folder = src, j_container = ?c, j_staging = lock_tmp src\<rparr> w"
    and ja: "journal_apart journal src"
    and safe: "\<And>p. strict_prefix src p \<Longrightarrow> lookup w p \<noteq> None \<Longrightarrow> safe_below src p" using rb by (simp_all add: restorable_def)
  obtain w1 c where lock: "lock_folder cr bc jc E src pw hk opts journal w = (Inr ?c, w1)"
    and c: "content_at w1 ?c c" and hf: "holds_folder cr bc E hk pw opts w src c"
    and gone: "\<And>q. prefix src q \<Longrightarrow> lookup w1 q = None" and kept: "kept_outside journal src w w1" "keeps_records journal w w1"
    using lock_folder_locks [OF nf ok wf lk ready ja, where hk = hk] by metis
  obtain h dk es datas ds fl where sc: "sealed_container cr bc hk pw c h dk es datas" and en: "enrolled_with cr opts h dk"
    and es: "es = map (entry_at E src (w_fs w)) (ds @ fl)" and l: "listed (w_fs w) {p. strict_prefix src p} ds fl"
    and files: "list_all2 (file_of w src) (files_of es) datas"
    using hf unfolding holds_folder_def by blast
  obtain rest ro where cf: "container_file cr hk w1 ?c h rest ro" and pay: "payload_opens cr bc (cc_new dk (h_uuid h)) rest es datas"
    using sealed_container_file [OF sc mac c] .
  have n: "entry_count h = word_of_nat (length es)" using sc by (simp add: sealed_container_def)
  have sizes: "list_all2 (\<lambda>e data. length data = unat (e_size e)) (files_of es) datas"
    using files by (rule list_all2_mono) (auto simp: file_of_def)
  have pl: "plan (restoring src) (staged src (restoring src) ` set ds) es"
    unfolding es by (rule folder_plan [OF l wf src(1)]) (use safe in \<open>auto simp: lookup_def\<close>)
  have below: "strict_prefix (restoring src) q" if "q \<in> staged src (restoring src) ` set ds" for q
    using that l in_folder by (auto simp: listed_def staged_def strict_prefix_def elim!: prefixE)
  note al = after_lock [OF wf lk rb gone kept]
  have last: "?c \<noteq> []" "last ?c \<noteq> ''..''" by (auto simp: lock_dest_def)
  obtain w2 where unlock: "unlock_container cr bc jc E ?c cred hk now journal w1 = (Inr src, w2)"
    and none: "\<And>ns. lookup w2 (src @ ns) \<noteq> None \<Longrightarrow>
      ns = [] \<or> restoring src @ ns \<in> staged src (restoring src) ` set ds \<or> restoring src @ ns \<in> targets (restoring src) es"
    and dir: "lookup w2 src = Some Dir" and c2: "lookup w2 ?c = None" and r: "folder_restored E w2 src es datas"
    by (rule unlock_container_runs [where c = ?c and jc = jc and journal = journal, unfolded paths,
          OF nf mac al(2) last cf fresh_container_opens [OF ok(1) sc en cred, of now] pay n sizes pl below gone al(1,3) ja al(4)])
       simp_all
  have "same_node (lookup w q) (lookup w2 q)" if "prefix src q" for q
    by (rule restored_tree [OF l es nf safe files r none src(3) dir that])
  with lock gone unlock c2 show ?thesis by blast
qed

section \<open>A sample\<close>

lemma sample_tree:
  assumes "w_fs w = sample_fs"
  shows "lookup w p = (if p = [''d''] \<or> p = [''d'', ''s''] \<or> p = [''l''] then Some Dir
     else if p = [''d'', ''s'', ''a''] then Some (File sample_file)
     else if p = [''l'', ''x''] then Some Link else None)"
  using assms by (simp add: lookup_def get_sample_fs)

lemma one_element: "distinct xs \<Longrightarrow> set xs = {x} \<Longrightarrow> xs = [x]"
  by (cases xs) (auto simp: subset_singleton_iff)

lemma sample_listed:
  assumes "listed (w_fs w) {p. strict_prefix [''d''] p} ds fl" and "\<And>p. prefix [''d''] p \<Longrightarrow> lookup w p = get sample_fs p"
  shows "map (entry_at calm [''d''] (w_fs w)) (ds @ fl) = sample_entries"
proof -
  have g: "get (w_fs w) p = get sample_fs p" if "strict_prefix [''d''] p" for p
    using assms(2) [of p] that by (simp add: lookup_def strict_prefix_def)
  have "set ds = {[''d'', ''s'']}" "set fl = {[''d'', ''s'', ''a'']}" "distinct ds" "distinct fl"
    using assms(1) by (auto simp: listed_def g get_sample_fs split: if_splits)
  then have "ds = [[''d'', ''s'']]" "fl = [[''d'', ''s'', ''a'']]" by (simp_all add: one_element)
  then show ?thesis by (simp add: g get_sample_fs rel_of_def sample_entries_def)
qed

text \<open>A machine on which the sample folder is as it was, and nothing lies beside it.\<close>

lemma sample_lockable:
  assumes d: "\<And>p. prefix [''d''] p \<Longrightarrow> lookup w p = get sample_fs p"
    and free: "lookup w [''d.fvlt''] = None" "lookup w [''d.fvlt.tmp''] = None" and opts: "lo_kdf opts = None"
  shows "lockable toy_crypto (sample_codec sample_entries) calm [''d''] pw opts w"
proof -
  have below: "lookup w p = get sample_fs p" if "strict_prefix [''d''] p" for p using d that by (simp add: strict_prefix_def)
  have "safe_below [''d''] [''d'', ''s'', ''a'']" by (simp add: safe_below_def safe_eval)
  moreover have "\<exists>m. ser (sample_codec sample_entries) (map (entry_at calm [''d''] (w_fs w)) (ds @ fl)) = Inr m
      \<and> length m \<le> MAX_MANIFEST_LEN - TAG_LEN" if "listed (w_fs w) {p. strict_prefix [''d''] p} ds fl" for ds fl
    using sample_listed [OF that d] by (simp add: sample_codec_def MAX_MANIFEST_LEN_def TAG_LEN_def)
  ultimately show ?thesis
    using d [of "[''d'']"] free opts
    unfolding lockable_def
    by (auto simp: lock_dest_def lock_tmp_def below get_sample_fs kdf_of_def derive_kek_toy sample_file_def)
qed

section \<open>Properties\<close>

text \<open>
  C3: Unlocking undoes locking. On a file system that reports no error, a folder that fulfils the
  conditions above is locked, and the container then opens with its password, or with the recovery
  code that was enrolled, at any later time; afterwards the container is gone and the folder is
  back at its place: the same directories, the same files with their contents, read-only flags and
  modification times (except files dated 1970 or earlier), and nothing else.
\<close>

theorem lock_unlock_roundtrip:
  assumes "no_fail E" and "crypto_ok cr" and "codec_ok bc" and "wf_fs (w_fs w)"
    and "lockable cr bc E src pw opts w" and "restorable jc journal src w" and "opens_with cr opts pw cred"
  shows "\<exists>w1 w2. lock_folder cr bc jc E src pw hk opts journal w = (Inr (lock_dest src), w1)
     \<and> (\<forall>q. prefix src q \<longrightarrow> lookup w1 q = None)
     \<and> unlock_container cr bc jc E (lock_dest src) cred hk now journal w1 = (Inr src, w2)
     \<and> lookup w2 (lock_dest src) = None \<and> (\<forall>q. prefix src q \<longrightarrow> same_node (lookup w q) (lookup w2 q))"
  using assms by (rule lock_then_unlock)

theorem lock_unlock_roundtrip_witness:
  "\<exists>w1 w2. lock_folder toy_crypto (sample_codec sample_entries) (sample_codec sample_record) calm [''d''] [7] [9]
         sample_options None sample_world = (Inr [''d.fvlt''], w1)
     \<and> unlock_container toy_crypto (sample_codec sample_entries) (sample_codec sample_record) calm [''d.fvlt'']
         (Password [7]) [9] 100 None w1 = (Inr [''d''], w2)
     \<and> same_node (Some (File sample_file)) (lookup w2 [''d'', ''s'', ''a''])"
proof -
  have fs: "w_fs sample_world = sample_fs" by (simp add: sample_world_def)
  have lk: "lockable toy_crypto (sample_codec sample_entries) calm [''d''] [7] sample_options sample_world"
    by (rule sample_lockable) (simp_all add: sample_tree [OF fs] get_sample_fs sample_options_def)
  have "safe_below [''d''] [''d'', ''s'', ''a'']" "safe_below [''d''] [''d'', ''s'']" by (simp_all add: safe_below_def safe_eval)
  then have rb: "restorable (sample_codec sample_record) None [''d''] sample_world"
    by (auto simp: restorable_def restoring_def sample_tree [OF fs] journal_apart_def journal_ready_def is_record_def)
  have dest: "lock_dest [''d''] = [''d.fvlt'']" by (simp add: lock_dest_def)
  have "wf_fs (w_fs sample_world)" by (simp add: fs)
  from lock_unlock_roundtrip [OF no_fail_calm toy_crypto_ok sample_codec_ok this lk rb, of "Password [7]" "[9]" 100]
  obtain w1 w2 where run: "lock_folder toy_crypto (sample_codec sample_entries) (sample_codec sample_record) calm [''d''] [7] [9]
         sample_options None sample_world = (Inr [''d.fvlt''], w1)"
      "unlock_container toy_crypto (sample_codec sample_entries) (sample_codec sample_record) calm [''d.fvlt'']
         (Password [7]) [9] 100 None w1 = (Inr [''d''], w2)"
      and "\<And>q. prefix [''d''] q \<Longrightarrow> same_node (lookup sample_world q) (lookup w2 q)"
    unfolding dest by (auto simp: opens_with_def)
  from this(3) [of "[''d'', ''s'', ''a'']"] have "same_node (Some (File sample_file)) (lookup w2 [''d'', ''s'', ''a''])"
    by (simp add: sample_tree [OF fs])
  with run show ?thesis by blast
qed

end
