(* ===== verification/Dialog.thy ===== *)
theory Dialog
  imports Host Errors Roundtrip
begin

text \<open>
  \<open>crates/vault-app/src/ui.rs\<close>: the dialog of the GUI as a state machine. \<open>app\<close> is the \<open>App\<close> of the
  source together with what its window handles stand for (text, visibility and masking of the
  edit controls, running timers, whether the window exists, the job of a worker thread). The
  window procedure handles one message at a time; a worker runs beside it and posts its result.
  The clock is read once per message. \<open>a_clipboard\<close> is the text last handed to \<open>copy_to_clipboard\<close>.
  Painting is the subject of \<open>View\<close>, the child windows that of \<open>Layout\<close>, the clipboard itself that
  of \<open>Clipboard\<close>. The child windows of an opened dialog exist: that creating one of them fails,
  which the source turns into a null handle, is not modelled. A worker's operation on the machine
  is one step.
\<close>

section \<open>Constants\<close>

definition rgb :: "u32 \<Rightarrow> u32 \<Rightarrow> u32 \<Rightarrow> u32" where
  "rgb r g b = r OR push_bit 8 g OR push_bit 16 b"

definition MUTED :: u32 where "MUTED = rgb 0x8B 0x8B 0x96"
definition DANGER :: u32 where "DANGER = rgb 0xE2 0x4B 0x4A"
definition WARN :: u32 where "WARN = rgb 0xD8 0x9A 0x3E"
definition OK_GREEN :: u32 where "OK_GREEN = rgb 0x6F 0xC4 0x7E"

definition ID_PRIMARY :: nat where "ID_PRIMARY = 1"
definition ID_CLOSE :: nat where "ID_CLOSE = 2"
definition ID_LINK :: nat where "ID_LINK = 102"
definition ID_EYE :: nat where "ID_EYE = 103"

definition TIMER_SHAKE :: nat where "TIMER_SHAKE = 1"
definition TIMER_COUNTDOWN :: nat where "TIMER_COUNTDOWN = 2"

section \<open>The dialog\<close>

datatype mode = LockMode path | UnlockMode path | DeleteMode path | SetupMode "uchar list"

datatype phase = Input | Busy | LockedPhase u64

text \<open>An edit control: its text, \<open>ShowWindow\<close>, \<open>EnableWindow\<close> and whether it shows bullets.\<close>

record edit =
  e_text :: "u16 list"
  e_visible :: bool
  e_enabled :: bool
  e_masked :: bool

datatype status =
    Note string
  | Remaining u32
  | Wrong u32
  | Countdown u64 u64 u64
  | Occupied path
  | Fault verror

text \<open>The closures handed to \<open>spawn_worker\<close>.\<close>

datatype job = LockJob path "uchar list" | UnlockJob path credential | DeleteJob path credential

record app =
  a_mode :: mode
  a_phase :: phase
  a_edit :: "edit option"
  a_edit2 :: "edit option"
  a_subtitle :: "string \<times> u64 option"
  a_status :: status
  a_color :: u32
  a_fail_count :: u32
  a_master_mode :: bool
  a_master_available :: bool
  a_progress :: u32
  a_reveal :: bool
  a_shake :: int
  a_pos :: int
  a_origin :: int
  a_result :: "(verror + path) option"
  a_hmac_key :: "byte list"
  a_master_pub :: "byte list option"
  a_succeeded :: bool
  a_clipboard :: "uchar list option"
  a_shake_timer :: bool
  a_countdown_timer :: bool
  a_job :: "job option"
  a_alive :: bool

definition is_unlock_or_delete :: "mode \<Rightarrow> bool" where
  "is_unlock_or_delete m = (case m of UnlockMode _ \<Rightarrow> True | DeleteMode _ \<Rightarrow> True | _ \<Rightarrow> False)"

text \<open>\<open>run_dialog\<close>, up to the creation of the window.\<close>

definition new_app :: "mode \<Rightarrow> byte list \<Rightarrow> byte list option \<Rightarrow> app" where
  "new_app m hmac_key master_pub =
     \<lparr>a_mode = m, a_phase = Input, a_edit = None, a_edit2 = None,
      a_subtitle = ((case m of LockMode _ \<Rightarrow> ''Lock this folder'' | UnlockMode _ \<Rightarrow> ''Locked folder''
                      | DeleteMode _ \<Rightarrow> ''Delete this locked folder'' | SetupMode _ \<Rightarrow> ''Save your recovery code''), None),
      a_status = Note '''', a_color = MUTED, a_fail_count = 0, a_master_mode = False,
      a_master_available = (master_pub \<noteq> None \<or> is_unlock_or_delete m), a_progress = 0, a_reveal = False,
      a_shake = 0, a_pos = 0, a_origin = 0, a_result = None, a_hmac_key = hmac_key, a_master_pub = master_pub,
      a_succeeded = False, a_clipboard = None, a_shake_timer = False, a_countdown_timer = False, a_job = None,
      a_alive = True\<rparr>"

definition mk_edit :: "bool \<Rightarrow> edit" where
  "mk_edit masked = \<lparr>e_text = [], e_visible = True, e_enabled = True, e_masked = masked\<rparr>"

definition set_status :: "status \<Rightarrow> u32 \<Rightarrow> app \<Rightarrow> app" where
  "set_status text color app = app\<lparr>a_status := text, a_color := color\<rparr>"

definition enable_edit :: "bool \<Rightarrow> app \<Rightarrow> app" where
  "enable_edit b app = app\<lparr>a_edit := map_option (\<lambda>e. e\<lparr>e_enabled := b\<rparr>) (a_edit app)\<rparr>"

section \<open>Lockout\<close>

definition update_countdown :: "u64 \<Rightarrow> app \<Rightarrow> app" where
  "update_countdown now app =
     (case a_phase app of
        LockedPhase until \<Rightarrow>
          if until \<le> now
          then set_status (Note ''You can try again now'') MUTED
                 (enable_edit True (app\<lparr>a_phase := Input, a_fail_count := 0, a_countdown_timer := False\<rparr>))
          else let left = until - now
               in set_status (Countdown (left div 3600) (left mod 3600 div 60) (left mod 60)) DANGER app
      | _ \<Rightarrow> app)"

definition enter_lockout :: "u64 \<Rightarrow> u64 \<Rightarrow> app \<Rightarrow> app" where
  "enter_lockout now until app =
     (let app = app\<lparr>a_phase := LockedPhase until, a_fail_count := MAX_ATTEMPTS\<rparr>;
          app = (if \<not> a_master_mode app then enable_edit False app else app)
      in update_countdown now (app\<lparr>a_countdown_timer := True\<rparr>))"

section \<open>Creation\<close>

text \<open>The container's header: statistics, attempts left, and a lockout that is still running.\<close>

definition show_header :: "u64 \<Rightarrow> string \<Rightarrow> header \<Rightarrow> app \<Rightarrow> app" where
  "show_header now lead h app =
     (let app = app\<lparr>a_subtitle := (lead, Some (payload_len h)),
                    a_fail_count := (if hmac_ok h then fail_count (h_lockout h) else MAX_ATTEMPTS - 1),
                    a_master_available := is_enrolled (wrapped_dk_mk h)\<rparr>
      in if now < locked_until (h_lockout h) then enter_lockout now (locked_until (h_lockout h)) app
         else if 0 < a_fail_count app
         then set_status (Remaining (MAX_ATTEMPTS - a_fail_count app)) WARN app
         else app)"

definition on_create :: "host \<Rightarrow> u64 \<Rightarrow> app \<Rightarrow> world \<Rightarrow> app \<times> world" where
  "on_create H now app w =
     (case a_mode app of
        LockMode _ \<Rightarrow> (app\<lparr>a_edit := Some (mk_edit True), a_edit2 := Some (mk_edit True)\<rparr>, w)
      | SetupMode code \<Rightarrow>
          (set_status (Note ''Anyone with this code can unlock your folders. Store it safely -- it is shown only once.'') MUTED
             (app\<lparr>a_edit := Some ((mk_edit False)\<lparr>e_text := encode_utf16 code\<rparr>)\<rparr>), w)
      | UnlockMode c \<Rightarrow>
          (let app = app\<lparr>a_edit := Some (mk_edit True)\<rparr>
           in case inspect (host_crypto H) (host_os H) c (a_hmac_key app) w of
                (Inr h, w) \<Rightarrow> (show_header now ''Locked folder'' h app, w) | (Inl _, w) \<Rightarrow> (app, w))
      | DeleteMode c \<Rightarrow>
          (let app = app\<lparr>a_edit := Some (mk_edit True)\<rparr>
           in case inspect (host_crypto H) (host_os H) c (a_hmac_key app) w of
                (Inr h, w) \<Rightarrow> (show_header now ''Delete locked folder'' h app, w) | (Inl _, w) \<Rightarrow> (app, w)))"

section \<open>Actions\<close>

text \<open>\<open>GetWindowTextW\<close> into a buffer of 512 units, the last of which is the terminator.\<close>

definition get_text :: "edit option \<Rightarrow> uchar list" where
  "get_text e = (case e of None \<Rightarrow> [] | Some e \<Rightarrow> utf16_lossy (take 511 (e_text e)))"

definition on_toggle_reveal :: "app \<Rightarrow> app" where
  "on_toggle_reveal app =
     (if a_master_mode app then app
      else let app = app\<lparr>a_reveal := \<not> a_reveal app\<rparr>
           in app\<lparr>a_edit := map_option (\<lambda>e. e\<lparr>e_masked := \<not> a_reveal app\<rparr>) (a_edit app)\<rparr>)"

definition on_toggle_master :: "app \<Rightarrow> app" where
  "on_toggle_master app =
     (case a_mode app of
        SetupMode code \<Rightarrow>
          set_status (Note ''Copied. Paste it somewhere safe now.'') OK_GREEN (app\<lparr>a_clipboard := Some code\<rparr>)
      | LockMode _ \<Rightarrow> app
      | _ \<Rightarrow>
          if \<not> a_master_available app \<and> \<not> a_master_mode app
          then set_status (Note ''No recovery code was set up for this folder'') WARN app
          else let app = app\<lparr>a_master_mode := \<not> a_master_mode app\<rparr>
               in app\<lparr>a_edit := map_option (\<lambda>e. e\<lparr>e_masked := \<not> a_master_mode app, e_text := []\<rparr>) (a_edit app)\<rparr>)"

definition shake :: "app \<Rightarrow> app" where
  "shake app = app\<lparr>a_origin := a_pos app, a_shake := 8, a_shake_timer := True\<rparr>"

definition show_edits :: "bool \<Rightarrow> app \<Rightarrow> app" where
  "show_edits b app =
     app\<lparr>a_edit := map_option (\<lambda>e. e\<lparr>e_visible := b\<rparr>) (a_edit app),
         a_edit2 := map_option (\<lambda>e. e\<lparr>e_visible := b\<rparr>) (a_edit2 app)\<rparr>"

definition start_busy :: "app \<Rightarrow> app" where
  "start_busy app = show_edits False (app\<lparr>a_phase := Busy, a_progress := 0\<rparr>)"

definition spawn_worker :: "job \<Rightarrow> app \<Rightarrow> app" where
  "spawn_worker j app = app\<lparr>a_job := Some j\<rparr>"

definition destroy :: "app \<Rightarrow> app" where
  "destroy app = app\<lparr>a_alive := False\<rparr>"

definition ask_secret :: "app \<Rightarrow> (uchar list \<Rightarrow> job) \<Rightarrow> app" where
  "ask_secret app mk =
     (let secret = get_text (a_edit app)
      in if secret = []
         then set_status (Note (if a_master_mode app then ''Enter your recovery code'' else ''Enter the password'')) WARN app
         else spawn_worker (mk secret) (start_busy app))"

definition on_primary :: "app \<Rightarrow> app" where
  "on_primary app =
     (if a_phase app \<noteq> Input then app
      else case a_mode app of
        SetupMode _ \<Rightarrow> destroy (app\<lparr>a_succeeded := True\<rparr>)
      | LockMode src \<Rightarrow>
          (let pw = get_text (a_edit app); confirm = get_text (a_edit2 app)
           in if pw = [] then set_status (Note ''Enter a password'') WARN app
              else if str_len pw < 6 then set_status (Note ''Use at least 6 characters'') WARN app
              else if pw \<noteq> confirm then shake (set_status (Note ''Passwords do not match'') DANGER app)
              else spawn_worker (LockJob src pw) (start_busy app))
      | UnlockMode c \<Rightarrow> ask_secret app (\<lambda>secret. UnlockJob c (credential_of (a_master_mode app) secret))
      | DeleteMode c \<Rightarrow> ask_secret app (\<lambda>secret. DeleteJob c (credential_of (a_master_mode app) secret)))"

text \<open>What the worker thread does with its job.\<close>

definition gui_options :: "byte list option \<Rightarrow> lock_options" where
  "gui_options master_pub = \<lparr>lo_kdf = None, lo_master_pub = master_pub, secure_delete = False,
     recycle_original = True, readonly_container = True\<rparr>"

definition open_journal :: "host \<Rightarrow> world \<Rightarrow> path option \<times> world" where
  "open_journal H w =
     (case journal_open (host_os H) (host_dir H @ [''journal'']) w of (Inl _, w) \<Rightarrow> (None, w) | (Inr d, w) \<Rightarrow> (Some d, w))"

definition run_job ::
  "host \<Rightarrow> byte list \<Rightarrow> byte list option \<Rightarrow> u64 \<Rightarrow> job \<Rightarrow> world \<Rightarrow> (verror + path) \<times> world" where
  "run_job H hmac_key master_pub now j w =
     (case j of
        LockJob src pw \<Rightarrow>
          (case open_journal H w of (journal, w) \<Rightarrow> host_lock H src pw hmac_key (gui_options master_pub) journal w)
      | UnlockJob c cred \<Rightarrow>
          (case open_journal H w of (journal, w) \<Rightarrow> host_unlock H c cred hmac_key now journal w)
      | DeleteJob c cred \<Rightarrow>
          (case host_delete H c cred hmac_key now w of (Inl e, w) \<Rightarrow> (Inl e, w) | (Inr _, w) \<Rightarrow> (Inr c, w)))"

definition clear_edits :: "app \<Rightarrow> app" where
  "clear_edits app =
     app\<lparr>a_edit := map_option (\<lambda>e. e\<lparr>e_text := []\<rparr>) (a_edit app),
         a_edit2 := map_option (\<lambda>e. e\<lparr>e_text := []\<rparr>) (a_edit2 app)\<rparr>"

definition show_error :: "u64 \<Rightarrow> verror \<Rightarrow> app \<Rightarrow> app" where
  "show_error now e app =
     (case e of
        WrongPassword left \<Rightarrow>
          shake (set_status (Wrong left) DANGER (app\<lparr>a_fail_count := MAX_ATTEMPTS - left\<rparr>))
      | LockedOut until \<Rightarrow> shake (enter_lockout now until app)
      | Exists p \<Rightarrow> set_status (Occupied p) WARN app
      | Tampered \<Rightarrow> set_status (Note ''This file is corrupt or has been tampered with'') DANGER app
      | e \<Rightarrow> set_status (Fault e) DANGER app)"

definition on_done :: "u64 \<Rightarrow> app \<Rightarrow> app" where
  "on_done now app =
     (let result = a_result app; app = app\<lparr>a_result := None\<rparr>
      in case result of
           None \<Rightarrow> app
         | Some (Inr path) \<Rightarrow> destroy (app\<lparr>a_succeeded := True\<rparr>)
         | Some (Inl e) \<Rightarrow> show_error now e (clear_edits (show_edits True (app\<lparr>a_phase := Input\<rparr>))))"

definition on_timer :: "u64 \<Rightarrow> nat \<Rightarrow> app \<Rightarrow> app" where
  "on_timer now i app =
     (if i = TIMER_SHAKE
      then if a_shake app \<le> 0 then app\<lparr>a_shake_timer := False, a_pos := a_origin app\<rparr>
           else app\<lparr>a_pos := a_origin app + (if a_shake app mod 2 = 0 then 6 else - 6), a_shake := a_shake app - 1\<rparr>
      else if i = TIMER_COUNTDOWN then update_countdown now app
      else app)"

section \<open>The window procedure\<close>

text \<open>
  The messages that change the dialog; every other one is handed to \<open>DefWindowProcW\<close>, which
  destroys the window for some (\<open>WM_CLOSE\<close>): \<open>dp\<close> says for which.
\<close>

datatype msg = Command nat | Timer nat | AppProgress u32 | AppDone | OtherMsg nat

definition wndproc :: "(nat \<Rightarrow> bool) \<Rightarrow> u64 \<Rightarrow> msg \<Rightarrow> app \<Rightarrow> app" where
  "wndproc dp now m app =
     (case m of
        Command i \<Rightarrow>
          if i = ID_PRIMARY then on_primary app
          else if i = ID_CLOSE then (if a_phase app \<noteq> Busy then destroy app else app)
          else if i = ID_LINK then on_toggle_master app
          else if i = ID_EYE then on_toggle_reveal app
          else app
      | Timer i \<Rightarrow> on_timer now i app
      | AppProgress pct \<Rightarrow> app\<lparr>a_progress := pct\<rparr>
      | AppDone \<Rightarrow> on_done now app
      | OtherMsg n \<Rightarrow> if dp n then destroy app else app)"

section \<open>The dialog and its worker\<close>

text \<open>
  The dialog, the messages posted to it by the worker, and the machine. A worker runs its job on
  the machine as one step and posts the percentages and its end; what an unfinished worker leaves
  behind is the subject of \<open>Vault\<close> and \<open>Crash\<close>.
\<close>

record dialog =
  d_app :: app
  d_queue :: "msg list"
  d_world :: world

datatype dialog_event = UserMsg u64 msg | Typed bool "u16 list" | Worked u64 | Delivered u64

definition from_outside :: "msg \<Rightarrow> bool" where
  "from_outside m = (case m of Command _ \<Rightarrow> True | Timer _ \<Rightarrow> True | OtherMsg _ \<Rightarrow> True | _ \<Rightarrow> False)"

definition typeable :: "edit option \<Rightarrow> bool" where
  "typeable e = (case e of None \<Rightarrow> False | Some e \<Rightarrow> e_visible e \<and> e_enabled e)"

definition set_text :: "bool \<Rightarrow> u16 list \<Rightarrow> app \<Rightarrow> app" where
  "set_text confirm t app =
     (if confirm then app\<lparr>a_edit2 := map_option (\<lambda>e. e\<lparr>e_text := t\<rparr>) (a_edit2 app)\<rparr>
      else app\<lparr>a_edit := map_option (\<lambda>e. e\<lparr>e_text := t\<rparr>) (a_edit app)\<rparr>)"

definition finish_job :: "host \<Rightarrow> u64 \<Rightarrow> job \<Rightarrow> dialog \<Rightarrow> dialog" where
  "finish_job H now j s =
     (case run_job H (a_hmac_key (d_app s)) (a_master_pub (d_app s)) now j (d_world s) of (r, w) \<Rightarrow>
        \<lparr>d_app = (d_app s)\<lparr>a_job := None, a_result := Some r\<rparr>,
         d_queue = d_queue s @ map (\<lambda>p. AppProgress (word_of_nat (unat p))) (percents (d_world s) w) @ [AppDone],
         d_world = w\<rparr>)"

inductive dstep :: "host \<Rightarrow> (nat \<Rightarrow> bool) \<Rightarrow> dialog \<Rightarrow> dialog_event \<Rightarrow> dialog \<Rightarrow> bool" for H dp where
  message: "a_alive (d_app s) \<Longrightarrow> from_outside m \<Longrightarrow>
    dstep H dp s (UserMsg now m) (s\<lparr>d_app := wndproc dp now m (d_app s)\<rparr>)"
| typing: "a_alive (d_app s) \<Longrightarrow> typeable (if confirm then a_edit2 (d_app s) else a_edit (d_app s)) \<Longrightarrow>
    (\<And>code. a_mode (d_app s) \<noteq> SetupMode code) \<Longrightarrow>
    dstep H dp s (Typed confirm t) (s\<lparr>d_app := set_text confirm t (d_app s)\<rparr>)"
| working: "a_alive (d_app s) \<Longrightarrow> a_job (d_app s) = Some j \<Longrightarrow> dstep H dp s (Worked now) (finish_job H now j s)"
| delivery: "a_alive (d_app s) \<Longrightarrow> d_queue s = m # q \<Longrightarrow>
    dstep H dp s (Delivered now) (s\<lparr>d_app := wndproc dp now m (d_app s), d_queue := q\<rparr>)"

inductive_cases dstepE: "dstep H dp s ev s'"

definition opened :: "host \<Rightarrow> u64 \<Rightarrow> mode \<Rightarrow> byte list \<Rightarrow> byte list option \<Rightarrow> world \<Rightarrow> dialog" where
  "opened H now m hmac_key master_pub w =
     (case on_create H now (new_app m hmac_key master_pub) w of (app, w) \<Rightarrow>
        \<lparr>d_app = app, d_queue = [], d_world = w\<rparr>)"

inductive reach :: "host \<Rightarrow> (nat \<Rightarrow> bool) \<Rightarrow> dialog \<Rightarrow> dialog \<Rightarrow> bool" for H dp s0 where
  start: "reach H dp s0 s0"
| step: "reach H dp s0 s \<Longrightarrow> dstep H dp s ev s' \<Longrightarrow> reach H dp s0 s'"

section \<open>Invariant\<close>

text \<open>
  \<open>input_ok\<close>: the controls fit the phase. The fields are hidden exactly while busy; the password
  field is disabled only during a lockout, whose countdown runs; it shows its text only in
  recovery-code mode or when the reveal toggle is on, and the confirmation never does.
\<close>

definition input_ok :: "app \<Rightarrow> bool" where
  "input_ok app \<longleftrightarrow>
     (\<forall>e. a_edit app = Some e \<longrightarrow>
        (e_visible e \<longleftrightarrow> a_phase app \<noteq> Busy)
        \<and> (\<not> e_enabled e \<longrightarrow> (\<exists>t. a_phase app = LockedPhase t))
        \<and> (\<not> e_masked e \<longrightarrow> a_master_mode app \<or> a_reveal app \<or> (\<exists>code. a_mode app = SetupMode code)))
     \<and> (\<forall>e. a_edit2 app = Some e \<longrightarrow> (e_visible e \<longleftrightarrow> a_phase app \<noteq> Busy) \<and> e_enabled e \<and> e_masked e)
     \<and> ((\<exists>t. a_phase app = LockedPhase t) \<longrightarrow> a_countdown_timer app)
     \<and> a_fail_count app \<le> MAX_ATTEMPTS
     \<and> (a_master_mode app \<longrightarrow> is_unlock_or_delete (a_mode app))"

text \<open>
  \<open>worker_ok\<close>: while the window exists it is busy exactly as long as a worker runs or its end has
  not been handled; there is never more than one worker, and its result waits for \<open>AppDone\<close>.
\<close>

definition dones :: "msg list \<Rightarrow> nat" where
  "dones q = length (filter (\<lambda>m. m = AppDone) q)"

definition worker_ok :: "dialog \<Rightarrow> bool" where
  "worker_ok s \<longleftrightarrow>
     list_all (\<lambda>m. \<not> from_outside m) (d_queue s)
     \<and> (case a_job (d_app s) of Some _ \<Rightarrow> 1 | None \<Rightarrow> 0) + dones (d_queue s) = (if a_phase (d_app s) = Busy then 1 else 0)
     \<and> (a_result (d_app s) \<noteq> None \<longleftrightarrow> 0 < dones (d_queue s))
     \<and> (\<forall>e. a_result (d_app s) = Some (Inl e) \<longrightarrow> check_error e)"

definition dialog_inv :: "dialog \<Rightarrow> bool" where
  "dialog_inv s \<longleftrightarrow> (a_alive (d_app s) \<longrightarrow> input_ok (d_app s) \<and> worker_ok s \<and> \<not> a_succeeded (d_app s))"

lemmas app_ops = set_status_def enable_edit_def shake_def show_edits_def start_busy_def spawn_worker_def
  destroy_def clear_edits_def

lemma input_ok_plain [simp]:
  "input_ok (app\<lparr>a_status := x\<rparr>) = input_ok app"
  "input_ok (app\<lparr>a_color := c\<rparr>) = input_ok app"
  "input_ok (app\<lparr>a_progress := n\<rparr>) = input_ok app"
  "input_ok (app\<lparr>a_clipboard := t\<rparr>) = input_ok app"
  "input_ok (app\<lparr>a_alive := b\<rparr>) = input_ok app"
  "input_ok (app\<lparr>a_succeeded := b\<rparr>) = input_ok app"
  "input_ok (app\<lparr>a_job := j\<rparr>) = input_ok app"
  "input_ok (app\<lparr>a_result := r\<rparr>) = input_ok app"
  "input_ok (app\<lparr>a_pos := i\<rparr>) = input_ok app"
  "input_ok (app\<lparr>a_origin := i\<rparr>) = input_ok app"
  "input_ok (app\<lparr>a_shake := i\<rparr>) = input_ok app"
  "input_ok (app\<lparr>a_shake_timer := b\<rparr>) = input_ok app"
  by (simp_all add: input_ok_def)

lemma input_ok_update_countdown: "input_ok app \<Longrightarrow> input_ok (update_countdown now app)"
  by (auto simp: update_countdown_def app_ops Let_def split: phase.split) (auto simp: input_ok_def)

lemma input_ok_enter_lockout:
  assumes "input_ok app" and "a_phase app \<noteq> Busy"
  shows "input_ok (enter_lockout now t app)"
  unfolding enter_lockout_def Let_def
  by (rule input_ok_update_countdown) (use assms in \<open>auto simp: input_ok_def enable_edit_def\<close>)

lemma input_ok_toggle_reveal: "input_ok app \<Longrightarrow> input_ok (on_toggle_reveal app)"
  by (auto simp: on_toggle_reveal_def Let_def) (auto simp: input_ok_def)

lemma input_ok_toggle_master: "input_ok app \<Longrightarrow> input_ok (on_toggle_master app)"
  by (auto simp: on_toggle_master_def app_ops Let_def split: mode.split)
     (auto simp: input_ok_def is_unlock_or_delete_def)

lemma input_ok_busy: "input_ok app \<Longrightarrow> a_phase app = Input \<Longrightarrow> input_ok (start_busy app)"
  by (auto simp: app_ops) (auto simp: input_ok_def)

lemma input_ok_primary: "input_ok app \<Longrightarrow> input_ok (on_primary app)"
  using input_ok_busy [of app]
  by (auto simp: on_primary_def ask_secret_def Let_def set_status_def shake_def spawn_worker_def destroy_def
      split: mode.split)

lemma input_ok_error:
  assumes "input_ok app" and "a_phase app = Input" and "check_error e"
  shows "input_ok (show_error now e app)"
proof (cases e)
  case (WrongPassword left)
  then have "MAX_ATTEMPTS - left \<le> MAX_ATTEMPTS"
    using assms(3) by (simp add: check_error_def word_sub_le)
  with assms(1) show ?thesis by (simp add: show_error_def WrongPassword shake_def set_status_def) (auto simp: input_ok_def)
next
  case (LockedOut t)
  with input_ok_enter_lockout [OF assms(1)] assms(2) show ?thesis by (simp add: show_error_def shake_def)
qed (use assms(1) in \<open>simp_all add: show_error_def set_status_def\<close>)

lemma input_ok_done:
  assumes "input_ok app" and "a_phase app = Busy" and "\<And>e. a_result app = Some (Inl e) \<Longrightarrow> check_error e"
  shows "input_ok (on_done now app)"
proof -
  have "input_ok (clear_edits (show_edits True (app\<lparr>a_result := None, a_phase := Input\<rparr>)))"
    using assms(1,2) by (simp add: clear_edits_def show_edits_def) (auto simp: input_ok_def)
  moreover have "a_phase (clear_edits (show_edits True (app\<lparr>a_result := None, a_phase := Input\<rparr>))) = Input"
    by (simp add: clear_edits_def show_edits_def)
  ultimately show ?thesis
    using assms(1,3) input_ok_error
    by (auto simp: on_done_def Let_def destroy_def split: option.split sum.split)
qed

lemma input_ok_timer: "input_ok app \<Longrightarrow> input_ok (on_timer now i app)"
  using input_ok_update_countdown by (auto simp: on_timer_def)

lemma input_ok_message: "input_ok app \<Longrightarrow> from_outside m \<Longrightarrow> input_ok (wndproc dp now m app)"
  using input_ok_primary input_ok_toggle_master input_ok_toggle_reveal input_ok_timer
  by (auto simp: wndproc_def from_outside_def destroy_def split: msg.splits)

text \<open>What a message from outside does to the worker: nothing, unless it starts one.\<close>

lemma message_worker:
  assumes "from_outside m"
  shows "a_result (wndproc dp now m app) = a_result app
    \<and> (a_job (wndproc dp now m app) = a_job app \<and> (a_phase (wndproc dp now m app) = Busy \<longleftrightarrow> a_phase app = Busy)
       \<or> a_phase app = Input \<and> a_phase (wndproc dp now m app) = Busy \<and> a_job (wndproc dp now m app) \<noteq> None)"
proof -
  have "a_result (update_countdown now app) = a_result app \<and> a_job (update_countdown now app) = a_job app
    \<and> (a_phase (update_countdown now app) = Busy \<longleftrightarrow> a_phase app = Busy)"
    by (auto simp: update_countdown_def app_ops Let_def split: phase.split)
  moreover have "a_result (on_toggle_master app) = a_result app \<and> a_job (on_toggle_master app) = a_job app
    \<and> a_phase (on_toggle_master app) = a_phase app"
    by (simp add: on_toggle_master_def app_ops Let_def split: mode.split)
  moreover have "a_result (on_toggle_reveal app) = a_result app \<and> a_job (on_toggle_reveal app) = a_job app
    \<and> a_phase (on_toggle_reveal app) = a_phase app"
    by (simp add: on_toggle_reveal_def Let_def)
  moreover have "a_result (on_primary app) = a_result app
    \<and> (a_job (on_primary app) = a_job app \<and> a_phase (on_primary app) = a_phase app
       \<or> a_phase app = Input \<and> a_phase (on_primary app) = Busy \<and> a_job (on_primary app) \<noteq> None)"
    by (auto simp: on_primary_def ask_secret_def app_ops Let_def split: mode.split)
  ultimately show ?thesis
    using assms by (auto simp: wndproc_def from_outside_def on_timer_def destroy_def split: msg.splits)
qed

text \<open>Handling the end of a worker that failed makes the dialog ready again.\<close>

lemma show_error_worker:
  "a_phase app = Input \<Longrightarrow> a_phase (show_error now e app) \<noteq> Busy"
  "a_job (show_error now e app) = a_job app" "a_result (show_error now e app) = a_result app"
  "a_succeeded (show_error now e app) = a_succeeded app"
  by (auto simp: show_error_def enter_lockout_def update_countdown_def app_ops Let_def split: verror.split)

lemma done_worker:
  assumes "a_result app = Some (Inl e)"
  shows "a_phase (on_done now app) \<noteq> Busy" and "a_job (on_done now app) = a_job app" and "a_result (on_done now app) = None"
  using assms by (simp_all add: on_done_def show_error_worker app_ops)

lemma dones_simps [simp]: "dones [] = 0" "dones (m # q) = (if m = AppDone then 1 else 0) + dones q" "dones (p @ q) = dones p + dones q"
  by (simp_all add: dones_def)

lemma dones_percents [simp]: "dones (map (\<lambda>p. AppProgress (f p)) ps) = 0"
  by (induction ps) simp_all

lemma run_job_error:
  assumes "run_job H key pub now j w = (Inl e, w')"
  shows "check_error e"
proof (cases j)
  case (LockJob src pw)
  with assms show ?thesis
    by (auto simp: run_job_def host_lock_def split: prod.splits
        intro: raisesD [OF checks.lock_folder_raises])
next
  case (UnlockJob c cred)
  with assms show ?thesis
    by (auto simp: run_job_def host_unlock_def split: prod.splits intro: raisesD [OF unlock_raises])
next
  case (DeleteJob c cred)
  with assms show ?thesis
    by (auto simp: run_job_def host_delete_def split: prod.splits sum.splits intro: raisesD [OF delete_raises])
qed

text \<open>A window that exists after a message has not reported success.\<close>

lemma success_same:
  "a_succeeded (update_countdown now app) = a_succeeded app" "a_alive (update_countdown now app) = a_alive app"
  "a_succeeded (on_toggle_master app) = a_succeeded app" "a_alive (on_toggle_master app) = a_alive app"
  "a_succeeded (on_toggle_reveal app) = a_succeeded app" "a_alive (on_toggle_reveal app) = a_alive app"
  "a_succeeded (on_timer now i app) = a_succeeded app" "a_alive (on_timer now i app) = a_alive app"
proof -
  show u: "a_succeeded (update_countdown now app) = a_succeeded app" "a_alive (update_countdown now app) = a_alive app"
    by (simp_all add: update_countdown_def app_ops Let_def split: phase.split)
  then show "a_succeeded (on_timer now i app) = a_succeeded app" "a_alive (on_timer now i app) = a_alive app"
    by (simp_all add: on_timer_def)
  show "a_succeeded (on_toggle_master app) = a_succeeded app" "a_alive (on_toggle_master app) = a_alive app"
    "a_succeeded (on_toggle_reveal app) = a_succeeded app" "a_alive (on_toggle_reveal app) = a_alive app"
    by (simp_all add: on_toggle_master_def on_toggle_reveal_def app_ops Let_def split: mode.split)
qed

lemma primary_success: "a_alive (on_primary app) \<Longrightarrow> a_succeeded (on_primary app) = a_succeeded app"
  by (auto simp: on_primary_def ask_secret_def app_ops Let_def split: mode.splits if_splits)

lemma done_success: "a_alive (on_done now app) \<Longrightarrow> a_succeeded (on_done now app) = a_succeeded app"
  by (auto simp: on_done_def show_error_worker app_ops Let_def split: option.splits sum.splits)

lemma message_success:
  assumes "a_alive (wndproc dp now m app)"
  shows "a_succeeded (wndproc dp now m app) = a_succeeded app"
proof (cases m)
  case (Command i)
  with assms show ?thesis using primary_success by (auto simp: wndproc_def success_same destroy_def)
qed (use assms done_success in \<open>auto simp: wndproc_def success_same destroy_def split: if_splits\<close>)

lemma set_text_same:
  "a_phase (set_text c t app) = a_phase app" "a_job (set_text c t app) = a_job app"
  "a_result (set_text c t app) = a_result app" "a_succeeded (set_text c t app) = a_succeeded app"
  "a_alive (set_text c t app) = a_alive app" "input_ok app \<Longrightarrow> input_ok (set_text c t app)"
  by (simp_all add: set_text_def) (auto simp: input_ok_def)

lemma dialog_inv_step:
  assumes inv: "dialog_inv s" and st: "dstep H dp s ev s'"
  shows "dialog_inv s'"
  using st
proof (cases rule: dstep.cases)
  case (message m now)
  with inv have ok: "input_ok (d_app s)" "worker_ok s" "\<not> a_succeeded (d_app s)" by (simp_all add: dialog_inv_def)
  then show ?thesis
    using message input_ok_message message_worker [of m dp now "d_app s"] message_success [of dp now m "d_app s"]
    by (auto simp: dialog_inv_def worker_ok_def split: option.splits)
next
  case (typing confirm t)
  with inv show ?thesis by (simp add: dialog_inv_def worker_ok_def set_text_same)
next
  case (working j now)
  obtain r w where r: "run_job H (a_hmac_key (d_app s)) (a_master_pub (d_app s)) now j (d_world s) = (r, w)" by fastforce
  from inv working have ok: "input_ok (d_app s)" "worker_ok s" "\<not> a_succeeded (d_app s)" by (simp_all add: dialog_inv_def)
  moreover have "r = Inl e \<Longrightarrow> check_error e" for e using r run_job_error by blast
  ultimately show ?thesis
    using working r by (auto simp: dialog_inv_def worker_ok_def finish_job_def list_all_iff from_outside_def split: if_splits)
next
  case (delivery m q now)
  with inv have ok: "input_ok (d_app s)" "worker_ok s" "\<not> a_succeeded (d_app s)" by (simp_all add: dialog_inv_def)
  with delivery have "\<not> from_outside m" by (simp add: worker_ok_def)
  then consider p where "m = AppProgress p" | "m = AppDone" by (auto simp: from_outside_def split: msg.splits)
  then show ?thesis
  proof cases
    case 1
    with delivery ok show ?thesis by (simp add: dialog_inv_def worker_ok_def wndproc_def)
  next
    case 2
    with ok delivery have b: "a_phase (d_app s) = Busy" "a_job (d_app s) = None" "dones q = 0"
      and "a_result (d_app s) \<noteq> None" and e: "\<And>e. a_result (d_app s) = Some (Inl e) \<Longrightarrow> check_error e"
      by (auto simp: worker_ok_def split: if_splits option.splits)
    then obtain r where r: "a_result (d_app s) = Some r" by blast
    show ?thesis
    proof (cases r)
      case (Inr p)
      with r 2 delivery show ?thesis by (simp add: dialog_inv_def wndproc_def on_done_def destroy_def)
    next
      case (Inl x)
      with r 2 delivery ok b done_worker [of "d_app s" x now] input_ok_done [OF ok(1) b(1) e, of now]
        message_success [of dp now m "d_app s"]
      show ?thesis by (auto simp: dialog_inv_def wndproc_def worker_ok_def)
    qed
  qed
qed

section \<open>Opening\<close>

text \<open>
  The assumption on the container a dialog is opened on: an authenticated header carries at most
  \<open>MAX_ATTEMPTS\<close> failures, as every header does that the program wrote.
\<close>

definition container_of :: "mode \<Rightarrow> path option" where
  "container_of m = (case m of UnlockMode c \<Rightarrow> Some c | DeleteMode c \<Rightarrow> Some c | _ \<Rightarrow> None)"

definition counts_ok :: "host \<Rightarrow> byte list \<Rightarrow> mode \<Rightarrow> world \<Rightarrow> bool" where
  "counts_ok H key m w \<longleftrightarrow> (\<forall>c h. container_of m = Some c \<longrightarrow>
     fst (inspect (host_crypto H) (host_os H) c key w) = Inr h \<longrightarrow> hmac_ok h \<longrightarrow>
     fail_count (h_lockout h) \<le> MAX_ATTEMPTS)"

lemma max_less: "MAX_ATTEMPTS - 1 \<le> MAX_ATTEMPTS"
  by (simp add: MAX_ATTEMPTS_def)

lemma show_header_ok:
  assumes "input_ok app" and "a_phase app = Input" and "hmac_ok h \<Longrightarrow> fail_count (h_lockout h) \<le> MAX_ATTEMPTS"
  shows "input_ok (show_header now lead h app)"
proof -
  let ?app = "app\<lparr>a_subtitle := (lead, Some (payload_len h)),
      a_fail_count := (if hmac_ok h then fail_count (h_lockout h) else MAX_ATTEMPTS - 1),
      a_master_available := is_enrolled (wrapped_dk_mk h)\<rparr>"
  have "input_ok ?app" "a_phase ?app = Input" using assms max_less by (auto simp: input_ok_def)
  then show ?thesis
    using input_ok_enter_lockout [of ?app] by (simp add: show_header_def Let_def set_status_def)
qed

lemma show_header_worker:
  assumes "a_phase app = Input"
  shows "a_phase (show_header now lead h app) \<noteq> Busy" and "a_job (show_header now lead h app) = a_job app"
    and "a_result (show_header now lead h app) = a_result app" and "a_alive (show_header now lead h app) = a_alive app"
    and "a_succeeded (show_header now lead h app) = a_succeeded app" and "a_mode (show_header now lead h app) = a_mode app"
    and "a_hmac_key (show_header now lead h app) = a_hmac_key app" and "a_master_pub (show_header now lead h app) = a_master_pub app"
  using assms by (auto simp: show_header_def enter_lockout_def update_countdown_def app_ops Let_def)

lemma opened_container:
  assumes "container_of m = Some c"
  shows "\<exists>lead. d_app (opened H now m key pub w) =
     (case fst (inspect (host_crypto H) (host_os H) c key w) of
        Inr h \<Rightarrow> show_header now lead h ((new_app m key pub)\<lparr>a_edit := Some (mk_edit True)\<rparr>)
      | Inl _ \<Rightarrow> (new_app m key pub)\<lparr>a_edit := Some (mk_edit True)\<rparr>)"
  using assms
  by (auto simp: opened_def on_create_def container_of_def new_app_def Let_def split: mode.splits prod.splits sum.splits)

lemma new_app_ok: "input_ok ((new_app m key pub)\<lparr>a_edit := Some (mk_edit True)\<rparr>)"
  by (simp add: input_ok_def new_app_def mk_edit_def)

lemma opened_params:
  "a_mode (d_app (opened H now m key pub w)) = m" "a_hmac_key (d_app (opened H now m key pub w)) = key"
  "a_master_pub (d_app (opened H now m key pub w)) = pub" "a_job (d_app (opened H now m key pub w)) = None"
  "a_result (d_app (opened H now m key pub w)) = None" "\<not> a_succeeded (d_app (opened H now m key pub w))"
  "a_phase (d_app (opened H now m key pub w)) \<noteq> Busy" "d_queue (opened H now m key pub w) = []"
  by (auto simp: opened_def on_create_def new_app_def set_status_def show_header_worker Let_def
      split: mode.split prod.split sum.split)

lemma opened_inv:
  assumes "counts_ok H key m w"
  shows "dialog_inv (opened H now m key pub w)"
proof -
  have "input_ok (d_app (opened H now m key pub w))"
  proof (cases "container_of m")
    case None
    then show ?thesis
      by (auto simp: opened_def on_create_def container_of_def new_app_def mk_edit_def set_status_def input_ok_def
          split: mode.splits)
  next
    case (Some c)
    then obtain lead where o: "d_app (opened H now m key pub w) =
     (case fst (inspect (host_crypto H) (host_os H) c key w) of
        Inr h \<Rightarrow> show_header now lead h ((new_app m key pub)\<lparr>a_edit := Some (mk_edit True)\<rparr>)
      | Inl _ \<Rightarrow> (new_app m key pub)\<lparr>a_edit := Some (mk_edit True)\<rparr>)" using opened_container by blast
    have p: "a_phase ((new_app m key pub)\<lparr>a_edit := Some (mk_edit True)\<rparr>) = Input" by (simp add: new_app_def)
    show ?thesis
      using assms Some show_header_ok [OF new_app_ok p] new_app_ok
      by (auto simp: o counts_ok_def split: sum.split)
  qed
  then show ?thesis by (simp add: dialog_inv_def worker_ok_def opened_params)
qed

lemma reach_inv: "reach H dp s0 s \<Longrightarrow> dialog_inv s0 \<Longrightarrow> dialog_inv s"
  by (induction rule: reach.induct) (auto intro: dialog_inv_step)

section \<open>What a success means\<close>

definition job_ok :: "mode \<Rightarrow> job \<Rightarrow> bool" where
  "job_ok m j \<longleftrightarrow>
     (case m of
        LockMode src \<Rightarrow> (\<exists>pw. j = LockJob src pw \<and> 6 \<le> str_len pw)
      | UnlockMode c \<Rightarrow> (\<exists>cred. j = UnlockJob c cred)
      | DeleteMode c \<Rightarrow> (\<exists>cred. j = DeleteJob c cred)
      | SetupMode _ \<Rightarrow> False)"

definition truthful :: "host \<Rightarrow> dialog \<Rightarrow> bool" where
  "truthful H s \<longleftrightarrow> (let app = d_app s in
     (\<forall>j. a_job app = Some j \<longrightarrow> job_ok (a_mode app) j)
     \<and> (a_succeeded app \<or> (\<exists>p. a_result app = Some (Inr p)) \<longrightarrow>
          (\<exists>code. a_mode app = SetupMode code)
          \<or> (\<exists>j w now p. job_ok (a_mode app) j
               \<and> run_job H (a_hmac_key app) (a_master_pub app) now j w = (Inr p, d_world s))))"

text \<open>What the dialog was opened with does not change.\<close>

definition same_params :: "app \<Rightarrow> app \<Rightarrow> bool" where
  "same_params app app' \<longleftrightarrow> a_mode app' = a_mode app \<and> a_hmac_key app' = a_hmac_key app \<and> a_master_pub app' = a_master_pub app"

lemma same_params_ops [simp]:
  "same_params app (update_countdown now app)" "same_params app (on_toggle_master app)"
  "same_params app (on_toggle_reveal app)" "same_params app (on_primary app)" "same_params app (set_text c t app)"
  by (auto simp: same_params_def update_countdown_def on_toggle_master_def on_toggle_reveal_def on_primary_def
      ask_secret_def set_text_def app_ops Let_def split: phase.split mode.split)

lemma same_params_error [simp]: "same_params app (show_error now e app)"
  by (auto simp: same_params_def show_error_def enter_lockout_def update_countdown_def app_ops Let_def split: verror.split)

lemma same_params_done: "same_params app (on_done now app)"
proof -
  have "same_params app (show_error now e (clear_edits (show_edits True (app\<lparr>a_result := None, a_phase := Input\<rparr>))))" for e
    using same_params_error [of "clear_edits (show_edits True (app\<lparr>a_result := None, a_phase := Input\<rparr>))" now e]
    by (simp add: same_params_def app_ops)
  moreover have "same_params app (app\<lparr>a_result := None\<rparr>)" "same_params app (destroy (app\<lparr>a_result := None, a_succeeded := True\<rparr>))"
    by (simp_all add: same_params_def destroy_def)
  ultimately show ?thesis by (simp add: on_done_def Let_def split: option.split sum.split)
qed

lemma same_params_message: "same_params app (wndproc dp now m app)"
proof -
  have r: "same_params app app" "same_params app (destroy app)" "same_params app (app\<lparr>a_progress := n\<rparr>)"
    "same_params app (app\<lparr>a_shake_timer := b, a_pos := i\<rparr>)" "same_params app (app\<lparr>a_pos := i, a_shake := k\<rparr>)" for n b i k
    by (simp_all add: same_params_def destroy_def)
  then show ?thesis
    using same_params_done by (simp add: wndproc_def on_timer_def split: msg.split)
qed

text \<open>A worker is started with a job that fits the dialog; confirming the setup needs no worker.\<close>

lemma primary_job:
  "a_job (on_primary app) \<noteq> a_job app \<Longrightarrow> a_job (on_primary app) = Some j \<Longrightarrow> job_ok (a_mode app) j"
  "a_succeeded (on_primary app) \<Longrightarrow> a_succeeded app \<or> (\<exists>code. a_mode app = SetupMode code)"
  by (auto simp: on_primary_def ask_secret_def job_ok_def app_ops Let_def split: mode.splits if_splits)

lemma message_job:
  assumes "from_outside m"
  shows "a_job (wndproc dp now m app) \<noteq> a_job app \<Longrightarrow> a_job (wndproc dp now m app) = Some j \<Longrightarrow> job_ok (a_mode app) j"
    and "a_succeeded (wndproc dp now m app) \<Longrightarrow> a_succeeded app \<or> (\<exists>code. a_mode app = SetupMode code)"
proof -
  have u: "a_job (update_countdown now app) = a_job app" "a_job (on_toggle_master app) = a_job app"
    "a_job (on_toggle_reveal app) = a_job app"
    by (simp_all add: update_countdown_def on_toggle_master_def on_toggle_reveal_def app_ops Let_def split: phase.split mode.split)
  show "a_job (wndproc dp now m app) \<noteq> a_job app \<Longrightarrow> a_job (wndproc dp now m app) = Some j \<Longrightarrow> job_ok (a_mode app) j"
    using assms u primary_job(1)
    by (auto simp: wndproc_def from_outside_def on_timer_def destroy_def split: msg.splits if_splits)
  show "a_succeeded (wndproc dp now m app) \<Longrightarrow> a_succeeded app \<or> (\<exists>code. a_mode app = SetupMode code)"
    using assms primary_job(2)
    by (auto simp: wndproc_def from_outside_def success_same destroy_def split: msg.splits if_splits)
qed

lemma truthful_message:
  assumes "truthful H s" and "from_outside m"
  shows "truthful H (s\<lparr>d_app := wndproc dp now m (d_app s)\<rparr>)"
proof -
  let ?app = "wndproc dp now m (d_app s)"
  have p: "a_mode ?app = a_mode (d_app s)" "a_hmac_key ?app = a_hmac_key (d_app s)" "a_master_pub ?app = a_master_pub (d_app s)"
    using same_params_message [of "d_app s" dp now m] by (simp_all add: same_params_def)
  have "a_result ?app = a_result (d_app s)" using message_worker [OF assms(2)] by blast
  with assms(1) p message_job [OF assms(2), of dp now "d_app s"] show ?thesis
    unfolding truthful_def Let_def by (simp, metis)
qed

lemma truthful_step:
  assumes inv: "dialog_inv s" and t: "truthful H s" and st: "dstep H dp s ev s'"
  shows "truthful H s'"
  using st
proof (cases rule: dstep.cases)
  case (message m now)
  with t truthful_message show ?thesis by simp
next
  case (typing confirm x)
  have "same_params (d_app s) (set_text confirm x (d_app s))" by simp
  with t typing show ?thesis by (simp add: truthful_def Let_def set_text_same same_params_def)
next
  case (working j now)
  obtain r w where r: "run_job H (a_hmac_key (d_app s)) (a_master_pub (d_app s)) now j (d_world s) = (r, w)" by fastforce
  have "\<not> a_succeeded (d_app s)" using inv working by (simp add: dialog_inv_def)
  moreover have "job_ok (a_mode (d_app s)) j" using t working by (simp add: truthful_def Let_def)
  ultimately show ?thesis using working r by (auto simp: truthful_def Let_def finish_job_def)
next
  case (delivery m q now)
  with inv have ok: "worker_ok s" "\<not> a_succeeded (d_app s)" by (simp_all add: dialog_inv_def)
  show ?thesis
  proof (cases "m = AppDone \<and> (\<exists>e. a_result (d_app s) = Some (Inl e))")
    case True
    then obtain e where e: "m = AppDone" "a_result (d_app s) = Some (Inl e)" by blast
    let ?app = "on_done now (d_app s)"
    have p: "a_mode ?app = a_mode (d_app s)" using same_params_done [of "d_app s" now] by (simp add: same_params_def)
    have "\<not> a_succeeded ?app" using e(2) ok(2) by (simp add: on_done_def show_error_worker app_ops)
    with t e p delivery done_worker [OF e(2), of now] show ?thesis by (simp add: truthful_def Let_def wndproc_def)
  next
    case False
    have "\<not> from_outside m" using ok(1) delivery by (simp add: worker_ok_def)
    then consider pct where "m = AppProgress pct" | (ended) "m = AppDone" by (auto simp: from_outside_def split: msg.splits)
    then show ?thesis
    proof cases
      case ended
      with ok(1) delivery have "a_result (d_app s) \<noteq> None" by (simp add: worker_ok_def)
      with False ended obtain p where "a_result (d_app s) = Some (Inr p)" by (metis not_None_eq sum.exhaust)
      with t ended delivery show ?thesis by (auto simp: truthful_def Let_def wndproc_def on_done_def destroy_def)
    qed (use t delivery in \<open>simp add: truthful_def Let_def wndproc_def\<close>)
  qed
qed

lemma params_step: "dstep H dp s ev s' \<Longrightarrow> same_params (d_app s) (d_app s')"
proof (cases rule: dstep.cases, assumption)
  fix j now
  assume "s' = finish_job H now j s"
  then show ?thesis by (simp add: finish_job_def same_params_def split: prod.split)
qed (simp_all add: same_params_message)

lemma opened_truthful: "truthful H (opened H now m key pub w)"
  by (simp add: truthful_def Let_def opened_params)

lemma reach_truthful:
  assumes "reach H dp (opened H now m key pub w) s" and "counts_ok H key m w"
  shows "truthful H s \<and> dialog_inv s \<and> a_mode (d_app s) = m \<and> a_hmac_key (d_app s) = key \<and> a_master_pub (d_app s) = pub"
  using assms(1)
proof (induction rule: reach.induct)
  case start
  show ?case using opened_truthful opened_inv [OF assms(2)] opened_params by simp
next
  case (step s ev s')
  then show ?case
    using truthful_step [OF _ _ step.hyps(2)] dialog_inv_step [OF _ step.hyps(2)] params_step [OF step.hyps(2)]
    by (simp add: same_params_def)
qed

lemma open_journal_touches: "open_journal H w = (j, w') \<Longrightarrow> changes_only (\<lambda>q. prefix q (host_dir H @ [''journal''])) w w'"
  and open_journal_dir: "open_journal H w = (j, w') \<Longrightarrow> j = None \<or> j = Some (host_dir H @ [''journal''])"
proof -
  have k: "keeps (changes_only (\<lambda>q. prefix q (host_dir H @ [''journal'']))) (journal_open (host_os H) (host_dir H @ [''journal'']))"
    unfolding journal_open_def by (intro keeps_intros touches)
  show "open_journal H w = (j, w') \<Longrightarrow> changes_only (\<lambda>q. prefix q (host_dir H @ [''journal''])) w w'"
    using keepsD [OF k] by (auto simp: open_journal_def split: prod.splits sum.splits)
  show "open_journal H w = (j, w') \<Longrightarrow> j = None \<or> j = Some (host_dir H @ [''journal''])"
    by (auto simp: open_journal_def journal_open_def bindE_def split: prod.splits sum.splits)
qed

section \<open>Properties\<close>

text \<open>
  C34: The dialog never gets stuck or lies about its state. In every state it can reach, by any
  messages at any times and any behaviour of the machine: it is busy exactly while one worker
  runs or its end has not been handled; the fields are hidden exactly while it is busy; the
  password field is disabled only in a lockout, and then the countdown runs; the number of red
  dots is at most three; the password is shown in clear only when recovery-code mode or the
  reveal toggle asks for it; and no error of a worker makes the attempt count wrap.
\<close>

theorem dialog_invariant:
  assumes "reach H dp (opened H now m key pub w) s" and "counts_ok H key m w" and "a_alive (d_app s)"
  shows "input_ok (d_app s) \<and> worker_ok s"
  using reach_truthful [OF assms(1,2)] assms(3) by (simp add: dialog_inv_def)

text \<open>
  C35: While a worker runs, neither the close button nor Escape, Enter, the timers or anything
  the worker posts closes the window: only a message for which the default window procedure
  destroys the window does. And such a message (\<open>WM_CLOSE\<close>) does close it with the worker still
  running, because the window procedure hands it on unchecked.
\<close>

theorem close_waits_for_worker:
  assumes "reach H dp (opened H now m key pub w) s" and "counts_ok H key m w" and "a_alive (d_app s)"
    and "a_job (d_app s) = Some j"
  shows "(\<forall>ev s'. dstep H dp s ev s' \<longrightarrow> a_alive (d_app s') \<or> (\<exists>t n. ev = UserMsg t (OtherMsg n) \<and> dp n))
    \<and> (\<forall>t n. dp n \<longrightarrow> (\<exists>s'. dstep H dp s (UserMsg t (OtherMsg n)) s' \<and> \<not> a_alive (d_app s') \<and> a_job (d_app s') = Some j))"
proof -
  have wk: "worker_ok s" using reach_truthful [OF assms(1,2)] assms(3) by (simp add: dialog_inv_def)
  then have b: "a_phase (d_app s) = Busy" "dones (d_queue s) = 0" using assms(4) by (auto simp: worker_ok_def split: if_splits)
  have "a_alive (d_app s') \<or> (\<exists>t n. ev = UserMsg t (OtherMsg n) \<and> dp n)" if "dstep H dp s ev s'" for ev s'
    using that
  proof (cases rule: dstep.cases)
    case (message i t)
    then show ?thesis
      using b(1) assms(3)
      by (cases i) (auto simp: wndproc_def on_primary_def success_same from_outside_def split: if_splits)
  next
    case (typing confirm x)
    with assms(3) show ?thesis by (simp add: set_text_same)
  next
    case (working k t)
    with assms(3) show ?thesis by (simp add: finish_job_def split: prod.split)
  next
    case (delivery i q t)
    with wk b(2) have "i \<noteq> AppDone" "\<not> from_outside i" by (simp_all add: worker_ok_def split: if_splits)
    with delivery assms(3) show ?thesis by (cases i) (simp_all add: wndproc_def from_outside_def)
  qed
  moreover have "\<exists>s'. dstep H dp s (UserMsg t (OtherMsg n)) s' \<and> \<not> a_alive (d_app s') \<and> a_job (d_app s') = Some j" if "dp n" for t n
    using dstep.message [OF assms(3), of "OtherMsg n" H dp t] assms(4) that
    by (intro exI [of _ "s\<lparr>d_app := wndproc dp t (OtherMsg n) (d_app s)\<rparr>"])
       (simp add: from_outside_def wndproc_def destroy_def)
  ultimately show ?thesis by blast
qed

text \<open>
  C10: When \<open>run_dialog\<close> returns \<open>true\<close>, it is so. A setup dialog was confirmed; a lock dialog
  replaced its folder, as it was when the worker began, by a container that holds it under a
  password of at least six bytes; an unlock or delete dialog saw its operation succeed, and
  nothing has changed on the machine since.
\<close>

theorem dialog_success_is_real:
  assumes "reach H dp (opened H now m key pub w0) s" and "counts_ok H key m w0" and "a_succeeded (d_app s)"
    and ok: "crypto_ok (host_crypto H)" "codec_ok (host_entries H)"
  shows "case m of
      SetupMode _ \<Rightarrow> True
    | LockMode src \<Rightarrow> \<exists>pw journal w p. 6 \<le> str_len pw
        \<and> host_lock H src pw key (gui_options pub) journal w = (Inr p, d_world s)
        \<and> (wf_fs (w_fs w) \<longrightarrow> journal_apart (Some (host_dir H @ [''journal''])) src \<longrightarrow> lookup w (lock_dest src) = None \<longrightarrow>
             (\<forall>q. prefix src q \<longrightarrow> lookup (d_world s) q = None)
             \<and> (\<exists>c. content_at (d_world s) (lock_dest src) c
                  \<and> holds_folder (host_crypto H) (host_entries H) (host_os H) key (utf8 pw) (gui_options pub) w src c))
    | UnlockMode c \<Rightarrow> \<exists>cred t journal w p. host_unlock H c cred key t journal w = (Inr p, d_world s)
    | DeleteMode c \<Rightarrow> \<exists>cred t w. host_delete H c cred key t w = (Inr (), d_world s)"
proof -
  have t: "truthful H s" "a_mode (d_app s) = m" "a_hmac_key (d_app s) = key" "a_master_pub (d_app s) = pub"
    using reach_truthful [OF assms(1,2)] by simp_all
  show ?thesis
  proof (cases "\<exists>code. m = SetupMode code")
    case False
    with t assms(3) obtain j w t p where j: "job_ok m j" and r: "run_job H key pub t j w = (Inr p, d_world s)"
      by (auto simp: truthful_def Let_def)
    show ?thesis
    proof (cases m)
      case (LockMode src)
      with j obtain pw where pw: "j = LockJob src pw" "6 \<le> str_len pw" by (auto simp: job_ok_def)
      obtain journal w1 where o: "open_journal H w = (journal, w1)" by fastforce
      have l: "lock_folder (host_crypto H) (host_entries H) (host_records H) (host_os H) src (utf8 pw) key (gui_options pub)
          journal w1 = (Inr p, d_world s)"
        using r pw(1) o by (simp add: run_job_def host_lock_def)
      have h: "(\<forall>q. prefix src q \<longrightarrow> lookup (d_world s) q = None)
           \<and> (\<exists>c. content_at (d_world s) (lock_dest src) c
                \<and> holds_folder (host_crypto H) (host_entries H) (host_os H) key (utf8 pw) (gui_options pub) w1 src c)"
        if "wf_fs (w_fs w1)" "journal_apart (Some (host_dir H @ [''journal''])) src" "lookup w1 (lock_dest src) = None"
      proof -
        have "journal_apart journal src" using that(2) open_journal_dir [OF o] by (auto simp: journal_apart_def)
        from lock_folder_outcome [OF ok that(1) this that(3) l] show ?thesis by auto
      qed
      have "host_lock H src pw key (gui_options pub) journal w1 = (Inr p, d_world s)"
        using l by (simp add: host_lock_def)
      with pw(2) h show ?thesis
        unfolding LockMode mode.case
        by - (rule exI [of _ pw], rule exI [of _ journal], rule exI [of _ w1], rule exI [of _ p], intro conjI impI, assumption+, simp+)
    next
      case (UnlockMode c)
      with j obtain cred where u: "j = UnlockJob c cred" by (auto simp: job_ok_def)
      obtain journal w1 where o: "open_journal H w = (journal, w1)" by fastforce
      have "host_unlock H c cred key t journal w1 = (Inr p, d_world s)" using r u o by (simp add: run_job_def)
      then show ?thesis unfolding UnlockMode mode.case by metis
    next
      case (DeleteMode c)
      with j obtain cred where "j = DeleteJob c cred" by (auto simp: job_ok_def)
      then have "host_delete H c cred key t w = (Inr (), d_world s)"
        using r by (auto simp: run_job_def split: prod.splits sum.splits)
      then show ?thesis unfolding DeleteMode mode.case by metis
    qed (use False in simp)
  qed auto
qed

section \<open>Witnesses\<close>

definition dialog_host :: host where
  "dialog_host = \<lparr>host_crypto = toy_crypto, host_entries = sample_codec sample_entries,
     host_records = sample_codec \<lparr>j_op = LockOp, j_folder = [''d''], j_container = [''d.fvlt''], j_staging = [''d.fvlt.tmp'']\<rparr>,
     host_os = calm, host_platform = NonWindows,
     host_vars = \<lparr>var_os = (\<lambda>_. Some [''k'']), current_dir = []\<rparr>, host_path = (\<lambda>_. [''d''])\<rparr>"

definition lock_dialog :: dialog where
  "lock_dialog = opened dialog_host 0 (LockMode [''d'']) [9] None sample_world"

text \<open>The password typed twice, and the button pressed.\<close>

definition typed_dialog :: dialog where
  "typed_dialog = lock_dialog\<lparr>d_app := set_text True [1, 2, 3, 4, 5, 6] (set_text False [1, 2, 3, 4, 5, 6] (d_app lock_dialog))\<rparr>"

definition busy_dialog :: dialog where
  "busy_dialog = typed_dialog\<lparr>d_app := wndproc (\<lambda>n. n = 16) 0 (Command 1) (d_app typed_dialog)\<rparr>"

lemma counts_ok_lock: "counts_ok H key (LockMode src) w" "counts_ok H key (SetupMode code) w"
  by (simp_all add: counts_ok_def container_of_def)

lemma reach_busy_dialog: "reach dialog_host (\<lambda>n. n = 16) lock_dialog busy_dialog"
proof -
  let ?s1 = "lock_dialog\<lparr>d_app := set_text False [1, 2, 3, 4, 5, 6] (d_app lock_dialog)\<rparr>"
  have l: "lock_dialog = \<lparr>d_app = (new_app (LockMode [''d'']) [9] None)\<lparr>a_edit := Some (mk_edit True), a_edit2 := Some (mk_edit True)\<rparr>,
      d_queue = [], d_world = sample_world\<rparr>"
    by (simp add: lock_dialog_def opened_def on_create_def new_app_def)
  have "dstep dialog_host (\<lambda>n. n = 16) lock_dialog (Typed False [1, 2, 3, 4, 5, 6]) ?s1"
    using typing [of lock_dialog False dialog_host "\<lambda>n. n = 16" "[1, 2, 3, 4, 5, 6]"]
    by (simp add: l new_app_def typeable_def mk_edit_def)
  moreover have "dstep dialog_host (\<lambda>n. n = 16) ?s1 (Typed True [1, 2, 3, 4, 5, 6]) typed_dialog"
    using typing [of ?s1 True dialog_host "\<lambda>n. n = 16" "[1, 2, 3, 4, 5, 6]"]
    by (simp add: typed_dialog_def l new_app_def typeable_def mk_edit_def set_text_def)
  moreover have "dstep dialog_host (\<lambda>n. n = 16) typed_dialog (UserMsg 0 (Command 1)) busy_dialog"
    using message [of typed_dialog "Command 1" dialog_host "\<lambda>n. n = 16" 0]
    by (simp add: busy_dialog_def typed_dialog_def l new_app_def set_text_def from_outside_def)
  ultimately show ?thesis by (meson reach.start reach.step)
qed

lemma busy_dialog_job: "a_alive (d_app busy_dialog)" "a_job (d_app busy_dialog) = Some (LockJob [''d''] [1, 2, 3, 4, 5, 6])"
proof -
  have t: "utf16_lossy [1, 2, 3, 4, 5, 6] = [1, 2, 3, 4, 5, 6]"
    by (simp add: high_surrogate_def low_surrogate_def)
  have "6 \<le> str_len [1, 2, 3, 4, 5, 6]" using str_len_bounds [of "[1, 2, 3, 4, 5, 6]"] by simp
  then show "a_alive (d_app busy_dialog)" "a_job (d_app busy_dialog) = Some (LockJob [''d''] [1, 2, 3, 4, 5, 6])"
    using t by (simp_all add: busy_dialog_def typed_dialog_def lock_dialog_def opened_def on_create_def new_app_def mk_edit_def
        set_text_def wndproc_def ID_PRIMARY_def on_primary_def get_text_def app_ops Let_def)
qed

theorem dialog_invariant_witness:
  "input_ok (d_app busy_dialog) \<and> worker_ok busy_dialog"
  using dialog_invariant [OF _ counts_ok_lock(1) busy_dialog_job(1)] reach_busy_dialog
  unfolding lock_dialog_def by blast

theorem close_waits_for_worker_witness:
  "\<exists>s'. dstep dialog_host (\<lambda>n. n = 16) busy_dialog (UserMsg 5 (OtherMsg 16)) s' \<and> \<not> a_alive (d_app s')
     \<and> a_job (d_app s') \<noteq> None"
  using close_waits_for_worker [OF _ counts_ok_lock(1) busy_dialog_job] reach_busy_dialog
  unfolding lock_dialog_def by blast

text \<open>The worker of that dialog locks the sample folder, and the dialog ends when its end is delivered.\<close>

definition journal_fs :: fsmap where
  "journal_fs = put [''k'', ''journal''] Dir (put [''k''] Dir sample_fs)"

lemma wf_journal_fs: "wf_fs journal_fs"
  by (simp add: wf_fs_def journal_fs_def put_def sample_fs_def get_def)

lemma dialog_journal:
  obtains w where "open_journal dialog_host sample_world = (Some [''k'', ''journal''], w)" and "w_fs w = journal_fs"
proof -
  have "host_dir dialog_host = [''k'']" by (simp add: host_dir_def data_dir_def dialog_host_def)
  then show ?thesis
    using that
    by (simp add: open_journal_def journal_open_def create_dir_all_def dialog_host_def bindE_def mapE_def create_dir_def
        sysop_runs is_dir_path_def occupied_def parent_is_dir_def lookup_def sample_world_def upd_fs_def journal_fs_def
        get_sample_fs upt_rec)
qed

lemma dialog_lock_runs:
  obtains w' where "run_job dialog_host [9] None t (LockJob [''d''] pw) sample_world = (Inr [''d.fvlt''], w')"
proof -
  obtain w where o: "open_journal dialog_host sample_world = (Some [''k'', ''journal''], w)" and fs: "w_fs w = journal_fs"
    by (rule dialog_journal)
  have L: "lookup w p = (if p = [''k'', ''journal''] \<or> p = [''k''] then Some Dir else get sample_fs p)" for p
    by (simp add: lookup_def fs journal_fs_def)
  have wf: "wf_fs (w_fs w)" by (simp add: fs wf_journal_fs)
  have lk: "lockable toy_crypto (sample_codec sample_entries) calm [''d''] (utf8 pw) (gui_options None) w"
    by (rule sample_lockable) (auto simp: L get_sample_fs gui_options_def)
  let ?jc = "sample_codec \<lparr>j_op = LockOp, j_folder = [''d''], j_container = [''d.fvlt''], j_staging = [''d.fvlt.tmp'']\<rparr>"
  have ready: "journal_ready ?jc (Some [''k'', ''journal''])
      \<lparr>j_op = LockOp, j_folder = [''d''], j_container = lock_dest [''d''], j_staging = lock_tmp [''d'']\<rparr> w"
    by (auto simp: journal_ready_def sample_codec_def lock_dest_def lock_tmp_def is_dir_path_def L is_record_def record_path_def
        writable_def get_sample_fs)
  have "journal_apart (Some [''k'', ''journal'']) [''d'']" by (simp add: journal_apart_def)
  with lock_folder_locks [OF no_fail_calm toy_crypto_ok sample_codec_ok wf lk ready, of "[9]"] obtain w' where
    "lock_folder toy_crypto (sample_codec sample_entries) ?jc calm [''d''] (utf8 pw) [9] (gui_options None)
       (Some [''k'', ''journal'']) w = (Inr (lock_dest [''d'']), w')" by metis
  then have "run_job dialog_host [9] None t (LockJob [''d''] pw) sample_world = (Inr [''d.fvlt''], w')"
    using o by (simp add: run_job_def host_lock_def dialog_host_def lock_dest_def)
  then show ?thesis by (rule that)
qed

lemma deliver_all:
  assumes "reach H dp s0 s" and "a_alive (d_app s)" and "d_queue s = map AppProgress ps @ [AppDone]"
    and "a_result (d_app s) = Some (Inr p)"
  shows "\<exists>s'. reach H dp s0 s' \<and> a_succeeded (d_app s')"
  using assms
proof (induction ps arbitrary: s)
  case Nil
  let ?s = "s\<lparr>d_app := wndproc dp 0 AppDone (d_app s), d_queue := []\<rparr>"
  have "dstep H dp s (Delivered 0) ?s" using Nil by (intro delivery) simp_all
  then have "reach H dp s0 ?s" using Nil.prems(1) by (rule reach.step [rotated])
  moreover have "a_succeeded (d_app ?s)" using Nil.prems(4) by (simp add: wndproc_def on_done_def destroy_def)
  ultimately show ?case by blast
next
  case (Cons pct ps)
  let ?s = "s\<lparr>d_app := wndproc dp 0 (AppProgress pct) (d_app s), d_queue := map AppProgress ps @ [AppDone]\<rparr>"
  have "dstep H dp s (Delivered 0) ?s" using Cons.prems by (intro delivery) simp_all
  then have "reach H dp s0 ?s" using Cons.prems(1) by (rule reach.step [rotated])
  then show ?case using Cons.prems by (elim Cons.IH) (simp_all add: wndproc_def)
qed

lemma dialog_ends:
  obtains s where "reach dialog_host (\<lambda>n. n = 16) lock_dialog s" and "a_succeeded (d_app s)"
proof -
  have k: "a_hmac_key (d_app busy_dialog) = [9]" "a_master_pub (d_app busy_dialog) = None"
    using reach_truthful [OF reach_busy_dialog [unfolded lock_dialog_def] counts_ok_lock(1)] by blast+
  have "d_queue lock_dialog = []" "d_world lock_dialog = sample_world"
    by (simp_all add: lock_dialog_def opened_def on_create_def new_app_def)
  then have q: "d_queue busy_dialog = []" "d_world busy_dialog = sample_world"
    by (simp_all add: busy_dialog_def typed_dialog_def)
  obtain w' where r: "run_job dialog_host [9] None 0 (LockJob [''d''] [1, 2, 3, 4, 5, 6]) sample_world = (Inr [''d.fvlt''], w')"
    by (rule dialog_lock_runs)
  let ?s = "finish_job dialog_host 0 (LockJob [''d''] [1, 2, 3, 4, 5, 6]) busy_dialog"
  have "dstep dialog_host (\<lambda>n. n = 16) busy_dialog (Worked 0) ?s" using busy_dialog_job by (rule working)
  then have "reach dialog_host (\<lambda>n. n = 16) lock_dialog ?s" using reach_busy_dialog by (rule reach.step [rotated])
  moreover have "a_alive (d_app ?s)" "a_result (d_app ?s) = Some (Inr [''d.fvlt''])"
    "d_queue ?s = map AppProgress (map (\<lambda>p. word_of_nat (unat p)) (percents sample_world w')) @ [AppDone]"
    using busy_dialog_job(1) q k r by (simp_all add: finish_job_def)
  ultimately show ?thesis using deliver_all that by blast
qed

theorem dialog_success_is_real_witness:
  "\<exists>(s :: dialog) pw journal w p. a_succeeded (d_app s) \<and> 6 \<le> str_len pw
     \<and> host_lock dialog_host [''d''] pw [9] (gui_options None) journal w = (Inr p, d_world s)"
proof -
  obtain s where s: "reach dialog_host (\<lambda>n. n = 16) lock_dialog s" "a_succeeded (d_app s)" by (rule dialog_ends)
  have "crypto_ok (host_crypto dialog_host)" "codec_ok (host_entries dialog_host)" by (simp_all add: dialog_host_def)
  from dialog_success_is_real [OF s(1) [unfolded lock_dialog_def] counts_ok_lock(1) s(2) this]
  obtain pw journal w p where "6 \<le> str_len pw"
    "host_lock dialog_host [''d''] pw [9] (gui_options None) journal w = (Inr p, d_world s)"
    unfolding mode.case by (elim exE conjE)
  with s(2) have "a_succeeded (d_app s) \<and> 6 \<le> str_len pw
      \<and> host_lock dialog_host [''d''] pw [9] (gui_options None) journal w = (Inr p, d_world s)"
    by (intro conjI)
  then show ?thesis by (intro exI)
qed

end
