(* ===== verification/Registry.thy ===== *)
theory Registry
  imports Unicode Vault_Lib
begin

text \<open>
  \<open>crates/vault-app/src/shell.rs\<close>: the Explorer integration in the user's part of the Windows
  registry. The registry is a tree of keys with values under optional names; each call takes one
  tick and may fail. \<open>RegCreateKeyExW\<close> creates missing keys above, \<open>RegDeleteTreeW\<close> deletes a key
  with everything below it, or nothing when it fails. Every value is a \<open>REG_SZ\<close>, as all those the
  program writes are; a value of another type, which \<open>RRF_RT_REG_SZ\<close> refuses, is not represented.
  The data functions that \<open>shell.rs\<close> re-exports are those of \<open>Secrets\<close>.
\<close>

section \<open>The registry\<close>

type_synonym regkey = "string list"

record registry =
  reg_keys :: "regkey \<Rightarrow> bool"
  reg_val :: "regkey \<Rightarrow> string option \<Rightarrow> u16 list option"
  reg_tick :: nat

type_synonym 'a reg = "registry \<Rightarrow> (unit + 'a) \<times> registry"

definition reg_call :: "(nat \<Rightarrow> bool) \<Rightarrow> (registry \<Rightarrow> (unit + 'a) \<times> registry) \<Rightarrow> 'a reg" where
  "reg_call F act r =
     (let n = reg_tick r; r = r\<lparr>reg_tick := Suc n\<rparr> in if F n then (Inl (), r) else act r)"

definition create_key :: "(nat \<Rightarrow> bool) \<Rightarrow> regkey \<Rightarrow> unit reg" where
  "create_key F k = reg_call F (\<lambda>r. (Inr (), r\<lparr>reg_keys := (\<lambda>q. prefix q k \<or> reg_keys r q)\<rparr>))"

definition put_value :: "(nat \<Rightarrow> bool) \<Rightarrow> regkey \<Rightarrow> string option \<Rightarrow> u16 list \<Rightarrow> unit reg" where
  "put_value F k name data = reg_call F (\<lambda>r.
     (Inr (), r\<lparr>reg_val := (\<lambda>q m. if q = k \<and> m = name then Some data else reg_val r q m)\<rparr>))"

definition get_value :: "(nat \<Rightarrow> bool) \<Rightarrow> regkey \<Rightarrow> string option \<Rightarrow> u16 list reg" where
  "get_value F k name = reg_call F (\<lambda>r.
     case reg_val r k name of None \<Rightarrow> (Inl (), r) | Some data \<Rightarrow> (Inr data, r))"

definition delete_tree :: "(nat \<Rightarrow> bool) \<Rightarrow> regkey \<Rightarrow> unit reg" where
  "delete_tree F k = reg_call F (\<lambda>r.
     if \<not> reg_keys r k then (Inl (), r)
     else (Inr (), r\<lparr>reg_keys := (\<lambda>q. \<not> prefix k q \<and> reg_keys r q),
                     reg_val := (\<lambda>q m. if prefix k q then None else reg_val r q m)\<rparr>))"

section \<open>The code\<close>

definition wide :: "uchar list \<Rightarrow> u16 list" where
  "wide s = encode_utf16 s @ [0]"

definition set_value :: "(nat \<Rightarrow> bool) \<Rightarrow> regkey \<Rightarrow> string option \<Rightarrow> uchar list \<Rightarrow> unit reg" where
  "set_value F k name data = bindE (create_key F k) (\<lambda>_. put_value F k name (wide data))"

definition quoted :: "uchar list \<Rightarrow> uchar list" where
  "quoted s = lit [CHR 34] @ s @ lit [CHR 34]"

text \<open>The values that \<open>register\<close> sets, in its order.\<close>

definition registration :: "uchar list \<Rightarrow> ((regkey \<times> string option) \<times> uchar list) list" where
  "registration exe =
     (let open_cmd = quoted exe @ lit '' open '' @ quoted (lit ''%1'');
          lock_cmd = quoted exe @ lit '' lock '' @ quoted (lit ''%1'');
          icon_locked = quoted exe @ lit '',-2'';
          icon_app = quoted exe @ lit '',-1'';
          delete_cmd = quoted exe @ lit '' delete '' @ quoted (lit ''%1'')
      in [(([''Software'', ''Classes'', ''.fvlt''], None), lit ''FolderVault.Container''),
          (([''Software'', ''Classes'', ''FolderVault.Container''], None), lit ''Locked folder (FolderVault)''),
          (([''Software'', ''Classes'', ''FolderVault.Container'', ''DefaultIcon''], None), icon_locked),
          (([''Software'', ''Classes'', ''FolderVault.Container'', ''shell'', ''open'', ''command''], None), open_cmd),
          (([''Software'', ''Classes'', ''FolderVault.Container'', ''shell'', ''FolderVault.Delete''], None),
             lit ''Delete with FolderVault''),
          (([''Software'', ''Classes'', ''FolderVault.Container'', ''shell'', ''FolderVault.Delete''], Some ''Icon''),
             icon_app),
          (([''Software'', ''Classes'', ''FolderVault.Container'', ''shell'', ''FolderVault.Delete'', ''command''], None),
             delete_cmd),
          (([''Software'', ''Classes'', ''Directory'', ''shell'', ''FolderVault.Lock''], None), lit ''Lock with FolderVault''),
          (([''Software'', ''Classes'', ''Directory'', ''shell'', ''FolderVault.Lock''], Some ''Icon''), icon_app),
          (([''Software'', ''Classes'', ''Directory'', ''shell'', ''FolderVault.Lock'', ''command''], None), lock_cmd),
          (([''Software'', ''FolderVault''], Some ''RegisteredExe''), exe)])"

text \<open>One \<open>set_value\<close> after the other, the first failure ending the sequence.\<close>

primrec set_values :: "(nat \<Rightarrow> bool) \<Rightarrow> ((regkey \<times> string option) \<times> uchar list) list \<Rightarrow> unit reg" where
  "set_values F [] = returnE ()"
| "set_values F (e # es) = bindE (set_value F (fst (fst e)) (snd (fst e)) (snd e)) (\<lambda>_. set_values F es)"

definition register :: "(nat \<Rightarrow> bool) \<Rightarrow> uchar list \<Rightarrow> unit reg" where
  "register F exe = set_values F (registration exe)"

definition delete_verb_present :: "(nat \<Rightarrow> bool) \<Rightarrow> registry \<Rightarrow> bool \<times> registry" where
  "delete_verb_present F r =
     (case get_value F [''Software'', ''Classes'', ''FolderVault.Container'', ''shell'', ''FolderVault.Delete'', ''command'']
             None r of
        (Inl _, r) \<Rightarrow> (False, r) | (Inr _, r) \<Rightarrow> (True, r))"

text \<open>The buffer holds 32768 units; longer data is an error of \<open>RegGetValueW\<close>.\<close>

definition read_registered_exe :: "(nat \<Rightarrow> bool) \<Rightarrow> registry \<Rightarrow> uchar list option \<times> registry" where
  "read_registered_exe F r =
     (case get_value F [''Software'', ''FolderVault''] (Some ''RegisteredExe'') r of
        (Inl _, r) \<Rightarrow> (None, r)
      | (Inr data, r) \<Rightarrow>
          (if 32768 < length data then None else Some (utf16_lossy (take (length data - 1) data)), r))"

definition register_if_needed :: "(nat \<Rightarrow> bool) \<Rightarrow> uchar list \<Rightarrow> registry \<Rightarrow> registry" where
  "register_if_needed F exe r =
     (case read_registered_exe F r of (found, r) \<Rightarrow>
      if found \<noteq> Some exe then snd (register F exe r)
      else case delete_verb_present F r of (present, r) \<Rightarrow> if \<not> present then snd (register F exe r) else r)"

primrec delete_trees :: "(nat \<Rightarrow> bool) \<Rightarrow> regkey list \<Rightarrow> registry \<Rightarrow> registry" where
  "delete_trees F [] r = r"
| "delete_trees F (k # ks) r = delete_trees F ks (snd (delete_tree F k r))"

definition own_keys :: "regkey list" where
  "own_keys =
     [[''Software'', ''Classes'', ''Directory'', ''shell'', ''FolderVault.Lock''],
      [''Software'', ''Classes'', ''FolderVault.Container''],
      [''Software'', ''Classes'', ''.fvlt''],
      [''Software'', ''FolderVault'']]"

definition unregister :: "(nat \<Rightarrow> bool) \<Rightarrow> registry \<Rightarrow> registry" where
  "unregister F r = delete_trees F own_keys r"

section \<open>Sequences of writes\<close>

text \<open>\<open>written es r\<close>: the values of \<open>r\<close> with those of \<open>es\<close> set.\<close>

definition written :: "((regkey \<times> string option) \<times> uchar list) list \<Rightarrow> registry \<Rightarrow> regkey \<Rightarrow> string option \<Rightarrow> u16 list option" where
  "written es r k m = (case map_of es (k, m) of Some d \<Rightarrow> Some (wide d) | None \<Rightarrow> reg_val r k m)"

lemma set_value_outcome:
  assumes "set_value F k name d r = (x, r')"
  shows "if x = Inr () then reg_val r' = written [((k, name), d)] r else reg_val r' = reg_val r"
  using assms
  by (auto simp: set_value_def bindE_def create_key_def put_value_def reg_call_def Let_def written_def fun_eq_iff
      split: if_splits)

lemma written_Cons:
  assumes "map_of es (fst e) = None" and "reg_val r1 = written [e] r"
  shows "written es r1 = written (e # es) r"
proof (intro ext)
  fix k m
  obtain km d where e: "e = (km, d)" by fastforce
  show "written es r1 k m = written (e # es) r k m"
    using assms by (cases "km = (k, m)") (auto simp: e written_def split: option.split)
qed

lemma set_values_outcome:
  assumes "set_values F es r = (x, r')" and "distinct (map fst es)"
  shows "\<exists>n \<le> length es. reg_val r' = written (take n es) r \<and> (x = Inr () \<longleftrightarrow> n = length es)"
  using assms
proof (induction es arbitrary: r)
  case Nil
  then show ?case by (simp add: written_def fun_eq_iff)
next
  case (Cons e es)
  obtain y r1 where s: "set_value F (fst (fst e)) (snd (fst e)) (snd e) r = (y, r1)" by fastforce
  note o1 = set_value_outcome [OF s]
  show ?case
  proof (cases y)
    case (Inl u)
    with Cons.prems(1) s have "x = Inl u" "r' = r1" by (simp_all add: bindE_def)
    with o1 Inl show ?thesis by (intro exI [of _ 0]) (simp add: written_def fun_eq_iff)
  next
    case (Inr u)
    with Cons.prems(1) s have "set_values F es r1 = (x, r')" by (simp add: bindE_def)
    moreover have "distinct (map fst es)" using Cons.prems(2) by simp
    ultimately obtain n where n: "n \<le> length es" "reg_val r' = written (take n es) r1"
      "x = Inr () \<longleftrightarrow> n = length es" using Cons.IH by blast
    have nin: "map_of (take n es) (fst e) = None"
      using Cons.prems(2) by (auto simp: map_of_eq_None_iff dest: in_set_takeD)
    have "reg_val r1 = written [e] r" using o1 Inr by simp
    with nin have "written (take n es) r1 = written (e # take n es) r" by (rule written_Cons)
    with n show ?thesis by (intro exI [of _ "Suc n"]) simp
  qed
qed

text \<open>Without failures every value is set.\<close>

lemma set_values_runs:
  "(\<And>n. \<not> F n) \<Longrightarrow> fst (set_values F es r) = Inr ()"
  by (induction es arbitrary: r)
     (simp_all add: bindE_def set_value_def create_key_def put_value_def reg_call_def Let_def)

lemma set_values_keys:
  assumes "set_values F es r = (x, r')"
  shows "(\<forall>k. reg_keys r k \<longrightarrow> reg_keys r' k)
    \<and> (x = Inr () \<longrightarrow> (\<forall>e \<in> set es. \<forall>k. prefix k (fst (fst e)) \<longrightarrow> reg_keys r' k))"
  using assms
proof (induction es arbitrary: r)
  case (Cons e es)
  obtain y r1 where s: "set_value F (fst (fst e)) (snd (fst e)) (snd e) r = (y, r1)" by fastforce
  then have k: "reg_keys r k \<Longrightarrow> reg_keys r1 k" "y = Inr () \<Longrightarrow> prefix k (fst (fst e)) \<Longrightarrow> reg_keys r1 k" for k
    by (auto simp: set_value_def bindE_def create_key_def put_value_def reg_call_def Let_def split: if_splits)
  show ?case
  proof (cases y)
    case (Inl u)
    with Cons.prems s have "x = Inl u" "r' = r1" by (simp_all add: bindE_def)
    with k(1) show ?thesis by simp
  next
    case (Inr u)
    with Cons.prems s have "set_values F es r1 = (x, r')" by (simp add: bindE_def)
    from Cons.IH [OF this] k Inr show ?thesis by simp
  qed
qed simp

text \<open>The keys and names of \<open>registration\<close> do not depend on the executable.\<close>

definition own_values :: "(regkey \<times> string option) list" where
  "own_values = map fst (registration [])"

lemma map_fst_registration: "map fst (registration exe) = own_values"
  by (simp add: own_values_def registration_def Let_def)

lemma distinct_own_values: "distinct own_values"
  by (simp add: own_values_def registration_def Let_def)

definition exe_key :: regkey where
  "exe_key = [''Software'', ''FolderVault'']"

lemma registration_exe_last:
  "\<exists>es. registration exe = es @ [((exe_key, Some ''RegisteredExe''), exe)]"
  by (simp add: registration_def Let_def exe_key_def)

definition registered :: "uchar list \<Rightarrow> registry \<Rightarrow> bool" where
  "registered exe r \<longleftrightarrow> (\<forall>e \<in> set (registration exe). reg_val r (fst (fst e)) (snd (fst e)) = Some (wide (snd e)))
     \<and> (\<forall>e \<in> set (registration exe). \<forall>k. prefix k (fst (fst e)) \<longrightarrow> reg_keys r k)"

definition fits :: "uchar list \<Rightarrow> bool" where
  "fits exe \<longleftrightarrow> list_all scalar exe \<and> length (encode_utf16 exe) < 32768"

lemma written_own:
  "e \<in> set es \<Longrightarrow> distinct (map fst es) \<Longrightarrow> written es r (fst (fst e)) (snd (fst e)) = Some (wide (snd e))"
  by (cases e) (simp add: written_def map_of_is_SomeI)

lemma register_outcome:
  assumes "register F exe r = (x, r')"
  shows "x = Inr () \<Longrightarrow> registered exe r'"
    and "x \<noteq> Inr () \<Longrightarrow> reg_val r' exe_key (Some ''RegisteredExe'') = reg_val r exe_key (Some ''RegisteredExe'')"
    and "(k, m) \<notin> set own_values \<Longrightarrow> reg_val r' k m = reg_val r k m"
proof -
  note run = assms [unfolded register_def]
  have d: "distinct (map fst (registration exe))" using distinct_own_values by (simp only: map_fst_registration)
  obtain n where n: "n \<le> length (registration exe)" "reg_val r' = written (take n (registration exe)) r"
    "x = Inr () \<longleftrightarrow> n = length (registration exe)"
    using set_values_outcome [OF run d] by blast
  show "registered exe r'" if "x = Inr ()"
    using that n written_own [OF _ d] set_values_keys [OF run] by (simp add: registered_def)
  show "reg_val r' k m = reg_val r k m" if "(k, m) \<notin> set own_values"
  proof -
    have "(k, m) \<notin> fst ` set (take n (registration exe))"
      using that map_fst_registration [of exe] by (metis image_mono list.set_map set_take_subset subsetD)
    then have "map_of (take n (registration exe)) (k, m) = None" by (simp add: map_of_eq_None_iff)
    then show ?thesis using n(2) by (simp add: written_def)
  qed
  show "reg_val r' exe_key (Some ''RegisteredExe'') = reg_val r exe_key (Some ''RegisteredExe'')" if "x \<noteq> Inr ()"
  proof -
    obtain es where es: "registration exe = es @ [((exe_key, Some ''RegisteredExe''), exe)]"
      using registration_exe_last by blast
    with n that have "take n (registration exe) = take n es" by auto
    moreover have "(exe_key, Some ''RegisteredExe'') \<notin> fst ` set (take n es)"
      using d es by (auto dest: in_set_takeD)
    then have "map_of (take n es) (exe_key, Some ''RegisteredExe'') = None" by (simp add: map_of_eq_None_iff)
    ultimately show ?thesis using n(2) by (simp add: written_def)
  qed
qed

lemma register_runs:
  assumes "\<And>n. \<not> F n"
  shows "registered exe (snd (register F exe r))"
  using register_outcome(1) [OF prod.collapse [symmetric]] set_values_runs [OF assms] by (simp add: register_def)

lemma registered_cong: "reg_val r' = reg_val r \<Longrightarrow> reg_keys r' = reg_keys r \<Longrightarrow> registered exe r' = registered exe r"
  by (simp add: registered_def)

lemma get_value_same: "reg_val (snd (get_value F k m r)) = reg_val r" "reg_keys (snd (get_value F k m r)) = reg_keys r"
  by (simp_all add: get_value_def reg_call_def Let_def split: option.split)

text \<open>What the checks of \<open>register_if_needed\<close> find.\<close>

lemma read_registered_exe_runs:
  assumes "\<And>n. \<not> F n"
  shows "reg_val r exe_key (Some ''RegisteredExe'') = None \<Longrightarrow> fst (read_registered_exe F r) = None"
    and "registered exe r \<Longrightarrow> fits exe \<Longrightarrow> fst (read_registered_exe F r) = Some exe"
    and "registered exe r \<Longrightarrow> fst (delete_verb_present F r)"
proof -
  show "reg_val r exe_key (Some ''RegisteredExe'') = None \<Longrightarrow> fst (read_registered_exe F r) = None"
    using assms by (simp add: read_registered_exe_def get_value_def reg_call_def Let_def exe_key_def)
  show "registered exe r \<Longrightarrow> fits exe \<Longrightarrow> fst (read_registered_exe F r) = Some exe"
    using assms by (simp add: read_registered_exe_def get_value_def reg_call_def Let_def registered_def
        registration_def wide_def fits_def utf16_roundtrip_all)
  show "registered exe r \<Longrightarrow> fst (delete_verb_present F r)"
    using assms by (simp add: delete_verb_present_def get_value_def reg_call_def Let_def registered_def registration_def)
qed

lemma checks_same:
  "reg_val (snd (read_registered_exe F r)) = reg_val r" "reg_keys (snd (read_registered_exe F r)) = reg_keys r"
  "reg_val (snd (delete_verb_present F r)) = reg_val r" "reg_keys (snd (delete_verb_present F r)) = reg_keys r"
  using get_value_same [of F "[''Software'', ''FolderVault'']" "Some ''RegisteredExe''" r]
    get_value_same [of F "[''Software'', ''Classes'', ''FolderVault.Container'', ''shell'', ''FolderVault.Delete'', ''command'']" None r]
  by (auto simp: read_registered_exe_def delete_verb_present_def split: prod.splits sum.splits)

lemma register_if_needed_eq:
  "register_if_needed F exe r =
     (let r1 = snd (read_registered_exe F r); r2 = snd (delete_verb_present F r1)
      in if fst (read_registered_exe F r) \<noteq> Some exe then snd (register F exe r1)
         else if \<not> fst (delete_verb_present F r1) then snd (register F exe r2) else r2)"
  by (simp add: register_if_needed_def Let_def case_prod_beta)

lemma register_if_needed_cases:
  obtains (registers) r1 where "register_if_needed F exe r = snd (register F exe r1)" and "reg_val r1 = reg_val r"
      and "reg_keys r1 = reg_keys r"
  | (idle) "fst (read_registered_exe F r) = Some exe" and "reg_val (register_if_needed F exe r) = reg_val r"
      and "reg_keys (register_if_needed F exe r) = reg_keys r"
proof -
  let ?r1 = "snd (read_registered_exe F r)"
  let ?r2 = "snd (delete_verb_present F ?r1)"
  have same: "reg_val ?r1 = reg_val r" "reg_keys ?r1 = reg_keys r" "reg_val ?r2 = reg_val r" "reg_keys ?r2 = reg_keys r"
    using checks_same by simp_all
  consider "register_if_needed F exe r = snd (register F exe ?r1)"
    | "register_if_needed F exe r = snd (register F exe ?r2)"
    | "fst (read_registered_exe F r) = Some exe" "register_if_needed F exe r = ?r2"
    using register_if_needed_eq [of F exe r] by (auto simp: Let_def split: if_splits)
  then show ?thesis
  proof cases
    case 1
    with same registers [of ?r1] show ?thesis by simp
  next
    case 2
    with same registers [of ?r2] show ?thesis by simp
  next
    case 3
    with same show ?thesis by (intro idle) simp_all
  qed
qed

text \<open>Nothing is written when the registration is complete.\<close>

lemma register_if_needed_idle:
  assumes "\<And>n. \<not> F n" and "registered exe r" and "fits exe"
  shows "reg_val (register_if_needed F exe r) = reg_val r" and "reg_keys (register_if_needed F exe r) = reg_keys r"
proof -
  have "registered exe (snd (read_registered_exe F r))" using assms(2) registered_cong checks_same(1,2) by blast
  then have "fst (delete_verb_present F (snd (read_registered_exe F r)))"
    by (rule read_registered_exe_runs(3) [where F = F, OF assms(1)])
  moreover have "fst (read_registered_exe F r) = Some exe"
    using assms(2,3) by (rule read_registered_exe_runs(2) [where F = F, OF assms(1)])
  ultimately have "register_if_needed F exe r = snd (delete_verb_present F (snd (read_registered_exe F r)))"
    unfolding register_if_needed_eq Let_def by simp
  then show "reg_val (register_if_needed F exe r) = reg_val r" "reg_keys (register_if_needed F exe r) = reg_keys r"
    using checks_same by simp_all
qed

lemma delete_tree_runs:
  assumes "\<not> F (reg_tick r)" and "reg_keys r k"
  shows "reg_val (snd (delete_tree F k r)) q m = (if prefix k q then None else reg_val r q m)"
    and "reg_keys (snd (delete_tree F k r)) q = (\<not> prefix k q \<and> reg_keys r q)"
  using assms by (simp_all add: delete_tree_def reg_call_def Let_def)

lemma delete_trees_run:
  assumes "\<And>n. \<not> F n" and "\<And>k. k \<in> set ks \<Longrightarrow> reg_keys r k" and "\<And>k k'. k \<in> set ks \<Longrightarrow> k' \<in> set ks \<Longrightarrow> prefix k k' \<Longrightarrow> k = k'"
    and "distinct ks"
  shows "reg_val (delete_trees F ks r) q m = (if \<exists>k \<in> set ks. prefix k q then None else reg_val r q m)"
  using assms(2-)
proof (induction ks arbitrary: r)
  case (Cons k ks)
  let ?r1 = "snd (delete_tree F k r)"
  have k: "reg_keys r k" "\<not> F (reg_tick r)" using Cons.prems(1) assms(1) by simp_all
  note runs = delete_tree_runs [where F = F and r = r and k = k, OF k(2,1)]
  have "reg_keys ?r1 k'" if "k' \<in> set ks" for k'
    using that Cons.prems runs(2) [of k'] by auto
  then have "reg_val (delete_trees F ks ?r1) q m = (if \<exists>k \<in> set ks. prefix k q then None else reg_val ?r1 q m)"
    using Cons.prems by (intro Cons.IH) auto
  then show ?case using runs(1) by auto
qed simp

text \<open>Every key of the integration is one of the four trees, which lie apart.\<close>

lemma own_keys_apart: "k \<in> set own_keys \<Longrightarrow> k' \<in> set own_keys \<Longrightarrow> prefix k k' \<Longrightarrow> k = k'" "distinct own_keys"
  by (auto simp: own_keys_def)

lemma own_values_below: "(k, m) \<in> set own_values \<Longrightarrow> \<exists>d \<in> set own_keys. prefix d k"
  by (auto simp: own_values_def registration_def own_keys_def Let_def)

lemma own_keys_registered: "registered exe r \<Longrightarrow> k \<in> set own_keys \<Longrightarrow> reg_keys r k"
  by (auto simp: registered_def registration_def own_keys_def Let_def)

lemma unregister_runs:
  assumes "\<And>n. \<not> F n" and "registered exe r"
  shows "reg_val (unregister F r) k m = (if \<exists>d \<in> set own_keys. prefix d k then None else reg_val r k m)"
  unfolding unregister_def
  by (rule delete_trees_run [where F = F, OF assms(1) own_keys_registered [OF assms(2)] own_keys_apart])

lemma register_if_needed_registers:
  assumes F: "\<And>n. \<not> F n" and fits: "fits exe"
    and known: "fst (read_registered_exe F r) = Some exe \<Longrightarrow> registered exe r"
  shows "registered exe (register_if_needed F exe r)"
proof (cases rule: register_if_needed_cases [of F exe r])
  case (registers r1)
  then show ?thesis using register_runs [where F = F, OF F] by simp
next
  case idle
  with known show ?thesis using registered_cong by blast
qed

lemma register_if_needed_elsewhere:
  "(k, m) \<notin> set own_values \<Longrightarrow> reg_val (register_if_needed F exe r) k m = reg_val r k m"
  by (cases rule: register_if_needed_cases [of F exe r])
     (use register_outcome(3) [OF prod.collapse [symmetric]] in simp_all)

text \<open>A registered executable that is read back is the one that was registered.\<close>

lemma registered_read:
  assumes "\<And>n. \<not> F n" and "registered exe r" and "fits exe" and "fst (read_registered_exe F r) = Some exe'"
  shows "exe' = exe"
  using read_registered_exe_runs(2) [where F = F, OF assms(1-3)] assms(4) by simp

text \<open>What the two checks say of a registry whose executable was written by \<open>register\<close>, or is absent.\<close>

definition verb_key :: regkey where
  "verb_key = [''Software'', ''Classes'', ''FolderVault.Container'', ''shell'', ''FolderVault.Delete'', ''command'']"

lemma checks_find:
  assumes F: "\<And>n. \<not> F n"
  shows "reg_val r exe_key (Some ''RegisteredExe'') = Some (wide old) \<Longrightarrow> fits old \<Longrightarrow> fst (read_registered_exe F r) = Some old"
    and "fst (delete_verb_present F r) \<longleftrightarrow> reg_val r verb_key None \<noteq> None"
  using F by (simp_all add: read_registered_exe_def delete_verb_present_def get_value_def reg_call_def Let_def exe_key_def
      verb_key_def wide_def fits_def utf16_roundtrip_all split: option.split)

definition exe_known :: "uchar list \<Rightarrow> registry \<Rightarrow> bool" where
  "exe_known exe r \<longleftrightarrow> reg_val r exe_key (Some ''RegisteredExe'') = None
     \<or> (\<exists>old. fits old \<and> reg_val r exe_key (Some ''RegisteredExe'') = Some (wide old))"

lemma register_if_needed_decides:
  assumes F: "\<And>n. \<not> F n" and known: "exe_known exe r" and fits: "fits exe"
  shows "reg_val r exe_key (Some ''RegisteredExe'') = Some (wide exe) \<and> reg_val r verb_key None \<noteq> None \<Longrightarrow>
      reg_val (register_if_needed F exe r) = reg_val r \<and> reg_keys (register_if_needed F exe r) = reg_keys r"
    and "\<not> (reg_val r exe_key (Some ''RegisteredExe'') = Some (wide exe) \<and> reg_val r verb_key None \<noteq> None) \<Longrightarrow>
      registered exe (register_if_needed F exe r)"
proof -
  let ?r1 = "snd (read_registered_exe F r)"
  have same: "reg_val ?r1 = reg_val r" by (rule checks_same)
  note find = checks_find [where F = F, OF F] and none = read_registered_exe_runs(1) [where F = F, OF F, of r]
  have read: "fst (read_registered_exe F r) = Some exe \<longleftrightarrow> reg_val r exe_key (Some ''RegisteredExe'') = Some (wide exe)"
    using known none find(1) [of r] fits unfolding exe_known_def by (metis option.inject option.distinct(1))
  have verb: "fst (delete_verb_present F ?r1) \<longleftrightarrow> reg_val r verb_key None \<noteq> None"
    unfolding find(2) same by (rule refl)
  note eq = register_if_needed_eq [of F exe r, unfolded Let_def read verb]
  show "reg_val (register_if_needed F exe r) = reg_val r \<and> reg_keys (register_if_needed F exe r) = reg_keys r"
    if "reg_val r exe_key (Some ''RegisteredExe'') = Some (wide exe) \<and> reg_val r verb_key None \<noteq> None"
    using eq read that checks_same by simp
  show "registered exe (register_if_needed F exe r)"
    if "\<not> (reg_val r exe_key (Some ''RegisteredExe'') = Some (wide exe) \<and> reg_val r verb_key None \<noteq> None)"
    using eq read that register_runs [where F = F, OF F] by (auto split: if_splits)
qed

section \<open>Properties\<close>


definition empty_registry :: registry where
  "empty_registry = \<lparr>reg_keys = (\<lambda>_. False), reg_val = (\<lambda>_ _. None), reg_tick = 0\<rparr>"

text \<open>What a version without the delete verb has registered, as far as the checks look.\<close>

definition older_registry :: "uchar list \<Rightarrow> registry" where
  "older_registry exe = empty_registry\<lparr>reg_val := (\<lambda>k m. if k = exe_key \<and> m = Some ''RegisteredExe'' then Some (wide exe) else None)\<rparr>"

lemma lit_fits: "length s < 16384 \<Longrightarrow> fits (lit s)"
proof -
  have "length (encode_utf16 (lit s)) \<le> 2 * length s"
  proof (induction s)
    case (Cons c s)
    have "length (utf16_char x) \<le> 2" for x by (simp add: utf16_char_def Let_def)
    from this [of "word_of_nat (of_char c)"] Cons show ?case by (simp add: lit_def)
  qed (simp add: lit_def)
  then show "length s < 16384 \<Longrightarrow> fits (lit s)" by (simp add: fits_def lit_scalar)
qed


end
