(* ===== verification/App.thy ===== *)
theory App
  imports Dialog Registry
begin

text \<open>
  \<open>crates/vault-app/src/main.rs\<close>: the GUI program from its start to its end. It shows dialogs one
  after the other; what happens in \<open>run_dialog\<close> is a parameter of type \<open>dialogs\<close>, and \<open>dialogs_ok\<close>
  ties it to the dialog of \<open>Dialog\<close>: every call is one of its runs. Message boxes are recorded in
  the order they are shown.
\<close>

section \<open>The code\<close>

datatype alert = NoDataDir io_kind | NoRegistration | NoMasterKey io_kind

record desktop =
  k_world :: world
  k_registry :: registry
  k_boxes :: "alert list"

type_synonym dialogs = "mode \<Rightarrow> byte list \<Rightarrow> byte list option \<Rightarrow> world \<Rightarrow> bool \<times> world"

definition msgbox :: "alert \<Rightarrow> desktop \<Rightarrow> desktop" where
  "msgbox a d = d\<lparr>k_boxes := k_boxes d @ [a]\<rparr>"

definition run_dialog :: "dialogs \<Rightarrow> mode \<Rightarrow> byte list \<Rightarrow> byte list option \<Rightarrow> desktop \<Rightarrow> bool \<times> desktop" where
  "run_dialog ui m hmac_key master_pub d =
     (case ui m hmac_key master_pub (k_world d) of (b, w) \<Rightarrow> (b, d\<lparr>k_world := w\<rparr>))"

definition host_master_pub :: "host \<Rightarrow> desktop \<Rightarrow> byte list option \<times> desktop" where
  "host_master_pub H d =
     (case load_master_pub (host_platform H) (host_os H) (host_dir H) (k_world d) of
        (p, w) \<Rightarrow> (p, d\<lparr>k_world := w\<rparr>))"

definition try_register :: "(nat \<Rightarrow> bool) \<Rightarrow> uchar list \<Rightarrow> desktop \<Rightarrow> desktop" where
  "try_register F exe d =
     (case register F exe (k_registry d) of
        (Inl _, r) \<Rightarrow> msgbox NoRegistration (d\<lparr>k_registry := r\<rparr>)
      | (Inr _, r) \<Rightarrow> d\<lparr>k_registry := r\<rparr>)"

definition run_setup ::
  "host \<Rightarrow> (nat \<Rightarrow> bool) \<Rightarrow> dialogs \<Rightarrow> uchar list \<Rightarrow> byte list \<Rightarrow> desktop \<Rightarrow> byte list option \<times> desktop" where
  "run_setup H F ui exe hmac_key d =
     (case host_master_pub H (try_register F exe d) of
        (Some existing, d) \<Rightarrow> (Some existing, d)
      | (None, d) \<Rightarrow>
          (case generate_master (host_crypto H) (w_rng (k_world d)) of (pair, r) \<Rightarrow>
             (case run_dialog ui (SetupMode (mk_code pair)) hmac_key None (d\<lparr>k_world := (k_world d)\<lparr>w_rng := r\<rparr>\<rparr>) of
                (confirmed, d) \<Rightarrow>
                  if \<not> confirmed then (None, d)
                  else (case save_master_pub (host_platform H) (host_os H) (host_dir H) (mk_public pair) (k_world d) of
                          (Inl e, w) \<Rightarrow> (None, msgbox (NoMasterKey e) (d\<lparr>k_world := w\<rparr>))
                        | (Inr _, w) \<Rightarrow> (Some (mk_public pair), d\<lparr>k_world := w\<rparr>)))))"

definition heal_registration :: "(nat \<Rightarrow> bool) \<Rightarrow> uchar list \<Rightarrow> desktop \<Rightarrow> desktop" where
  "heal_registration F exe d = d\<lparr>k_registry := register_if_needed F exe (k_registry d)\<rparr>"

text \<open>The master key a lock uses: the enrolled one, or the one that setup enrols now.\<close>

definition ensure_master_pub ::
  "host \<Rightarrow> (nat \<Rightarrow> bool) \<Rightarrow> dialogs \<Rightarrow> uchar list \<Rightarrow> byte list \<Rightarrow> desktop \<Rightarrow> byte list option \<times> desktop" where
  "ensure_master_pub H F ui exe hmac_key d =
     (case host_master_pub H d of
        (Some p, d) \<Rightarrow> (Some p, d)
      | (None, d) \<Rightarrow> run_setup H F ui exe hmac_key d)"

definition app_command ::
  "host \<Rightarrow> (nat \<Rightarrow> bool) \<Rightarrow> dialogs \<Rightarrow> uchar list \<Rightarrow> byte list \<Rightarrow> uchar list list \<Rightarrow> desktop \<Rightarrow> desktop" where
  "app_command H F ui exe hmac_key args d =
     (let verb = (case args of [] \<Rightarrow> [] | v # _ \<Rightarrow> v);
          operand = (case args of _ # p # _ \<Rightarrow> Some (host_path H p) | _ \<Rightarrow> None)
      in if verb = lit ''lock'' \<and> operand \<noteq> None
         then (case ensure_master_pub H F ui exe hmac_key (heal_registration F exe d) of
                 (master_pub, d) \<Rightarrow> snd (run_dialog ui (LockMode (the operand)) hmac_key master_pub d))
         else if verb = lit ''open'' \<and> operand \<noteq> None
         then snd (run_dialog ui (UnlockMode (the operand)) hmac_key None (heal_registration F exe d))
         else if verb = lit ''delete'' \<and> operand \<noteq> None
         then snd (run_dialog ui (DeleteMode (the operand)) hmac_key None (heal_registration F exe d))
         else if verb = lit ''unregister'' then d\<lparr>k_registry := unregister F (k_registry d)\<rparr>
         else snd (run_setup H F ui exe hmac_key d))"

definition app_main ::
  "host \<Rightarrow> (nat \<Rightarrow> bool) \<Rightarrow> dialogs \<Rightarrow> uchar list \<Rightarrow> uchar list list \<Rightarrow> desktop \<Rightarrow> desktop" where
  "app_main H F ui exe args d =
     (case start_up H (k_world d) of
        (Inl e, w) \<Rightarrow> msgbox (NoDataDir e) (d\<lparr>k_world := w\<rparr>)
      | (Inr (hmac_key, _, _), w) \<Rightarrow> app_command H F ui exe hmac_key args (d\<lparr>k_world := w\<rparr>))"

section \<open>The setup dialog\<close>

text \<open>
  Every result of \<open>run_dialog\<close> is the end of a run of the dialog, or the window could not be created.
\<close>

definition dialogs_ok :: "host \<Rightarrow> (nat \<Rightarrow> bool) \<Rightarrow> dialogs \<Rightarrow> bool" where
  "dialogs_ok H dp ui \<longleftrightarrow> (\<forall>m key pub w. ui m key pub w = (False, w)
     \<or> (\<exists>now (s :: dialog). reach H dp (opened H now m key pub w) s \<and> \<not> a_alive (d_app s)
          \<and> ui m key pub w = (a_succeeded (d_app s), d_world s)))"

text \<open>The setup dialog shows its code for as long as it is open, and starts no worker.\<close>

definition shows_code :: "uchar list \<Rightarrow> app \<Rightarrow> bool" where
  "shows_code code app \<longleftrightarrow> a_mode app = SetupMode code \<and> a_phase app = Input \<and> a_job app = None \<and> \<not> a_master_mode app
     \<and> (\<exists>e. a_edit app = Some e \<and> e_text e = encode_utf16 code \<and> e_visible e)
     \<and> (a_clipboard app = None \<or> a_clipboard app = Some code)"

lemma setup_opens:
  "shows_code code (d_app (opened H now (SetupMode code) key pub w))"
  "d_world (opened H now (SetupMode code) key pub w) = w" "d_queue (opened H now (SetupMode code) key pub w) = []"
  by (simp_all add: opened_def on_create_def new_app_def shows_code_def set_status_def mk_edit_def)

lemma setup_message:
  assumes "shows_code code app" and "from_outside m"
  shows "shows_code code (wndproc dp now m app)"
    and "a_alive app \<Longrightarrow> a_succeeded (wndproc dp now m app) \<Longrightarrow> \<not> a_succeeded app \<Longrightarrow> m = Command ID_PRIMARY"
  using assms
  by (auto simp: shows_code_def wndproc_def from_outside_def on_primary_def on_toggle_master_def on_toggle_reveal_def
      on_timer_def update_countdown_def app_ops Let_def split: msg.splits if_splits)

text \<open>How a run of the setup dialog goes: the machine stays as it is, and only the button confirms.\<close>

definition confirmed_by :: "host \<Rightarrow> (nat \<Rightarrow> bool) \<Rightarrow> dialog \<Rightarrow> uchar list \<Rightarrow> dialog \<Rightarrow> bool" where
  "confirmed_by H dp s0 code s \<longleftrightarrow> (\<exists>(s1 :: dialog) t. reach H dp s0 s1 \<and> a_alive (d_app s1) \<and> shows_code code (d_app s1)
     \<and> dstep H dp s1 (UserMsg t (Command ID_PRIMARY)) s)"

lemma setup_run:
  assumes "reach H dp (opened H now (SetupMode code) key pub w) s"
  shows "shows_code code (d_app s) \<and> d_world s = w \<and> d_queue s = []
    \<and> (a_succeeded (d_app s) \<longrightarrow> confirmed_by H dp (opened H now (SetupMode code) key pub w) code s)"
  using assms
proof (induction rule: reach.induct)
  case start
  show ?case using setup_opens by (simp add: opened_params)
next
  case (step s ev s')
  let ?s0 = "opened H now (SetupMode code) key pub w"
  have ok: "shows_code code (d_app s)" "d_world s = w" "d_queue s = []" using step.IH by simp_all
  from step.hyps(2) show ?case
  proof (cases rule: dstep.cases)
    case (message m t)
    have "\<not> a_succeeded (d_app s)"
      using reach_truthful [OF step.hyps(1) counts_ok_lock(2)] message by (simp add: dialog_inv_def)
    then have "confirmed_by H dp ?s0 code s'" if "a_succeeded (d_app s')"
      using that message setup_message(2) [OF ok(1), of m dp t] step.hyps ok(1)
      unfolding confirmed_by_def by (intro exI [of _ s] exI [of _ t]) auto
    then show ?thesis using message ok setup_message(1) by simp
  next
    case (typing confirm x)
    with ok(1) show ?thesis by (auto simp: shows_code_def)
  next
    case (working j t)
    with ok(1) show ?thesis by (simp add: shows_code_def)
  next
    case (delivery m q t)
    with ok(3) show ?thesis by simp
  qed
qed
section \<open>The enrolled key\<close>

definition master_file :: "path \<Rightarrow> path" where
  "master_file base = base @ [''master.pub'']"

definition enrolled :: "platform \<Rightarrow> path \<Rightarrow> byte list \<Rightarrow> world \<Rightarrow> bool" where
  "enrolled P base pub w \<longleftrightarrow> length pub = 32
     \<and> (\<exists>d. lookup w (master_file base) = Some (File d) \<and> open_protected P (f_content d) = Inr (Some pub))"

lemma load_master_pub_found:
  assumes "load_master_pub P E base w = (Some pub, w')"
  shows "enrolled P base pub w"
proof -
  obtain x w1 where x: "read_protected P E (base @ [''master.pub'']) w = (x, w1)" by fastforce
  show ?thesis
    using assms x read_protected_same(2) [OF x]
    by (auto simp: load_master_pub_def enrolled_def master_file_def split: sum.splits option.splits if_splits)
qed

lemma load_enrolled:
  assumes "no_fail E" and "enrolled P base pub w"
  shows "fst (load_master_pub P E base w) = Some pub"
  using assms read_protected_runs [OF assms(1)]
  by (auto simp: load_master_pub_def enrolled_def master_file_def)

lemma enrolled_cong: "lookup w' (master_file base) = lookup w (master_file base) \<Longrightarrow> enrolled P base pub w' = enrolled P base pub w"
  by (simp add: enrolled_def)

lemma save_enrols:
  assumes "save_master_pub P E base pub w = (Inr u, w')" and "platform_ok P" and "length pub = 32"
  shows "enrolled P base pub w'"
proof -
  obtain w1 u1 where "write_protected P E (base @ [''master.pub'']) pub w1 = (Inr u1, w')"
    using assms(1) by (auto simp: save_master_pub_def bindE_Inr_iff)
  from write_protected_Inr [OF this] open_protected_written [OF assms(2), of pub] assms(3) show ?thesis
    by (auto simp: enrolled_def master_file_def)
qed

lemma save_touches: "keeps (changes_only (\<lambda>q. prefix q (master_file base))) (save_master_pub P E base pub)"
proof -
  have "keeps (changes_only (\<lambda>q. prefix q (master_file base))) (write_protected P E (base @ [''master.pub'']) pub)"
  proof (cases "protect P pub")
    case None
    have "keeps (changes_only (\<lambda>q. prefix q (master_file base))) (throwE OtherIo)" by (intro keeps_intros touches)
    with None show ?thesis by (simp add: write_protected_def)
  next
    case (Some b)
    have "keeps (changes_only (\<lambda>q. prefix q (master_file base))) (write_file E (base @ [''master.pub'']) (DPAPI_MAGIC @ b))"
      by (rule write_file_touches) (simp add: master_file_def)
    with Some show ?thesis by (simp add: write_protected_def)
  qed
  moreover have "keeps (changes_only (\<lambda>q. prefix q (master_file base))) (create_dir_all E base)"
    by (rule create_dir_all_touches) (simp add: master_file_def)
  ultimately show ?thesis unfolding save_master_pub_def by (intro keeps_bindE) (auto intro: preorder_changes)
qed

text \<open>What a run of the setup does, seen from outside.\<close>

lemma try_register_world: "k_world (try_register F exe d) = k_world d"
  by (simp add: try_register_def msgbox_def split: prod.split sum.split)

text \<open>The dialog that was asked about \<open>code\<close> in the world \<open>w\<close> was confirmed, and that run is its result.\<close>

definition asked_and_confirmed :: "host \<Rightarrow> (nat \<Rightarrow> bool) \<Rightarrow> dialogs \<Rightarrow> uchar list \<Rightarrow> byte list \<Rightarrow> world \<Rightarrow> bool" where
  "asked_and_confirmed H dp ui code key w \<longleftrightarrow> (\<exists>now (s :: dialog). confirmed_by H dp (opened H now (SetupMode code) key None w) code s
     \<and> \<not> a_alive (d_app s) \<and> a_succeeded (d_app s) \<and> ui (SetupMode code) key None w = (True, d_world s))"

lemma setup_dialog:
  assumes "dialogs_ok H dp ui"
  obtains b where "ui (SetupMode code) key None w = (b, w)" and "b \<Longrightarrow> asked_and_confirmed H dp ui code key w"
proof -
  obtain b w2 where u: "ui (SetupMode code) key None w = (b, w2)" by fastforce
  consider (no_window) "b = False" "w2 = w"
    | (runs) now and s :: dialog where "reach H dp (opened H now (SetupMode code) key None w) s"
        "\<not> a_alive (d_app s)" "b = a_succeeded (d_app s)" "w2 = d_world s"
    using assms [unfolded dialogs_ok_def, rule_format, of "SetupMode code" key None w]
    unfolding u prod.inject by blast
  then show ?thesis
  proof cases
    case no_window
    with u that show ?thesis by blast
  next
    case (runs now s)
    note run = setup_run [OF runs(1)]
    then have u': "ui (SetupMode code) key None w = (b, w)" using u runs(4) by simp
    have "asked_and_confirmed H dp ui code key w" if b
      using run runs that u unfolding asked_and_confirmed_def by (intro exI [of _ now] exI [of _ s]) simp
    with u' that show ?thesis by blast
  qed
qed

lemma run_setup_cases:
  assumes "run_setup H F ui exe key d = (r, d')" and ui: "dialogs_ok H dp ui" and "fst (host_master_pub H d) = None"
  obtains pair rng w b where "generate_master (host_crypto H) (w_rng (k_world d)) = (pair, rng)"
    and "w = (k_world d)\<lparr>w_tick := Suc (w_tick (k_world d)), w_rng := rng\<rparr>"
    and "ui (SetupMode (mk_code pair)) key None w = (b, w)"
    and "b \<Longrightarrow> asked_and_confirmed H dp ui (mk_code pair) key w"
    and "\<not> b \<and> r = None \<and> k_world d' = w \<and> k_boxes d' = k_boxes (try_register F exe d)
       \<or> b \<and> (\<exists>e. r = None \<and> k_boxes d' = k_boxes (try_register F exe d) @ [NoMasterKey e]
            \<and> save_master_pub (host_platform H) (host_os H) (host_dir H) (mk_public pair) w = (Inl e, k_world d'))
       \<or> b \<and> r = Some (mk_public pair) \<and> k_boxes d' = k_boxes (try_register F exe d)
         \<and> save_master_pub (host_platform H) (host_os H) (host_dir H) (mk_public pair) w = (Inr (), k_world d')"
proof -
  let ?w1 = "(k_world d)\<lparr>w_tick := Suc (w_tick (k_world d))\<rparr>"
  obtain x w1 where x: "load_master_pub (host_platform H) (host_os H) (host_dir H) (k_world d) = (x, w1)" by fastforce
  have w1: "w1 = ?w1" using load_master_pub_same [OF x] .
  have "x = None" using assms(3) x by (simp add: host_master_pub_def)
  with x w1 have l: "host_master_pub H (try_register F exe d) = (None, (try_register F exe d)\<lparr>k_world := ?w1\<rparr>)"
    by (simp add: host_master_pub_def try_register_world)
  obtain pair rng where g: "generate_master (host_crypto H) (w_rng (k_world d)) = (pair, rng)" by fastforce
  let ?w = "?w1\<lparr>w_rng := rng\<rparr>"
  obtain b where u: "ui (SetupMode (mk_code pair)) key None ?w = (b, ?w)"
    and c: "b \<Longrightarrow> asked_and_confirmed H dp ui (mk_code pair) key ?w"
    using setup_dialog [OF ui] by metis
  let ?D = "(try_register F exe d)\<lparr>k_world := ?w\<rparr>"
  obtain sv w2 where save: "save_master_pub (host_platform H) (host_os H) (host_dir H) (mk_public pair) ?w = (sv, w2)" by fastforce
  have run: "run_setup H F ui exe key d = (if \<not> b then (None, ?D)
      else case sv of Inl e \<Rightarrow> (None, msgbox (NoMasterKey e) (?D\<lparr>k_world := w2\<rparr>))
           | Inr _ \<Rightarrow> (Some (mk_public pair), ?D\<lparr>k_world := w2\<rparr>))"
    unfolding run_setup_def l prod.case option.case by (simp add: g u save run_dialog_def)
  have "\<not> b \<and> r = None \<and> k_world d' = ?w \<and> k_boxes d' = k_boxes (try_register F exe d)
       \<or> b \<and> (\<exists>e. r = None \<and> k_boxes d' = k_boxes (try_register F exe d) @ [NoMasterKey e] \<and> (sv, w2) = (Inl e, k_world d'))
       \<or> b \<and> r = Some (mk_public pair) \<and> k_boxes d' = k_boxes (try_register F exe d) \<and> (sv, w2) = (Inr (), k_world d')"
    using assms(1) unfolding run by (cases b; cases sv) (auto simp: msgbox_def)
  then show ?thesis by (intro that [OF g refl u c]) (simp_all only: save)
qed

lemma length_master_public: "dh_laws cr \<Longrightarrow> length (mk_public (fst (generate_master cr r))) = 32"
  by (simp add: generate_master_def fill_bytes_def dh_laws_def)

text \<open>
  The dialog of a lock is opened with a key only if that key is on disk at that moment: a folder is
  never sealed to a recovery key that a later start would not find.
\<close>

lemma ensure_master_pub_enrolled:
  assumes "ensure_master_pub H F ui exe key d = (Some p, d')" and "dialogs_ok H dp ui" and "platform_ok (host_platform H)"
    and "dh_laws (host_crypto H)"
  shows "enrolled (host_platform H) (host_dir H) p (k_world d')"
proof -
  have found: "enrolled (host_platform H) (host_dir H) q (k_world d2)" if "host_master_pub H d1 = (Some q, d2)" for q d1 d2
  proof -
    obtain x w where x: "load_master_pub (host_platform H) (host_os H) (host_dir H) (k_world d1) = (x, w)" by fastforce
    with that have q: "x = Some q" "k_world d2 = w" by (auto simp: host_master_pub_def)
    have "lookup w (master_file (host_dir H)) = lookup (k_world d1) (master_file (host_dir H))"
      by (simp add: load_master_pub_same [OF x])
    with load_master_pub_found [OF x [unfolded q(1)]] q(2) show ?thesis by (simp add: enrolled_def)
  qed
  obtain y d1 where y: "host_master_pub H d = (y, d1)" by fastforce
  show ?thesis
  proof (cases y)
    case (Some q)
    with assms(1) y found show ?thesis by (auto simp: ensure_master_pub_def)
  next
    case None
    with assms(1) y have r: "run_setup H F ui exe key d1 = (Some p, d')" by (simp add: ensure_master_pub_def)
    show ?thesis
    proof (cases "fst (host_master_pub H d1)")
      case None
      show ?thesis
      proof (rule run_setup_cases [OF r assms(2) None])
        fix pair rng w b
        assume g: "generate_master (host_crypto H) (w_rng (k_world d1)) = (pair, rng)"
          and out: "\<not> b \<and> Some p = None \<and> k_world d' = w \<and> k_boxes d' = k_boxes (try_register F exe d1)
       \<or> b \<and> (\<exists>e. Some p = None \<and> k_boxes d' = k_boxes (try_register F exe d1) @ [NoMasterKey e]
            \<and> save_master_pub (host_platform H) (host_os H) (host_dir H) (mk_public pair) w = (Inl e, k_world d'))
       \<or> b \<and> Some p = Some (mk_public pair) \<and> k_boxes d' = k_boxes (try_register F exe d1)
         \<and> save_master_pub (host_platform H) (host_os H) (host_dir H) (mk_public pair) w = (Inr (), k_world d')"
        have "length (mk_public pair) = 32" using length_master_public [OF assms(4)] g by (metis fst_conv)
        with save_enrols [OF _ assms(3)] out show ?thesis by auto
      qed
    next
      case (Some q)
      obtain x w where x: "load_master_pub (host_platform H) (host_os H) (host_dir H) (k_world d1) = (x, w)" by fastforce
      with Some r have "host_master_pub H (try_register F exe d1) = (Some p, d')"
        by (auto simp: run_setup_def host_master_pub_def try_register_world)
      then show ?thesis by (rule found)
    qed
  qed
qed

section \<open>Property\<close>


text \<open>A user who presses the button of the setup dialog and closes every other one.\<close>

definition eager :: "host \<Rightarrow> dialogs" where
  "eager H m key pub w =
     (let s = opened H 0 m key pub w;
          app = wndproc (\<lambda>n. n = 16) 0 (Command (case m of SetupMode _ \<Rightarrow> ID_PRIMARY | _ \<Rightarrow> ID_CLOSE)) (d_app s)
      in (a_succeeded app, d_world s))"

lemma opened_alive: "a_alive (d_app (opened H now m key pub w))"
  by (auto simp: opened_def on_create_def new_app_def set_status_def show_header_worker Let_def
      split: mode.split prod.split sum.split)

lemma eager_ok: "dialogs_ok H (\<lambda>n. n = 16) (eager H)"
  unfolding dialogs_ok_def
proof (intro allI)
  fix m key pub w
  let ?opened = "opened H 0 m key pub w"
  let ?m = "Command (case m of SetupMode _ \<Rightarrow> ID_PRIMARY | _ \<Rightarrow> ID_CLOSE)"
  let ?s = "?opened\<lparr>d_app := wndproc (\<lambda>n. n = 16) 0 ?m (d_app ?opened)\<rparr>"
  have "dstep H (\<lambda>n. n = 16) ?opened (UserMsg 0 ?m) ?s"
    using dstep.message [OF opened_alive, where m = ?m and dp = "\<lambda>n. n = 16"] by (simp add: from_outside_def)
  then have "reach H (\<lambda>n. n = 16) ?opened ?s" by (rule reach.step [OF reach.start])
  moreover have "\<not> a_alive (d_app ?s)"
  proof (cases "\<exists>code. m = SetupMode code")
    case True
    then obtain code where "m = SetupMode code" by blast
    then show ?thesis
      using setup_opens(1) [of code H 0 key pub w]
      by (simp add: wndproc_def on_primary_def shows_code_def destroy_def)
  next
    case False
    then show ?thesis
      using opened_params(7) [of H 0 m key pub w]
      by (simp add: wndproc_def destroy_def ID_PRIMARY_def ID_CLOSE_def split: mode.split)
  qed
  moreover have "eager H m key pub w = (a_succeeded (d_app ?s), d_world ?s)" by (simp add: eager_def Let_def)
  ultimately show "eager H m key pub w = (False, w) \<or> (\<exists>now (s :: dialog). reach H (\<lambda>n. n = 16) (opened H now m key pub w) s
      \<and> \<not> a_alive (d_app s) \<and> eager H m key pub w = (a_succeeded (d_app s), d_world s))" by blast
qed

definition first_desktop :: desktop where
  "first_desktop = \<lparr>k_world = sample_world, k_registry = empty_registry, k_boxes = []\<rparr>"

lemma dialog_host_dir: "host_dir dialog_host = [''k'']"
  by (simp add: host_dir_def data_dir_def dialog_host_def)

lemma first_save:
  obtains w' where "save_master_pub NonWindows calm [''k''] pub (sample_world\<lparr>w_tick := t, w_rng := r\<rparr>) = (Inr (), w')"
proof -
  let ?w = "sample_world\<lparr>w_tick := t, w_rng := r\<rparr>"
  have L: "lookup ?w q = get sample_fs q" "lookup sample_world q = get sample_fs q" for q
    by (simp_all add: lookup_def sample_world_def)
  have free: "lookup ?w q = None \<or> lookup ?w q = Some Dir" if "prefix q [''k'']" "q \<noteq> []" for q
    using that by (auto simp: L get_sample_fs prefix_Cons)
  obtain w1 where c: "create_dir_all calm [''k''] ?w = (Inr (), w1)"
    and at: "\<And>q. lookup w1 q = (if prefix q [''k''] \<and> q \<noteq> [] then Some Dir else lookup ?w q)"
    using create_dir_all_runs [OF no_fail_calm free] by metis
  have "lookup w1 [''k'', ''master.pub''] = None" "parent_is_dir w1 [''k'', ''master.pub'']"
    by (simp_all add: at L get_sample_fs parent_is_dir_def is_dir_path_def)
  then obtain w2 where f: "create_file calm [''k'', ''master.pub''] w1 = (Inr (), w2)"
    using calls_run(11) [OF no_fail_calm] by (auto simp: succeeds_def)
  obtain w3 where "append_file calm [''k'', ''master.pub''] (DPAPI_MAGIC @ pub) w2 = (Inr (), w3)"
    using calls_run(1) [OF no_fail_calm, of "[''k'', ''master.pub'']" "DPAPI_MAGIC @ pub" w2] by (auto simp: succeeds_def)
  with c f show ?thesis
    by (intro that [of w3]) (simp add: save_master_pub_def write_protected_def protect_def write_file_def bindE_def)
qed


end
