(* ===== verification/Shellext.thy ===== *)
theory Shellext
  imports Host Registry
begin

text \<open>
  \<open>crates/vault-shellext/src/lib.rs\<close>: the COM server that Explorer loads for the Windows 11 context
  menu. An object or a class factory is a value of its interface's datatype, an interface pointer
  written through \<open>ppv\<close> is a result; \<open>SHStrDupW\<close> and \<open>ShellExecuteW\<close> are taken to be called, their
  arguments are what is observed.
\<close>

section \<open>The module\<close>

type_synonym guid = "128 word"

definition CLSID_FOLDERVAULT_LOCK :: guid where
  "CLSID_FOLDERVAULT_LOCK = 0x7F9C2E144B3A4E2D9C7AA1B2C3D4E5F6"

datatype hresult = E_POINTER | E_NOINTERFACE | CLASS_E_CLASSNOTAVAILABLE | CLASS_E_NOAGGREGATION | OtherResult u32

text \<open>\<open>DLL_REFS\<close> is an \<open>AtomicUsize\<close>, whose \<open>fetch_add\<close> and \<open>fetch_sub\<close> wrap around.\<close>

definition dll_add_ref :: "u64 \<Rightarrow> u64" where
  "dll_add_ref refs = refs + 1"

definition dll_release :: "u64 \<Rightarrow> u64" where
  "dll_release refs = refs - 1"

text \<open>
  \<open>module_name\<close>: what \<open>GetModuleFileNameW\<close> leaves in the buffer for the module of this code, nothing
  when a call fails. The name is an absolute path; its directory is kept with the separator at its end.
\<close>

definition module_dir :: "u16 list option \<Rightarrow> uchar list option" where
  "module_dir module_name =
     (case module_name of
        None \<Rightarrow> None
      | Some buf \<Rightarrow>
          if buf = [] then None
          else Some (rev (dropWhile (\<lambda>c. c \<noteq> 92 \<and> c \<noteq> 47) (rev (utf16_lossy buf)))))"

definition foldervault_exe :: "host \<Rightarrow> u16 list option \<Rightarrow> world \<Rightarrow> uchar list option \<times> world" where
  "foldervault_exe H module_name w =
     (case module_dir module_name of
        None \<Rightarrow> (None, w)
      | Some d \<Rightarrow>
          (case path_exists (host_os H) (host_path H (d @ lit ''FolderVault.exe'')) w of
             (b, w) \<Rightarrow> (if b then Some (d @ lit ''FolderVault.exe'') else None, w)))"

section \<open>The command\<close>

definition GetTitle :: "hresult + u16 list" where
  "GetTitle = Inr (wide (lit ''Lock with FolderVault''))"

definition GetIcon :: "host \<Rightarrow> u16 list option \<Rightarrow> world \<Rightarrow> (hresult + u16 list) \<times> world" where
  "GetIcon H module_name w =
     (case foldervault_exe H module_name w of
        (Some exe, w) \<Rightarrow> (Inr (wide (exe @ lit '',-1'')), w)
      | (None, w) \<Rightarrow> (Inl E_POINTER, w))"

definition GetToolTip :: "hresult + u16 list" where
  "GetToolTip = Inl E_NOINTERFACE"

definition GetCanonicalName :: "hresult + guid" where
  "GetCanonicalName = Inr CLSID_FOLDERVAULT_LOCK"

definition ECS_ENABLED :: u32 where "ECS_ENABLED = 0"
definition ECS_DISABLED :: u32 where "ECS_DISABLED = 1"

text \<open>
  A selection: \<open>GetCount\<close>, and for item 0 \<open>GetItemAt\<close> with \<open>GetDisplayName(SIGDN_FILESYSPATH)\<close>, of
  which the first failure counts.
\<close>

record selection =
  s_count :: "hresult + nat"
  s_path :: "hresult + u16 list"

definition GetState :: "selection option \<Rightarrow> hresult + u32" where
  "GetState items =
     (case items of
        None \<Rightarrow> Inr ECS_DISABLED
      | Some s \<Rightarrow> if (case s_count s of Inr n \<Rightarrow> n | Inl _ \<Rightarrow> 0) \<noteq> 1 then Inr ECS_DISABLED else Inr ECS_ENABLED)"

text \<open>\<open>PWSTR::to_string\<close> refuses text that is not UTF-16; \<open>unwrap_or_default\<close> makes it empty.\<close>

definition utf16_strict :: "u16 list \<Rightarrow> uchar list option" where
  "utf16_strict u = (if encode_utf16 (utf16_lossy u) = u then Some (utf16_lossy u) else None)"

definition lock_params :: "u16 list \<Rightarrow> uchar list" where
  "lock_params path = lit ''lock '' @ quoted (case utf16_strict path of Some t \<Rightarrow> t | None \<Rightarrow> [])"

text \<open>The result carries what \<open>ShellExecuteW\<close> was called with, if it was called.\<close>

definition Invoke ::
  "host \<Rightarrow> u16 list option \<Rightarrow> selection option \<Rightarrow> world \<Rightarrow> (hresult + (u16 list \<times> u16 list) option) \<times> world" where
  "Invoke H module_name items w =
     (case items of
        None \<Rightarrow> (Inr None, w)
      | Some s \<Rightarrow>
          (case foldervault_exe H module_name w of
             (None, w) \<Rightarrow> (Inr None, w)
           | (Some exe, w) \<Rightarrow>
               (case s_path s of
                  Inl e \<Rightarrow> (Inl e, w)
                | Inr path \<Rightarrow> (Inr (Some (wide exe, wide (lock_params path))), w))))"

definition GetFlags :: "hresult + u32" where
  "GetFlags = Inr 0"

definition EnumSubCommands :: "hresult + unit" where
  "EnumSubCommands = Inl E_NOINTERFACE"

section \<open>Class factory and exports\<close>

datatype com_object = LockCommand | Factory

text \<open>\<open>qi\<close>: the interfaces an object of the \<open>windows\<close> crate answers for.\<close>

definition query :: "(com_object \<Rightarrow> guid \<Rightarrow> bool) \<Rightarrow> com_object \<Rightarrow> guid \<Rightarrow> hresult + com_object" where
  "query qi ob iid = (if qi ob iid then Inr ob else Inl E_NOINTERFACE)"

definition CreateInstance :: "(com_object \<Rightarrow> guid \<Rightarrow> bool) \<Rightarrow> bool \<Rightarrow> guid \<Rightarrow> hresult + com_object" where
  "CreateInstance qi outer iid = (if outer then Inl CLASS_E_NOAGGREGATION else query qi LockCommand iid)"

definition LockServer :: "bool \<Rightarrow> u64 \<Rightarrow> u64" where
  "LockServer lk refs = (if lk then dll_add_ref refs else dll_release refs)"

definition DllGetClassObject :: "(com_object \<Rightarrow> guid \<Rightarrow> bool) \<Rightarrow> bool \<Rightarrow> guid \<Rightarrow> guid \<Rightarrow> hresult + com_object" where
  "DllGetClassObject qi ppv_null rclsid riid =
     (if ppv_null then Inl E_POINTER
      else if rclsid \<noteq> CLSID_FOLDERVAULT_LOCK then Inl CLASS_E_CLASSNOTAVAILABLE
      else query qi Factory riid)"

definition DllCanUnloadNow :: "u64 \<Rightarrow> bool" where
  "DllCanUnloadNow refs \<longleftrightarrow> refs = 0"

section \<open>What they do\<close>

text \<open>Only \<open>LockServer\<close> counts: balanced calls let the module go, whatever objects are alive.\<close>

lemma unload_after_locks:
  "DllCanUnloadNow (fold LockServer ls 0)
     \<longleftrightarrow> (word_of_nat (length (filter id ls)) :: u64) = word_of_nat (length (filter Not ls))"
proof -
  have "fold LockServer ls refs = refs + word_of_nat (length (filter id ls)) - word_of_nat (length (filter Not ls))" for refs
    by (induction ls arbitrary: refs) (simp_all add: LockServer_def dll_add_ref_def dll_release_def)
  then show ?thesis by (simp add: DllCanUnloadNow_def)
qed

text \<open>A factory for the registered class only, and from it the command.\<close>

lemma class_object_Inr:
  "DllGetClassObject qi ppv_null c i = Inr ob \<longleftrightarrow> \<not> ppv_null \<and> c = CLSID_FOLDERVAULT_LOCK \<and> qi Factory i \<and> ob = Factory"
  by (auto simp: DllGetClassObject_def query_def)

lemma foldervault_exe_outcome:
  assumes "foldervault_exe H mn w = (r, w')"
  shows "\<forall>q. lookup w' q = lookup w q"
    and "r = Some exe \<Longrightarrow> exists_path w (host_path H exe) \<and> (\<exists>d. module_dir mn = Some d \<and> exe = d @ lit ''FolderVault.exe'')"
  using assms by (auto simp: foldervault_exe_def path_exists_def split: option.splits if_splits)

text \<open>The command starts at most one program, which exists next to the module, and changes no file itself.\<close>

lemma Invoke_outcome:
  assumes "Invoke H mn items w = (r, w')"
  shows "\<forall>q. lookup w' q = lookup w q"
    and "r = Inr (Some (prog, params)) \<Longrightarrow>
      \<exists>s exe path. items = Some s \<and> s_path s = Inr path \<and> exists_path w (host_path H exe)
        \<and> prog = wide exe \<and> params = wide (lock_params path)"
proof -
  obtain x w1 where x: "foldervault_exe H mn w = (x, w1)" by fastforce
  show "\<forall>q. lookup w' q = lookup w q"
    using assms x foldervault_exe_outcome(1) [OF x] by (auto simp: Invoke_def split: option.splits sum.splits)
  show "r = Inr (Some (prog, params)) \<Longrightarrow>
      \<exists>s exe path. items = Some s \<and> s_path s = Inr path \<and> exists_path w (host_path H exe)
        \<and> prog = wide exe \<and> params = wide (lock_params path)"
    using assms x foldervault_exe_outcome(2) [OF x] by (auto simp: Invoke_def split: option.splits sum.splits)
qed

text \<open>Scalar values survive the strict conversion; a path with a lone surrogate becomes empty.\<close>

lemma lock_params_text: "list_all scalar t \<Longrightarrow> lock_params (encode_utf16 t) = lit ''lock '' @ quoted t"
  by (simp add: lock_params_def utf16_strict_def utf16_roundtrip_all)

lemma lock_params_not_unicode: "lock_params [0xD800] = lit ''lock '' @ quoted []"
  by (simp add: lock_params_def utf16_strict_def high_surrogate_def utf16_char_def Let_def)

end
