(* ===== verification/Launch.thy ===== *)
theory Launch
  imports App Shellext
begin

text \<open>
  How a folder chosen in Explorer reaches the program: the commands that \<open>shell.rs\<close> registers and
  the one that \<open>Invoke\<close> starts become command lines, which \<open>std::env::args\<close> takes apart again for
  \<open>main\<close>. How Explorer puts a path into a registered command, and what command line \<open>ShellExecuteW\<close>
  makes of its arguments, is documented behaviour of Windows and a parameter.
\<close>

section \<open>The standard library's command line parser\<close>

definition blank :: "u16 \<Rightarrow> bool" where
  "blank u \<longleftrightarrow> u = 32 \<or> u = 9"

text \<open>What follows the name of the program, in which a quote is never escaped.\<close>

primrec skip_program :: "bool \<Rightarrow> u16 list \<Rightarrow> u16 list" where
  "skip_program q [] = []"
| "skip_program q (u # us) =
     (if u = 34 then skip_program (\<not> q) us else if blank u \<and> \<not> q then us else skip_program q us)"

text \<open>
  The arguments: \<open>q\<close> says whether the parser is inside quotes, \<open>cur\<close> is the argument so far.
  Backslashes are literal unless a quote follows; then each pair is one, and an odd one escapes it.
\<close>

function (sequential) parse_args :: "bool \<Rightarrow> u16 list \<Rightarrow> u16 list \<Rightarrow> u16 list list" where
  "parse_args q cur [] = (if cur \<noteq> [] \<or> q then [cur] else [])"
| "parse_args q cur (u # us) =
     (if blank u \<and> \<not> q then cur # parse_args q [] (dropWhile blank us)
      else if u = 92
      then let n = Suc (length (takeWhile (\<lambda>x. x = 92) us)); vs = dropWhile (\<lambda>x. x = 92) us
           in if vs \<noteq> [] \<and> hd vs = 34
              then if odd n then parse_args q (cur @ replicate (n div 2) 92 @ [34]) (tl vs)
                   else parse_args q (cur @ replicate (n div 2) 92) vs
              else parse_args q (cur @ replicate n 92) vs
      else if u = 34 \<and> q
      then if us = [] then [cur]
           else if hd us = 34 then parse_args True (cur @ [34]) (tl us)
           else parse_args False cur us
      else if u = 34 then parse_args True cur us
      else parse_args q (cur @ [u]) us)"
  by pat_completeness auto
termination
proof (relation "measure (\<lambda>(_, _, us). length us)", goal_cases)
  case (2 q cur u us)
  then show ?case using length_dropWhile_le [of blank us] by simp
next
  case (3 q cur u us n vs)
  then show ?case using length_dropWhile_le [of "\<lambda>x. x = 92" us] by simp
next
  case (4 q cur u us n vs)
  then show ?case using length_dropWhile_le [of "\<lambda>x. x = 92" us] by simp
next
  case (5 q cur u us n vs)
  then show ?case using length_dropWhile_le [of "\<lambda>x. x = 92" us] by simp
qed simp_all

text \<open>\<open>env::args().skip(1)\<close>, which panics when an argument is not Unicode.\<close>

definition env_args :: "u16 list \<Rightarrow> uchar list list option" where
  "env_args line =
     (let args = parse_args False [] (dropWhile blank (skip_program False line))
      in if list_all (\<lambda>a. utf16_strict a \<noteq> None) args then Some (map utf16_lossy args) else None)"

definition launch :: "host \<Rightarrow> (nat \<Rightarrow> bool) \<Rightarrow> dialogs \<Rightarrow> uchar list \<Rightarrow> u16 list \<Rightarrow> desktop \<Rightarrow> desktop" where
  "launch H F ui exe line d = (case env_args line of None \<Rightarrow> d | Some args \<Rightarrow> app_main H F ui exe args d)"

section \<open>Parsing\<close>

lemma parse_plain:
  assumes "34 \<notin> set p" and "p = [] \<or> last p \<noteq> 92"
  shows "parse_args True cur (p @ rest) = parse_args True (cur @ p) rest"
  using assms
proof (induction "length p" arbitrary: p cur rule: less_induct)
  case less
  show ?case
  proof (cases p)
    case (Cons u us)
    show ?thesis
    proof (cases "u = 92")
      case False
      have "parse_args True (cur @ [u]) (us @ rest) = parse_args True ((cur @ [u]) @ us) rest"
        using less.prems Cons by (intro less.hyps) (auto split: if_splits)
      with False Cons less.prems(1) show ?thesis by simp
    next
      case True
      let ?b = "\<lambda>x :: u16. x = 92"
      let ?vs = "dropWhile ?b us"
      have "last us \<noteq> 92" "us \<noteq> []" using less.prems(2) Cons True by (auto split: if_splits)
      then have some: "\<exists>x \<in> set us. x \<noteq> 92" using last_in_set by blast
      then have vs: "?vs \<noteq> []" by (simp add: dropWhile_eq_Nil_conv)
      have hd: "hd ?vs \<noteq> 34"
        using less.prems(1) Cons set_dropWhileD [of "hd ?vs" ?b us] hd_in_set [OF vs] by auto
      have split: "us = replicate (length (takeWhile ?b us)) 92 @ ?vs"
        by (metis (mono_tags, lifting) replicate_eqI set_takeWhileD takeWhile_dropWhile_id)
      from some have ap: "takeWhile ?b (us @ rest) = takeWhile ?b us" "dropWhile ?b (us @ rest) = ?vs @ rest"
        by (auto simp: takeWhile_append dropWhile_append)
      have "parse_args True cur (p @ rest) = parse_args True (cur @ replicate (Suc (length (takeWhile ?b us))) 92) (?vs @ rest)"
        using Cons True vs hd by (simp add: ap Let_def blank_def)
      also have "\<dots> = parse_args True ((cur @ replicate (Suc (length (takeWhile ?b us))) 92) @ ?vs) rest"
      proof (rule less.hyps)
        show "length ?vs < length p" using length_dropWhile_le [of ?b us] Cons by simp
        show "34 \<notin> set ?vs" using less.prems(1) Cons set_dropWhileD [of 34 ?b us] by auto
        show "?vs = [] \<or> last ?vs \<noteq> 92" using \<open>last us \<noteq> 92\<close> vs split by (metis last_append)
      qed
      also have "(cur @ replicate (Suc (length (takeWhile ?b us))) 92) @ ?vs = cur @ p"
        using split Cons True by simp
      finally show ?thesis .
    qed
  qed simp
qed

lemma parse_word:
  "34 \<notin> set p \<Longrightarrow> 92 \<notin> set p \<Longrightarrow> list_all (\<lambda>u. \<not> blank u) p \<Longrightarrow> parse_args False cur (p @ rest) = parse_args False (cur @ p) rest"
  by (induction p arbitrary: cur) auto

lemma skip_quoted: "34 \<notin> set p \<Longrightarrow> skip_program True (p @ 34 # rest) = skip_program False rest"
  by (induction p) auto

text \<open>A path in quotes at the end of the line, without and with a backslash at its end.\<close>

lemma parse_quoted_operand:
  assumes "34 \<notin> set p" and "p = [] \<or> last p \<noteq> 92"
    and v: "34 \<notin> set v" "92 \<notin> set v" "list_all (\<lambda>u. \<not> blank u) v" "v \<noteq> []" and "34 \<notin> set e"
  shows "parse_args False [] (dropWhile blank (skip_program False (34 # e @ 34 # 32 # v @ 32 # 34 # p @ [34]))) = [v, p]"
    and "parse_args False [] (dropWhile blank (skip_program False (34 # e @ 34 # 32 # v @ 32 # 34 # (p @ [92]) @ [34]))) = [v, p @ [34]]"
proof -
  have d: "dropWhile blank (v @ r) = v @ r" for r using v(3,4) by (cases v) simp_all
  have b: "blank 32" "\<not> blank 34" by (simp_all add: blank_def)
  show "parse_args False [] (dropWhile blank (skip_program False (34 # e @ 34 # 32 # v @ 32 # 34 # p @ [34]))) = [v, p]"
    using parse_plain [OF assms(1,2), of "[]" "[34]"]
    by (simp add: skip_quoted [OF assms(7)] b d parse_word [OF v(1-3)])
  show "parse_args False [] (dropWhile blank (skip_program False (34 # e @ 34 # 32 # v @ 32 # 34 # (p @ [92]) @ [34]))) = [v, p @ [34]]"
    using parse_plain [OF assms(1,2), of "[]" "[92, 34]"]
    by (simp add: skip_quoted [OF assms(7)] b d parse_word [OF v(1-3)])
qed

section \<open>Characters and units\<close>

lemma encode_utf16_append [simp]: "encode_utf16 (s @ t) = encode_utf16 s @ encode_utf16 t"
  by (simp add: encode_utf16_def)

text \<open>A unit below the surrogates is a character of its own.\<close>

lemma utf16_char_unit:
  assumes "scalar c" and "n < 0xD800"
  shows "word_of_nat n \<in> set (utf16_char c) \<longleftrightarrow> c = word_of_nat n"
    and "last (utf16_char c) = word_of_nat n \<longleftrightarrow> c = word_of_nat n"
proof -
  have n: "unat (word_of_nat n :: u16) = n" "unat (word_of_nat n :: uchar) = n"
    using assms(2) by (simp_all add: unat_of_nat)
  have c: "c = word_of_nat n \<longleftrightarrow> unat c = n" using n(2) by (metis word_unat_eq_iff)
  have "(set (utf16_char c) = {word_of_nat n} \<longleftrightarrow> unat c = n) \<and> (word_of_nat n \<in> set (utf16_char c) \<longleftrightarrow> unat c = n)
      \<and> (last (utf16_char c) = word_of_nat n \<longleftrightarrow> unat c = n)"
  proof (cases "unat c < 65536")
    case True
    then have "unat (word_of_nat (unat c) :: u16) = unat c" by (rule unat_u16)
    then have "(word_of_nat (unat c) :: u16) = word_of_nat n \<longleftrightarrow> unat c = n" using n(1) by metis
    then show ?thesis using True by (auto simp: utf16_char_def Let_def)
  next
    case False
    define m where "m = unat c - 65536"
    have m: "m < 1048576" using assms(1) False by (auto simp: scalar_def m_def)
    then have d: "m div 1024 < 1024" by (simp add: div_less_iff_less_mult)
    have "unat (word_of_nat (55296 + m div 1024) :: u16) = 55296 + m div 1024"
      "unat (word_of_nat (56320 + m mod 1024) :: u16) = 56320 + m mod 1024"
      by (rule unat_u16, use d in simp)+
    then have "(word_of_nat (55296 + m div 1024) :: u16) \<noteq> word_of_nat n" "(word_of_nat (56320 + m mod 1024) :: u16) \<noteq> word_of_nat n"
      using n(1) assms(2) by auto
    then show ?thesis using False assms(2) by (auto simp: utf16_char_def Let_def m_def)
  qed
  with c show "word_of_nat n \<in> set (utf16_char c) \<longleftrightarrow> c = word_of_nat n"
    "last (utf16_char c) = word_of_nat n \<longleftrightarrow> c = word_of_nat n" by simp_all
qed

lemma utf16_char_nonempty [simp]: "utf16_char c \<noteq> []"
  by (simp add: utf16_char_def Let_def)

lemma encode_empty [simp]: "encode_utf16 s = [] \<longleftrightarrow> s = []"
  by (cases s) simp_all

lemma unit_in_encoding:
  assumes "list_all scalar s" and "n < 0xD800"
  shows "word_of_nat n \<in> set (encode_utf16 s) \<longleftrightarrow> word_of_nat n \<in> set s"
    and "s \<noteq> [] \<Longrightarrow> last (encode_utf16 s) = word_of_nat n \<longleftrightarrow> last s = word_of_nat n"
proof -
  show "word_of_nat n \<in> set (encode_utf16 s) \<longleftrightarrow> word_of_nat n \<in> set s"
    using assms(1) by (induction s) (auto simp: utf16_char_unit(1) [OF _ assms(2)])
  show "s \<noteq> [] \<Longrightarrow> last (encode_utf16 s) = word_of_nat n \<longleftrightarrow> last s = word_of_nat n"
    using assms(1) by (induction s) (auto simp: utf16_char_unit(2) [OF _ assms(2)])
qed

lemmas quote_in_encoding = unit_in_encoding(1) [where n = 34, simplified]
lemmas backslash_ends_encoding = unit_in_encoding(2) [where n = 92, simplified]

section \<open>Property\<close>

text \<open>
  What Windows is documented to do: Explorer replaces the one \<open>%1\<close> of a registered command by the
  path, and \<open>ShellExecuteW\<close> runs the program under its quoted name, followed by the parameters.
\<close>

definition shell_ok :: "(uchar list \<Rightarrow> u16 list \<Rightarrow> u16 list) \<Rightarrow> (u16 list \<Rightarrow> u16 list \<Rightarrow> u16 list) \<Rightarrow> bool" where
  "shell_ok expand execute \<longleftrightarrow>
     (\<forall>pre post p. 37 \<notin> set pre \<longrightarrow> 37 \<notin> set post \<longrightarrow>
        expand (pre @ lit ''%1'' @ post) p = encode_utf16 pre @ p @ encode_utf16 post)
     \<and> (\<forall>exe params. list_all scalar exe \<longrightarrow> list_all scalar params \<longrightarrow>
        execute (wide exe) (wide params) = encode_utf16 (quoted exe @ lit '' '' @ params))"

text \<open>The verbs of the registered commands, and the keys they are found under.\<close>

definition verb_keys :: "(regkey \<times> string) list" where
  "verb_keys =
     [([''Software'', ''Classes'', ''FolderVault.Container'', ''shell'', ''open'', ''command''], ''open''),
      ([''Software'', ''Classes'', ''FolderVault.Container'', ''shell'', ''FolderVault.Delete'', ''command''], ''delete''),
      ([''Software'', ''Classes'', ''Directory'', ''shell'', ''FolderVault.Lock'', ''command''], ''lock'')]"

definition verb_command :: "uchar list \<Rightarrow> string \<Rightarrow> uchar list" where
  "verb_command exe verb = quoted exe @ lit ('' '' @ verb @ '' '') @ quoted (lit ''%1'')"

lemma registered_command:
  assumes "(k, verb) \<in> set verb_keys"
  shows "((k, None), verb_command exe verb) \<in> set (registration exe)"
proof -
  have "(([''Software'', ''Classes'', ''FolderVault.Container'', ''shell'', ''open'', ''command''], None),
      verb_command exe ''open'') \<in> set (registration exe)"
    "(([''Software'', ''Classes'', ''FolderVault.Container'', ''shell'', ''FolderVault.Delete'', ''command''], None),
      verb_command exe ''delete'') \<in> set (registration exe)"
    "(([''Software'', ''Classes'', ''Directory'', ''shell'', ''FolderVault.Lock'', ''command''], None),
      verb_command exe ''lock'') \<in> set (registration exe)"
    unfolding registration_def Let_def verb_command_def by simp_all
  with assms show ?thesis
    unfolding verb_keys_def list.set insert_iff empty_iff prod.inject by (elim disjE conjE FalseE) simp_all
qed

lemma verb_command_eq: "verb_command exe verb = (quoted exe @ lit ('' '' @ verb @ '' '') @ lit [CHR 34]) @ lit ''%1'' @ lit [CHR 34]"
  by (simp add: verb_command_def quoted_def)

lemma ascii_words: "v \<in> {''open'', ''delete'', ''lock''} \<Longrightarrow>
  34 \<notin> set (encode_utf16 (lit v)) \<and> 92 \<notin> set (encode_utf16 (lit v))
  \<and> list_all (\<lambda>u. \<not> blank u) (encode_utf16 (lit v)) \<and> encode_utf16 (lit v) \<noteq> []"
  by (auto simp: lit_def utf16_char_def Let_def blank_def)

lemma lit_units: "encode_utf16 (lit [CHR 34]) = [34]" "encode_utf16 (lit '' '') = [32]"
  by (simp_all add: lit_def utf16_char_def Let_def)

lemma lit_append: "lit (s @ t) = lit s @ lit t"
  by (simp add: lit_def)

text \<open>A command line with a quoted program, a verb and a quoted operand, as \<open>main\<close> receives it.\<close>

definition command_line :: "uchar list \<Rightarrow> string \<Rightarrow> uchar list \<Rightarrow> u16 list" where
  "command_line exe verb t = 34 # encode_utf16 exe @ 34 # 32 # encode_utf16 (lit verb) @ 32 # 34 # encode_utf16 t @ [34]"

lemma env_args_command_line:
  assumes "list_all scalar exe" "34 \<notin> set exe" and t: "list_all scalar t" "34 \<notin> set t" "t = [] \<or> last t \<noteq> 92"
    and v: "v \<in> {''open'', ''delete'', ''lock''}"
  shows "env_args (command_line exe v t) = Some [lit v, t]"
    and "env_args (command_line exe v (t @ [92])) = Some [lit v, t @ [34]]"
proof -
  have q: "34 \<notin> set (encode_utf16 t)" "34 \<notin> set (encode_utf16 exe)"
    using quote_in_encoding assms(1,2) t(1,2) by blast+
  have l: "encode_utf16 t = [] \<or> last (encode_utf16 t) \<noteq> 92" using backslash_ends_encoding t(1,3) by auto
  note w = ascii_words [OF v]
  note parsed = parse_quoted_operand [OF q(1) l w [THEN conjunct1] w [THEN conjunct2, THEN conjunct1]
      w [THEN conjunct2, THEN conjunct2, THEN conjunct1] w [THEN conjunct2, THEN conjunct2, THEN conjunct2] q(2)]
  have strict: "utf16_strict (encode_utf16 s) = Some s" "utf16_lossy (encode_utf16 s) = s" if "list_all scalar s" for s
    using that by (simp_all add: utf16_strict_def utf16_roundtrip_all)
  have s: "list_all scalar (t @ [34])" using t(1) by (simp add: scalar_def)
  have e: "encode_utf16 (t @ [92]) = encode_utf16 t @ [92]" "encode_utf16 t @ [34] = encode_utf16 (t @ [34])"
    by (simp_all add: utf16_char_def Let_def)
  have at: "env_args line = Some [lit v, x]" if "list_all scalar x"
    and "parse_args False [] (dropWhile blank (skip_program False line)) = [encode_utf16 (lit v), encode_utf16 x]" for line x
    unfolding env_args_def that(2) Let_def using strict [OF lit_scalar] strict [OF that(1)] by simp
  show "env_args (command_line exe v t) = Some [lit v, t]"
    unfolding command_line_def by (rule at [OF t(1) parsed(1)])
  show "env_args (command_line exe v (t @ [92])) = Some [lit v, t @ [34]]"
    unfolding command_line_def e(1) by (rule at [OF s parsed(2) [unfolded e(2)]])
qed

lemma scalar_lossy: "list_all scalar (utf16_lossy u)"
proof (induction u rule: utf16_lossy.induct)
  case (2 u us)
  have r: "scalar 0xFFFD" by (simp add: scalar_def)
  have plain: "scalar (word_of_nat (unat u))" if "\<not> high_surrogate u" "\<not> low_surrogate u"
    using that unsigned_less [of u, where 'a = nat] unat_uchar [of "unat u"] by (auto simp: scalar_def high_surrogate_def low_surrogate_def)
  have pair: "scalar (word_of_nat (0x10000 + (unat u - 0xD800) * 1024 + (unat v - 0xDC00)))"
    if "high_surrogate u" "low_surrogate v" for v
  proof -
    have "unat u - 0xD800 < 1024" "unat v - 0xDC00 < 1024" using that by (auto simp: high_surrogate_def low_surrogate_def)
    then show ?thesis
      using unat_uchar [of "0x10000 + (unat u - 0xD800) * 1024 + (unat v - 0xDC00)"] by (simp add: scalar_def)
  qed
  show ?case using 2 r plain pair by (auto split: list.split)
qed simp

lemma module_dir_scalar: "module_dir mn = Some d \<Longrightarrow> list_all scalar d"
  using scalar_lossy by (auto simp: module_dir_def Let_def list_all_iff dest!: set_dropWhileD split: option.splits if_splits)

lemma expand_verb:
  assumes "shell_ok expand execute" and "37 \<notin> set exe" and "verb \<in> {''open'', ''delete'', ''lock''}"
  shows "expand (verb_command exe verb) (encode_utf16 t) = command_line exe verb t"
proof -
  have "37 \<notin> set (quoted exe @ lit ('' '' @ verb @ '' '') @ lit [CHR 34])" "37 \<notin> set (lit [CHR 34])"
    using assms(2,3) by (auto simp: quoted_def lit_def)
  then have "expand (verb_command exe verb) (encode_utf16 t) =
      encode_utf16 (quoted exe @ lit ('' '' @ verb @ '' '') @ lit [CHR 34]) @ encode_utf16 t @ encode_utf16 (lit [CHR 34])"
    using assms(1) unfolding shell_ok_def verb_command_eq by blast
  also have "\<dots> = command_line exe verb t"
    unfolding command_line_def quoted_def lit_append encode_utf16_append lit_units by simp
  finally show ?thesis .
qed

text \<open>
  C38: A folder or container chosen in Explorer is the one the program works on. Each of the three
  registered commands, and the command of the Windows 11 menu, starts the program with the verb
  and exactly the chosen path, for every path that has no quote (no Windows path has one) and does
  not end in a backslash. For a path that does (the root of a drive), the closing quote is
  escaped, and the program is started for a path that ends in a quote instead of the backslash.
\<close>

theorem explorer_hands_over_path:
  assumes sh: "shell_ok expand execute" and exe: "list_all scalar exe" "34 \<notin> set exe" "37 \<notin> set exe"
    and t: "list_all scalar t" "34 \<notin> set t" "t = [] \<or> last t \<noteq> 92"
  shows "(\<forall>k verb. (k, verb) \<in> set verb_keys \<longrightarrow>
        (\<exists>cmd. ((k, None), cmd) \<in> set (registration exe)
           \<and> launch H F ui exe (expand cmd (encode_utf16 t)) d = app_main H F ui exe [lit verb, t] d
           \<and> launch H F ui exe (expand cmd (encode_utf16 (t @ [92]))) d = app_main H F ui exe [lit verb, t @ [34]] d))
    \<and> (\<forall>mn c w w' prog params.
         Invoke H mn (Some \<lparr>s_count = c, s_path = Inr (encode_utf16 t)\<rparr>) w = (Inr (Some (prog, params)), w') \<longrightarrow>
         (\<forall>dir. module_dir mn = Some dir \<longrightarrow> 34 \<notin> set dir) \<longrightarrow>
         launch H F ui exe (execute prog params) d = app_main H F ui exe [lit ''lock'', t] d)"
proof (intro conjI allI impI)
  fix k verb assume v: "(k, verb) \<in> set verb_keys"
  then have verb: "verb \<in> {''open'', ''delete'', ''lock''}" by (auto simp: verb_keys_def)
  note run = env_args_command_line [OF exe(1,2) t verb]
  have "launch H F ui exe (expand (verb_command exe verb) (encode_utf16 t)) d = app_main H F ui exe [lit verb, t] d"
    unfolding launch_def expand_verb [OF sh exe(3) verb] run by simp
  moreover have "launch H F ui exe (expand (verb_command exe verb) (encode_utf16 (t @ [92]))) d = app_main H F ui exe [lit verb, t @ [34]] d"
    unfolding launch_def expand_verb [OF sh exe(3) verb] run by simp
  ultimately show "\<exists>cmd. ((k, None), cmd) \<in> set (registration exe)
           \<and> launch H F ui exe (expand cmd (encode_utf16 t)) d = app_main H F ui exe [lit verb, t] d
           \<and> launch H F ui exe (expand cmd (encode_utf16 (t @ [92]))) d = app_main H F ui exe [lit verb, t @ [34]] d"
    using registered_command [OF v] by blast
next
  fix mn c w w' prog params
  assume i: "Invoke H mn (Some \<lparr>s_count = c, s_path = Inr (encode_utf16 t)\<rparr>) w = (Inr (Some (prog, params)), w')"
    and dir: "\<forall>dir. module_dir mn = Some dir \<longrightarrow> 34 \<notin> set dir"
  from i obtain prg where x: "fst (foldervault_exe H mn w) = Some prg"
    and p: "prog = wide prg" "params = wide (lock_params (encode_utf16 t))"
    by (auto simp: Invoke_def split: prod.splits option.splits)
  from x have "\<exists>dr. module_dir mn = Some dr \<and> prg = dr @ lit ''FolderVault.exe''"
    using foldervault_exe_outcome(2) [OF prod.collapse [symmetric]] by metis
  then have prg: "list_all scalar prg" "34 \<notin> set prg"
    using dir module_dir_scalar lit_scalar [of "''FolderVault.exe''"] by (auto simp: lit_def)
  have "list_all scalar (lock_params (encode_utf16 t))"
    using t(1) lit_scalar by (simp add: lock_params_text quoted_def)
  then have "execute prog params = encode_utf16 (quoted prg @ lit '' '' @ lock_params (encode_utf16 t))"
    using sh prg(1) by (simp add: shell_ok_def p)
  also have "\<dots> = command_line prg ''lock'' t"
  proof -
    have "lit ''lock '' = lit ''lock'' @ lit '' ''" by (simp add: lit_def)
    then show ?thesis
      unfolding lock_params_text [OF t(1)] command_line_def quoted_def by (simp add: lit_units)
  qed
  finally show "launch H F ui exe (execute prog params) d = app_main H F ui exe [lit ''lock'', t] d"
    using env_args_command_line(1) [OF prg t, of "''lock''"] by (simp add: launch_def)
qed

text \<open>A shell of that kind: it replaces the first \<open>%1\<close>, and cuts the terminators off.\<close>

fun fill_in :: "uchar list \<Rightarrow> u16 list \<Rightarrow> u16 list" where
  "fill_in (c # c' # s) p =
     (if c = 37 \<and> c' = 49 then p @ encode_utf16 s else utf16_char c @ fill_in (c' # s) p)"
| "fill_in s p = encode_utf16 s"

definition run_line :: "u16 list \<Rightarrow> u16 list \<Rightarrow> u16 list" where
  "run_line prog params = 34 # butlast prog @ 34 # 32 # butlast params"

lemma fill_in_eq: "37 \<notin> set pre \<Longrightarrow> fill_in (pre @ lit ''%1'' @ post) p = encode_utf16 pre @ p @ encode_utf16 post"
proof (induction pre)
  case (Cons c pre)
  then obtain c' s where "pre @ lit ''%1'' @ post = c' # s" by (cases pre) (auto simp: lit_def)
  with Cons show ?case by auto
qed (simp add: lit_def)

lemma shell_ok_sample: "shell_ok fill_in run_line"
proof -
  have "fill_in (pre @ lit ''%1'' @ post) p = encode_utf16 pre @ p @ encode_utf16 post" if "37 \<notin> set pre" for pre post p
    using that by (rule fill_in_eq)
  moreover have "run_line (wide exe) (wide params) = encode_utf16 (quoted exe @ lit '' '' @ params)" for exe params
    unfolding run_line_def wide_def quoted_def encode_utf16_append lit_units by simp
  ultimately show ?thesis by (simp add: shell_ok_def)
qed

theorem explorer_hands_over_path_witness:
  "\<exists>cmd. (([''Software'', ''Classes'', ''Directory'', ''shell'', ''FolderVault.Lock'', ''command''], None), cmd)
        \<in> set (registration (lit ''C:/F.exe''))
     \<and> launch dialog_host (\<lambda>_. False) (eager dialog_host) (lit ''C:/F.exe'') (fill_in cmd (encode_utf16 (lit ''D:/d''))) first_desktop
       = app_main dialog_host (\<lambda>_. False) (eager dialog_host) (lit ''C:/F.exe'') [lit ''lock'', lit ''D:/d''] first_desktop"
proof -
  have f: "34 \<notin> set (lit ''C:/F.exe'')" "37 \<notin> set (lit ''C:/F.exe'')" "34 \<notin> set (lit ''D:/d'')" "last (lit ''D:/d'') \<noteq> 92"
    by (simp_all add: lit_def)
  then have l: "lit ''D:/d'' = [] \<or> last (lit ''D:/d'') \<noteq> 92" by blast
  have k: "([''Software'', ''Classes'', ''Directory'', ''shell'', ''FolderVault.Lock'', ''command''], ''lock'') \<in> set verb_keys"
    by (simp add: verb_keys_def)
  from explorer_hands_over_path [OF shell_ok_sample lit_scalar f(1,2) lit_scalar f(3) l, THEN conjunct1, rule_format, OF k]
  show ?thesis by blast
qed

end
