(* ===== verification/Scaling.thy ===== *)
theory Scaling
  imports Prelude "HOL-Library.Log_Nat"
begin

text \<open>
  \<open>crates/vault-app/src/ui.rs\<close>: \<open>s\<close> and its copy \<open>sc\<close> in \<open>on_create\<close>, which scale a length to the
  resolution of the screen in single precision. A non-negative \<open>f32\<close> is a multiple of \<open>2 ^ -149\<close>, the
  least positive one, and is represented by the factor; every operation rounds its exact result to
  24 significant bits, ties to even. Overflow to infinity is left out: nothing here comes near it.
  The last section gives what the layout needs to know of the scaling, whatever the rounding does.
\<close>

section \<open>Single precision\<close>

type_synonym f32 = nat

definition F32_ONE :: f32 where "F32_ONE = 2 ^ 149"

definition round_half_even :: "nat \<Rightarrow> nat \<Rightarrow> nat" where
  "round_half_even p q =
     (let m = p div q; r = p mod q in if 2 * r < q \<or> 2 * r = q \<and> even m then m else m + 1)"

text \<open>The value of \<open>a / b\<close>; \<open>u\<close> is the distance of neighbours among the numbers of its size.\<close>

definition f32_round :: "nat \<Rightarrow> nat \<Rightarrow> f32" where
  "f32_round a b =
     (let u = 2 ^ (floorlog 2 (a * F32_ONE div b) - 24) in u * round_half_even (a * F32_ONE) (b * u))"

definition f32_of :: "nat \<Rightarrow> f32" where "f32_of n = f32_round n 1"

definition f32_mul :: "f32 \<Rightarrow> f32 \<Rightarrow> f32" where "f32_mul x y = f32_round (x * y) (F32_ONE * F32_ONE)"

definition f32_div :: "f32 \<Rightarrow> f32 \<Rightarrow> f32" where "f32_div x y = f32_round x y"

text \<open>\<open>as i32\<close>: towards zero, and the largest \<open>i32\<close> for what is larger.\<close>

definition f32_to_i32 :: "f32 \<Rightarrow> int" where "f32_to_i32 x = min (int (x div F32_ONE)) (2 ^ 31 - 1)"

section \<open>The code\<close>

text \<open>\<open>dpi_of\<close> is \<open>app.dpi\<close> for what \<open>GetDpiForWindow\<close> returns. Every length that is scaled is a literal, not negative.\<close>

definition dpi_of :: "nat \<Rightarrow> f32" where "dpi_of d = f32_div (f32_of d) (f32_of 96)"

definition scale_px :: "nat \<Rightarrow> int \<Rightarrow> int" where
  "scale_px d v = f32_to_i32 (f32_mul (f32_of (nat v)) (dpi_of d))"

section \<open>Rounding\<close>

lemma round_half_even_near:
  assumes "0 < q"
  shows "2 * \<bar>int (round_half_even p q) * int q - int p\<bar> \<le> int q"
proof -
  define m r where "m = p div q" and "r = p mod q"
  have p: "int p = int m * int q + int r" by (simp add: m_def r_def flip: of_nat_mult of_nat_add)
  have r: "r < q" using assms by (simp add: r_def)
  have "round_half_even p q = (if 2 * r < q \<or> 2 * r = q \<and> even m then m else m + 1)"
    by (simp add: round_half_even_def Let_def m_def r_def)
  then show ?thesis using r by (simp add: p algebra_simps)
qed

lemma round_half_even_mult [simp]: "0 < q \<Longrightarrow> round_half_even (q * c) q = c"
  by (simp add: round_half_even_def)

lemma F32_ONE_pos [simp]: "0 < F32_ONE"
  by (simp add: F32_ONE_def)

lemma f32_round_near:
  assumes "0 < b" and "2 ^ 23 \<le> a * F32_ONE div b"
  shows "2 ^ 24 * \<bar>int (f32_round a b) * int b - int (a * F32_ONE)\<bar> \<le> int (a * F32_ONE)"
proof -
  define A n k u where "A = a * F32_ONE" and "n = A div b" and "k = floorlog 2 n" and "u = (2 :: nat) ^ (k - 24)"
  have n: "2 ^ 23 \<le> n" using assms by (simp add: n_def A_def)
  then have k: "24 \<le> k" unfolding k_def by (intro floorlog_geI) simp_all
  have "0 < n" using n by (cases n) simp_all
  then have "2 ^ (k - 1) \<le> n" using floorlog_bounds [of n 2] by (simp add: k_def)
  moreover have "u * 2 ^ 23 = 2 ^ (k - 24 + 23)" by (simp only: u_def power_add)
  moreover have "k - 24 + 23 = k - 1" using k by simp
  ultimately have "u * 2 ^ 23 * b \<le> n * b" by simp
  also have "n * b \<le> A" by (simp add: n_def)
  finally have small: "2 ^ 23 * int (b * u) \<le> int A" by (simp add: ac_simps flip: of_nat_mult of_nat_le_iff)
  have near: "2 * \<bar>int (round_half_even A (b * u)) * int (b * u) - int A\<bar> \<le> int (b * u)"
    by (rule round_half_even_near) (use assms in \<open>simp add: u_def\<close>)
  have "int (f32_round a b) * int b = int (round_half_even A (b * u)) * int (b * u)"
    by (simp add: f32_round_def Let_def u_def k_def n_def A_def)
  then have "2 * \<bar>int (f32_round a b) * int b - int A\<bar> \<le> int (b * u)" using near by (simp only:)
  then show ?thesis using small by (simp add: A_def)
qed

text \<open>A result of 24 significant bits is exact.\<close>

lemma f32_round_exact:
  assumes "0 < b" and "a * F32_ONE = b * (n * 2 ^ e)" and "n < 2 ^ 24"
  shows "f32_round a b = n * 2 ^ e"
proof (cases "n = 0")
  case True
  then have "a = 0" using assms(2) by (metis F32_ONE_pos less_numeral_extra(3) mult_eq_0_iff)
  then show ?thesis using True assms(1) by (simp add: f32_round_def round_half_even_def Let_def)
next
  case False
  define k i where "k = floorlog 2 n" and "i = k + e - 24"
  have k: "k \<le> 24" unfolding k_def by (rule floorlog_leI) (use assms in simp_all)
  have "a * F32_ONE div b = n * 2 ^ e" using assms by simp
  moreover have "floorlog 2 (n * 2 ^ e) = k + e"
    unfolding k_def using False by (intro floorlog_power) simp_all
  ultimately have "f32_round a b = 2 ^ i * round_half_even (a * F32_ONE) (b * 2 ^ i)"
    by (simp add: f32_round_def Let_def i_def)
  moreover have n: "n * 2 ^ e = 2 ^ i * (n * 2 ^ (e - i))"
    using k by (simp add: i_def ac_simps flip: power_add)
  then have "a * F32_ONE = b * 2 ^ i * (n * 2 ^ (e - i))" by (simp only: assms(2) mult.assoc)
  moreover note n [symmetric]
  moreover have "round_half_even (b * 2 ^ i * (n * 2 ^ (e - i))) (b * 2 ^ i) = n * 2 ^ (e - i)"
    by (rule round_half_even_mult) (use assms in simp)
  ultimately show ?thesis by (simp only:)
qed

lemma f32_of_exact:
  assumes "n < 2 ^ 24"
  shows "f32_of n = n * F32_ONE"
  unfolding f32_of_def F32_ONE_def by (rule f32_round_exact) (use assms in \<open>simp_all add: F32_ONE_def\<close>)

section \<open>What scaling does\<close>

lemma abs_diff_chain:
  fixes P D V W :: int
  assumes "N * \<bar>P - V * D\<bar> \<le> V * D" and "N * \<bar>96 * D - W\<bar> \<le> W" and "0 \<le> V" and "1 \<le> N" and "0 \<le> W"
  shows "N * \<bar>96 * P - V * W\<bar> \<le> 3 * (V * W)"
proof -
  have "1 * \<bar>96 * D - W\<bar> \<le> N * \<bar>96 * D - W\<bar>" using assms(4) by (intro mult_right_mono) simp_all
  then have "\<bar>96 * D - W\<bar> \<le> W" using assms(2) by simp
  then have "96 * D \<le> 2 * W" by linarith
  then have VD: "V * (96 * D) \<le> V * (2 * W)" using assms(3) by (rule mult_left_mono)
  have eq: "96 * P - V * W = 96 * (P - V * D) + V * (96 * D - W)" by (simp add: algebra_simps)
  have "\<bar>96 * P - V * W\<bar> \<le> 96 * \<bar>P - V * D\<bar> + V * \<bar>96 * D - W\<bar>"
    unfolding eq by (rule abs_triangle_ineq [THEN order_trans]) (use assms(3) in \<open>simp add: abs_mult del: right_diff_distrib_numeral\<close>)
  then have "N * \<bar>96 * P - V * W\<bar> \<le> N * (96 * \<bar>P - V * D\<bar> + V * \<bar>96 * D - W\<bar>)"
    using assms(4) by (intro mult_left_mono) simp_all
  also have "\<dots> = 96 * (N * \<bar>P - V * D\<bar>) + V * (N * \<bar>96 * D - W\<bar>)" by (simp add: algebra_simps)
  also have "\<dots> \<le> 96 * (V * D) + V * W" using assms(1) mult_left_mono [OF assms(2,3)] by linarith
  finally show ?thesis using VD by (simp add: algebra_simps)
qed

lemma abs_diff_cancel:
  fixes F :: int
  assumes "N * \<bar>F * x - F * y\<bar> \<le> F * z" and "0 < F"
  shows "N * \<bar>x - y\<bar> \<le> z"
proof -
  have "F * x - F * y = F * (x - y)" by (simp add: algebra_simps)
  then have "N * \<bar>F * x - F * y\<bar> = F * (N * \<bar>x - y\<bar>)" using assms(2) by (simp add: abs_mult)
  with assms show ?thesis by simp
qed

lemma dpi_of_near:
  assumes "0 < d" and "d \<le> 960"
  shows "2 ^ 24 * \<bar>96 * int (dpi_of d) - int (d * F32_ONE)\<bar> \<le> int (d * F32_ONE)"
proof -
  have dpi: "dpi_of d = f32_round (d * F32_ONE) (96 * F32_ONE)"
    using assms by (simp add: dpi_of_def f32_div_def f32_of_exact)
  have "(2 :: nat) ^ 23 \<le> F32_ONE div 96" by (simp add: F32_ONE_def)
  also have "\<dots> \<le> d * F32_ONE div 96" using assms by (intro div_le_mono) simp
  finally have "2 ^ 23 \<le> d * F32_ONE * F32_ONE div (96 * F32_ONE)" by simp
  from f32_round_near [OF _ this]
  have "2 ^ 24 * \<bar>int (dpi_of d) * int (96 * F32_ONE) - int (d * F32_ONE * F32_ONE)\<bar> \<le> int (d * F32_ONE * F32_ONE)"
    by (simp add: dpi)
  then have "2 ^ 24 * \<bar>int F32_ONE * (96 * int (dpi_of d)) - int F32_ONE * int (d * F32_ONE)\<bar> \<le> int F32_ONE * int (d * F32_ONE)"
    by (simp add: ac_simps)
  then show ?thesis by (rule abs_diff_cancel) simp
qed

lemma product_near:
  assumes "0 < d" and "d \<le> 960" and "0 < v" and "v \<le> 600"
  shows "2 ^ 24 * \<bar>int (f32_mul (f32_of v) (dpi_of d)) - int v * int (dpi_of d)\<bar> \<le> int v * int (dpi_of d)"
proof -
  define D where "D = dpi_of d"
  have W: "int F32_ONE \<le> int (d * F32_ONE)" using assms(1) by simp
  have "2 * \<bar>96 * int D - int (d * F32_ONE)\<bar> \<le> int (d * F32_ONE)"
    using order_trans [OF mult_right_mono dpi_of_near [OF assms(1,2)], of 2] by (simp add: D_def)
  then have "int (d * F32_ONE) \<le> 192 * int D"
    using abs_ge_minus_self [of "96 * int D - int (d * F32_ONE)"] by simp
  then have "int F32_ONE \<le> 192 * int D" using W by (rule order_trans [rotated])
  then have "2 ^ 23 \<le> D" by (simp add: F32_ONE_def)
  also have "D \<le> v * D" using assms(3) by (simp add: Suc_le_eq)
  finally have "(2 :: nat) ^ 23 \<le> v * F32_ONE * D * F32_ONE div (F32_ONE * F32_ONE)" by (simp add: ac_simps)
  then have "2 ^ 24 * \<bar>int (F32_ONE * F32_ONE) * int (f32_mul (f32_of v) D) - int (F32_ONE * F32_ONE) * (int v * int D)\<bar>
      \<le> int (F32_ONE * F32_ONE) * (int v * int D)"
    using f32_round_near [of "F32_ONE * F32_ONE" "v * F32_ONE * D"] assms(4)
    by (simp add: f32_mul_def f32_of_exact ac_simps)
  then show ?thesis unfolding D_def by (rule abs_diff_cancel) simp
qed

lemma floor_near:
  fixes K :: int
  assumes K: "0 < K" and near: "\<bar>K * int P - X * int F\<bar> < int F"
  shows "K * int (P div F) \<le> X" and "X - K \<le> K * int (P div F)"
proof -
  define r where "r = P div F"
  have F: "0 < F" using near by (cases F) simp_all
  have lo: "int r * int F \<le> int P" by (simp add: r_def flip: of_nat_mult)
  have "P < (r + 1) * F" using dividend_less_div_times [OF F, of P] by (simp add: r_def)
  then have hi: "int P < (int r + 1) * int F" by (metis of_nat_1 of_nat_add of_nat_less_iff of_nat_mult)
  have "K * (int r * int F) \<le> K * int P" by (rule mult_left_mono) (use lo K in simp_all)
  also have "\<dots> < X * int F + int F" using near by linarith
  finally have "K * int r * int F < (X + 1) * int F" by (simp add: distrib_right mult.assoc)
  then show "K * int (P div F) \<le> X" using F by (simp add: r_def mult_less_cancel_right)
  have "X * int F - int F < K * int P" using near by linarith
  also have "\<dots> < K * ((int r + 1) * int F)" by (rule mult_strict_left_mono [OF hi K])
  finally have "(X - 1) * int F < K * (int r + 1) * int F" by (simp only: left_diff_distrib mult.assoc mult_1)
  then have "X - 1 < K * (int r + 1)" using F by (simp only: mult_less_cancel_right)
  then show "X - K \<le> K * int (P div F)" by (simp add: r_def distrib_left)
qed

text \<open>A quotient of small integers, rounded and then cut off, is the integer quotient or one less.\<close>

lemma f32_quotient:
  assumes "0 < n" and "n \<le> 100000" and "0 < k" and "k \<le> 100"
  shows "int k * f32_to_i32 (f32_round (n * F32_ONE) (k * F32_ONE)) \<le> int n"
    and "int n - int k \<le> int k * f32_to_i32 (f32_round (n * F32_ONE) (k * F32_ONE))"
proof -
  define R where "R = f32_round (n * F32_ONE) (k * F32_ONE)"
  have "2 ^ 24 * \<bar>int R * int (k * F32_ONE) - int (n * F32_ONE * F32_ONE)\<bar> \<le> int (n * F32_ONE * F32_ONE)"
    unfolding R_def
  proof (rule f32_round_near)
    have "(2 :: nat) ^ 23 \<le> F32_ONE div 100" by (simp add: F32_ONE_def)
    also have "\<dots> \<le> F32_ONE div k" using assms(3,4) by (intro div_le_mono2) simp_all
    also have "\<dots> \<le> n * F32_ONE div k" using assms(1) by (intro div_le_mono) simp
    finally show "2 ^ 23 \<le> n * F32_ONE * F32_ONE div (k * F32_ONE)" by simp
  qed (use assms in simp)
  then have "2 ^ 24 * \<bar>int F32_ONE * (int k * int R) - int F32_ONE * int (n * F32_ONE)\<bar> \<le> int F32_ONE * int (n * F32_ONE)"
    by (simp add: ac_simps)
  then have "2 ^ 24 * \<bar>int k * int R - int (n * F32_ONE)\<bar> \<le> int (n * F32_ONE)"
    by (rule abs_diff_cancel) simp
  also have "\<dots> = int n * int F32_ONE" by simp
  also have "\<dots> < 2 ^ 24 * int F32_ONE" by (rule mult_strict_right_mono) (use assms in simp_all)
  finally have "\<bar>int k * int R - int n * int F32_ONE\<bar> < int F32_ONE" by simp
  note near = floor_near [OF _ this]
  have "1 * int (R div F32_ONE) \<le> int k * int (R div F32_ONE)"
    using assms(3) by (intro mult_right_mono) simp_all
  then have "f32_to_i32 R = int (R div F32_ONE)" using near(1) assms by (simp add: f32_to_i32_def min_def)
  then show "int k * f32_to_i32 (f32_round (n * F32_ONE) (k * F32_ONE)) \<le> int n"
    and "int n - int k \<le> int k * f32_to_i32 (f32_round (n * F32_ONE) (k * F32_ONE))"
    using near assms(3) by (simp_all add: R_def)
qed

text \<open>Up to ten times the usual resolution, a scaled length is \<open>v * d / 96\<close> rounded down, or one less.\<close>

lemma scale_px_bounds:
  assumes "0 < d" and "d \<le> 960" and "0 \<le> v" and "v \<le> 600"
  shows "96 * scale_px d v \<le> v * int d" and "v * int d - 96 \<le> 96 * scale_px d v"
proof -
  define P where "P = f32_mul (f32_of (nat v)) (dpi_of d)"
  have small: "v * int d \<le> 600 * 960" using assms by (intro mult_mono) simp_all
  have "\<bar>96 * int P - v * int d * int F32_ONE\<bar> < int F32_ONE"
  proof (cases "v = 0")
    case True
    then show ?thesis by (simp add: P_def f32_mul_def f32_of_def f32_round_def round_half_even_def Let_def)
  next
    case False
    then have "2 ^ 24 * \<bar>int P - v * int (dpi_of d)\<bar> \<le> v * int (dpi_of d)"
      using product_near [OF assms(1,2), of "nat v"] assms by (simp add: P_def)
    from abs_diff_chain [OF this dpi_of_near [OF assms(1,2)]] assms
    have "2 ^ 24 * \<bar>96 * int P - v * int (d * F32_ONE)\<bar> \<le> (3 * (v * int d)) * int F32_ONE" by simp
    also have "\<dots> < 2 ^ 24 * int F32_ONE"
      by (rule mult_strict_right_mono) (use small in simp_all)
    finally show ?thesis by (simp add: ac_simps)
  qed
  note near = floor_near [OF _ this]
  have "scale_px d v = int (P div F32_ONE)"
    using near(1) [simplified] small by (simp add: scale_px_def f32_to_i32_def P_def min_def)
  then show "96 * scale_px d v \<le> v * int d" and "v * int d - 96 \<le> 96 * scale_px d v"
    using near [simplified] by simp_all
qed

text \<open>At the scalings Windows offers, steps of a quarter, it is \<open>v * d / 96\<close> rounded down.\<close>

lemma dpi_of_steps:
  assumes "m \<le> 40"
  shows "dpi_of (24 * m) = m * 2 ^ 147"
proof -
  have "f32_round (24 * m * F32_ONE) (96 * F32_ONE) = m * 2 ^ 147"
    by (rule f32_round_exact) (use assms in \<open>simp_all add: F32_ONE_def\<close>)
  then show ?thesis using assms by (simp add: dpi_of_def f32_div_def f32_of_exact)
qed

lemma scale_px_exact:
  assumes "24 dvd d" and "d \<le> 960" and "0 \<le> v" and "v \<le> 600"
  shows "scale_px d v = v * int d div 96"
proof -
  obtain m where d: "d = 24 * m" using assms(1) by (rule dvdE)
  have m: "m \<le> 40" using assms(2) d by simp
  define n where "n = nat v"
  have v: "v = int n" "n \<le> 600" using assms by (simp_all add: n_def)
  have nm: "n * m \<le> 600 * 40" using v(2) m by (rule mult_le_mono)
  have one: "F32_ONE = 2 ^ 147 * 4" by (simp add: F32_ONE_def)
  have dpi: "dpi_of d = m * 2 ^ 147" unfolding d using m by (rule dpi_of_steps)
  have "f32_round (n * F32_ONE * (m * 2 ^ 147)) (F32_ONE * F32_ONE) = (n * m) * 2 ^ 147"
    by (rule f32_round_exact) (use nm in \<open>simp_all add: ac_simps\<close>)
  then have "f32_mul (f32_of (nat v)) (dpi_of d) = (n * m) * 2 ^ 147"
    using v by (simp add: f32_mul_def f32_of_exact dpi)
  moreover have "(n * m) * 2 ^ 147 div F32_ONE = n * m div 4" by (simp add: one) (simp only: mult.commute)
  moreover have "int (n * m div 4) = v * int d div 96" by (simp add: v d zdiv_int) (simp only: mult.commute)
  moreover have "int (n * m div 4) \<le> 2 ^ 31 - 1"
  proof -
    have "int x \<le> 2 ^ 31 - 1" if "x \<le> 600 * 40" for x :: nat using that by simp
    then show ?thesis using order_trans [OF div_le_dividend nm] .
  qed
  ultimately show ?thesis unfolding scale_px_def f32_to_i32_def by (simp only: min_absorb1)
qed

section \<open>Any scaling that is near enough\<close>

text \<open>
  The layout relies on this alone: a scaled length is below the exact one by less than a pixel, or
  by a pixel when the exact one is whole; the resolution is at least the usual one.
\<close>

locale scaling =
  fixes sc :: "int \<Rightarrow> int" and d :: int
  assumes upper: "0 \<le> v \<Longrightarrow> v \<le> 600 \<Longrightarrow> 96 * sc v \<le> v * d"
    and lower: "0 \<le> v \<Longrightarrow> v \<le> 600 \<Longrightarrow> v * d - 96 \<le> 96 * sc v"
    and resolution: "96 \<le> d"
lemma scaling_scale_px:
  assumes "96 \<le> d" and "d \<le> 960"
  shows "scaling (scale_px d) (int d)"
  using assms by unfold_locales (simp_all add: scale_px_bounds)

interpretation usual: scaling "scale_px 96" 96
  using scaling_scale_px [of 96] by simp

end
