(* ===== verification/View.thy ===== *)
theory View
  imports Dialog
begin

text \<open>
  \<open>crates/vault-app/src/ui.rs\<close>, painting: what \<open>WM_PAINT\<close> and \<open>WM_DRAWITEM\<close> draw, as the list of
  shapes and texts in the order they are drawn. \<open>sc\<close> stands for \<open>s(app, v)\<close>, the scaling to the
  resolution of the screen, \<open>cw\<close> and \<open>ch\<close> for the size of the client area. Fonts are named by
  their role; pens and brushes are the colours they are made of. The ellipsis of a label is written
  as three dots.
\<close>

section \<open>Shapes\<close>

definition BG :: u32 where "BG = rgb 0x1E 0x1E 0x24"
definition FIELD :: u32 where "FIELD = rgb 0x16 0x16 0x1C"
definition BORDER :: u32 where "BORDER = rgb 0x3A 0x3A 0x44"
definition TEXT :: u32 where "TEXT = rgb 0xEC 0xEC 0xF0"
definition ACCENT :: u32 where "ACCENT = rgb 0xE1 0xB9 0x4A"
definition ON_ACCENT :: u32 where "ON_ACCENT = rgb 0x2B 0x24 0x10"
definition BADGE_BG :: u32 where "BADGE_BG = rgb 0x2C 0x2C 0x36"

record rect =
  r_left :: int
  r_top :: int
  r_right :: int
  r_bottom :: int

datatype font = TitleFont | BodyFont | SmallFont | GlyphFont | ButtonFont | LinkFont

datatype caption =
    Words string
  | Symbol nat
  | Subtitle "string \<times> u64 option"
  | StatusLine status
  | Progress string u32

datatype alignment = LeftLine | Centered | RightLine | Wrapped

datatype stroke =
    Bezier u32 "(int \<times> int) list"
  | Ellipse u32 int int int int
  | Line u32 int int int int

text \<open>\<open>Supersampled rc w h bg ss\<close>: an image of \<open>w\<close> by \<open>h\<close> points, scaled into \<open>rc\<close>.\<close>

datatype shape =
    RoundBox rect u32 u32 int
  | FilledBox rect u32
  | Dot int int int u32
  | Caption font u32 rect caption alignment
  | Supersampled rect int int u32 "stroke list"

definition caption_empty :: "caption \<Rightarrow> bool" where
  "caption_empty c = (case c of Words s \<Rightarrow> s = [] | Subtitle (s, m) \<Rightarrow> s = [] \<and> m = None | StatusLine s \<Rightarrow> s = Note [] | _ \<Rightarrow> False)"

definition draw_text :: "font \<Rightarrow> u32 \<Rightarrow> rect \<Rightarrow> caption \<Rightarrow> alignment \<Rightarrow> shape list" where
  "draw_text f color r c al = (if caption_empty c then [] else [Caption f color r c al])"

definition draw_field_border :: "(int \<Rightarrow> int) \<Rightarrow> int \<Rightarrow> int \<Rightarrow> int \<Rightarrow> int \<Rightarrow> shape list" where
  "draw_field_border sc x y w h =
     [RoundBox \<lparr>r_left = x, r_top = y, r_right = x + w, r_bottom = y + h\<rparr> BORDER FIELD (sc 8)]"

definition SS :: int where "SS = 4"

text \<open>Half the width, half the height and the radius of the pupil, in points of the image.\<close>

definition eye_w :: "int \<Rightarrow> int" where "eye_w bw = max (bw * SS * 36 div 100) SS"
definition eye_h :: "int \<Rightarrow> int" where "eye_h bh = max (bh * SS * 22 div 100) SS"
definition eye_r :: "int \<Rightarrow> int" where "eye_r bh = max (bh * SS * 11 div 100) SS"

definition draw_eye :: "rect \<Rightarrow> u32 \<Rightarrow> bool \<Rightarrow> shape list" where
  "draw_eye rc color is_open =
     (let bw = r_right rc - r_left rc; bh = r_bottom rc - r_top rc
      in if bw \<le> 0 \<or> bh \<le> 0 then []
         else let cx = bw * SS div 2; cy = bh * SS div 2; w = eye_w bw; h = eye_h bh; pr = eye_r bh
              in [Supersampled rc (bw * SS) (bh * SS) FIELD
                    ([Bezier color [(cx - w, cy), (cx - w div 2, cy - h * 2), (cx + w div 2, cy - h * 2), (cx + w, cy)],
                      Bezier color [(cx - w, cy), (cx - w div 2, cy + h * 2), (cx + w div 2, cy + h * 2), (cx + w, cy)],
                      Ellipse color (cx - pr) (cy - pr) (cx + pr) (cy + pr)]
                     @ (if \<not> is_open then [Line color (cx - w) (cy + h + SS) (cx + w) (cy - h - SS)] else []))])"

section \<open>The window\<close>

text \<open>The title that \<open>run_dialog\<close> computes.\<close>

definition dialog_title :: "mode \<Rightarrow> string" where
  "dialog_title m =
     (case m of
        LockMode src \<Rightarrow> (case file_name src of Some n \<Rightarrow> n | None \<Rightarrow> [])
      | UnlockMode c \<Rightarrow> (case file_stem c of Some n \<Rightarrow> n | None \<Rightarrow> [])
      | DeleteMode c \<Rightarrow> (case file_stem c of Some n \<Rightarrow> n | None \<Rightarrow> [])
      | SetupMode _ \<Rightarrow> ''FolderVault'')"

definition paint_header :: "(int \<Rightarrow> int) \<Rightarrow> int \<Rightarrow> app \<Rightarrow> shape list" where
  "paint_header sc cw app =
     (let badge = \<lparr>r_left = sc 22, r_top = sc 20, r_right = sc 22 + sc 38, r_bottom = sc 20 + sc 38\<rparr>;
          text_left = sc 22 + sc 38 + sc 12
      in [RoundBox badge BADGE_BG BADGE_BG (sc 12)]
         @ draw_text GlyphFont ACCENT badge (Symbol 0xE72E) Centered
         @ draw_text TitleFont TEXT \<lparr>r_left = text_left, r_top = sc 21, r_right = cw - sc 46, r_bottom = sc 42\<rparr>
             (Words (dialog_title (a_mode app))) LeftLine
         @ draw_text SmallFont MUTED \<lparr>r_left = text_left, r_top = sc 43, r_right = cw - sc 46, r_bottom = sc 60\<rparr>
             (Subtitle (a_subtitle app)) LeftLine)"

definition progress_fill :: "int \<Rightarrow> u32 \<Rightarrow> int" where
  "progress_fill w_full pct = w_full * uint (min pct 100) div 100"

definition paint_busy :: "(int \<Rightarrow> int) \<Rightarrow> int \<Rightarrow> int \<Rightarrow> app \<Rightarrow> shape list" where
  "paint_busy sc cw ch app =
     (let y = ch div 2 + sc 8;
          track = \<lparr>r_left = sc 24, r_top = y, r_right = cw - sc 24, r_bottom = y + sc 6\<rparr>;
          w_full = r_right track - r_left track;
          verb = (case a_mode app of LockMode _ \<Rightarrow> ''Encrypting'' | DeleteMode _ \<Rightarrow> ''Deleting'' | _ \<Rightarrow> ''Decrypting'');
          label = (case a_mode app of DeleteMode _ \<Rightarrow> Words (verb @ ''...'') | _ \<Rightarrow> Progress verb (a_progress app))
      in [FilledBox track FIELD, FilledBox (track\<lparr>r_right := r_left track + progress_fill w_full (a_progress app)\<rparr>) ACCENT]
         @ draw_text SmallFont MUTED \<lparr>r_left = sc 24, r_top = y + sc 12, r_right = cw - sc 24, r_bottom = y + sc 32\<rparr> label LeftLine)"

definition paint_field :: "(int \<Rightarrow> int) \<Rightarrow> int \<Rightarrow> mode \<Rightarrow> edit option \<Rightarrow> int \<Rightarrow> shape list" where
  "paint_field sc cw m e y =
     (case (e, m) of
        (None, _) \<Rightarrow> []
      | (_, SetupMode _) \<Rightarrow> []
      | (Some e, _) \<Rightarrow> if \<not> e_visible e then [] else draw_field_border sc (sc 24) (sc y) (cw - sc 48) (sc 38))"

definition paint_dots :: "(int \<Rightarrow> int) \<Rightarrow> u32 \<Rightarrow> shape list" where
  "paint_dots sc fails =
     map (\<lambda>i. Dot (sc 24 + int i * sc 13) (sc 126) (sc 7) (if word_of_nat i < fails then DANGER else BORDER))
       [0..<unat MAX_ATTEMPTS]"

definition paint_input :: "(int \<Rightarrow> int) \<Rightarrow> int \<Rightarrow> app \<Rightarrow> shape list" where
  "paint_input sc cw app =
     paint_field sc cw (a_mode app) (a_edit app) 78 @ paint_field sc cw (a_mode app) (a_edit2 app) 122
     @ (case a_mode app of SetupMode _ \<Rightarrow> draw_field_border sc (sc 24) (sc 80) (cw - sc 48) (sc 68) | _ \<Rightarrow> [])
     @ (if is_unlock_or_delete (a_mode app)
        then paint_dots sc (a_fail_count app)
             @ draw_text SmallFont (a_color app)
                 \<lparr>r_left = sc 100, r_top = sc 126 - sc 5, r_right = cw - sc 24, r_bottom = sc 126 + sc 14\<rparr>
                 (StatusLine (a_status app)) RightLine
        else let top = (case a_mode app of LockMode _ \<Rightarrow> sc 166 | _ \<Rightarrow> sc 156)
             in draw_text SmallFont (a_color app)
                  \<lparr>r_left = sc 24, r_top = top, r_right = cw - sc 24, r_bottom = top + sc 44\<rparr>
                  (StatusLine (a_status app)) Wrapped)"

definition on_paint :: "(int \<Rightarrow> int) \<Rightarrow> int \<Rightarrow> int \<Rightarrow> app \<Rightarrow> shape list" where
  "on_paint sc cw ch app =
     paint_header sc cw app @ (case a_phase app of Busy \<Rightarrow> paint_busy sc cw ch app | _ \<Rightarrow> paint_input sc cw app)"

section \<open>The buttons\<close>

definition primary_colors :: "mode \<Rightarrow> bool \<Rightarrow> u32 \<times> u32" where
  "primary_colors m pressed =
     (case m of
        DeleteMode _ \<Rightarrow> (if pressed then rgb 0xB0 0x3A 0x39 else DANGER, rgb 0xFF 0xFF 0xFF)
      | _ \<Rightarrow> (if pressed then rgb 0xC9 0xA2 0x38 else ACCENT, ON_ACCENT))"

definition primary_label :: "mode \<Rightarrow> string" where
  "primary_label m =
     (case m of LockMode _ \<Rightarrow> ''Lock'' | UnlockMode _ \<Rightarrow> ''Unlock'' | DeleteMode _ \<Rightarrow> ''Delete'' | SetupMode _ \<Rightarrow> ''I saved it'')"

definition on_drawitem :: "(int \<Rightarrow> int) \<Rightarrow> nat \<Rightarrow> bool \<Rightarrow> rect \<Rightarrow> app \<Rightarrow> shape list" where
  "on_drawitem sc i pressed rc app =
     (if i = ID_PRIMARY
      then (case primary_colors (a_mode app) pressed of (bg, fg) \<Rightarrow>
              [FilledBox rc BG, RoundBox rc bg bg (sc 10)]
              @ draw_text ButtonFont fg rc (Words (primary_label (a_mode app))) Centered)
      else if i = ID_CLOSE
      then [FilledBox rc BG] @ draw_text BodyFont (if pressed then TEXT else MUTED) rc (Symbol 0x2715) Centered
      else if i = ID_EYE
      then [FilledBox rc FIELD] @ draw_eye rc (if pressed \<or> a_reveal app then ACCENT else MUTED) (a_reveal app)
      else if i = ID_LINK
      then (case a_mode app of
              SetupMode _ \<Rightarrow>
                draw_field_border sc (r_left rc) (r_top rc) (r_right rc - r_left rc) (r_bottom rc - r_top rc)
                @ draw_text SmallFont (if pressed then TEXT else MUTED) rc (Words ''Copy'') Centered
            | _ \<Rightarrow>
                [FilledBox rc BG]
                @ draw_text LinkFont (if pressed then ACCENT else MUTED) rc
                    (Words (if a_master_mode app then ''Use password'' else ''Use recovery code'')) LeftLine)
      else [])"

section \<open>What can be seen\<close>

text \<open>The bar of progress stays on its track, even for a worker that reports more than everything.\<close>

lemma progress_fill_bounds:
  assumes "0 \<le> w_full"
  shows "0 \<le> progress_fill w_full pct" and "progress_fill w_full pct \<le> w_full"
    and "100 \<le> pct \<Longrightarrow> progress_fill w_full pct = w_full"
proof -
  have p: "0 \<le> uint (min pct 100)" "uint (min pct 100) \<le> 100"
    by (auto simp: min_def word_le_def)
  show "0 \<le> progress_fill w_full pct" using mult_nonneg_nonneg [OF assms p(1)] by (simp add: progress_fill_def pos_imp_zdiv_nonneg_iff)
  have "w_full * uint (min pct 100) \<le> w_full * 100" using assms p(2) by (rule mult_left_mono [rotated])
  then show "progress_fill w_full pct \<le> w_full" by (simp add: progress_fill_def)
  assume "100 \<le> pct"
  then have "min pct 100 = 100" by (simp add: min_def)
  then show "progress_fill w_full pct = w_full" by (simp add: progress_fill_def)
qed

text \<open>The red dots are the failures, of which three are shown at most.\<close>

definition red_dots :: "shape list \<Rightarrow> nat" where
  "red_dots ss = length (filter (\<lambda>x. case x of Dot _ _ _ c \<Rightarrow> c = DANGER | _ \<Rightarrow> False) ss)"

lemma red_dots_of: "red_dots (paint_dots sc fails) = min 3 (unat fails)"
proof -
  have c: "BORDER \<noteq> DANGER" by (simp add: BORDER_def DANGER_def rgb_def)
  have "[0..<unat MAX_ATTEMPTS] = [0, 1, 2]" by (simp add: MAX_ATTEMPTS_def upt_rec)
  then have "red_dots (paint_dots sc fails) = (if 0 < fails then 1 else 0) + (if 1 < fails then 1 else 0) + (if 2 < fails then 1 else 0)"
    using c by (simp add: red_dots_def paint_dots_def)
  also have "\<dots> = min 3 (unat fails)" by (auto simp: word_less_nat_alt)
  finally show ?thesis .
qed

text \<open>A field that the dialog hides is not drawn either; while a worker runs, nothing is drawn of the input.\<close>

lemma hidden_field: "paint_field sc cw m (Some e) y = [] \<longleftrightarrow> \<not> e_visible e \<or> (\<exists>code. m = SetupMode code)"
  by (auto simp: paint_field_def draw_field_border_def split: mode.split)

lemma busy_paints_no_input: "a_phase app = Busy \<Longrightarrow> red_dots (on_paint sc cw ch app) = 0"
  by (auto simp: on_paint_def red_dots_def paint_header_def paint_busy_def draw_text_def Let_def split: mode.split)

text \<open>Painting never depends on what was typed: passwords are shown by their controls only.\<close>

lemma paint_field_text: "paint_field sc cw m (map_option (\<lambda>e. e\<lparr>e_text := t\<rparr>) e) y = paint_field sc cw m e y"
  by (cases e) (simp_all add: paint_field_def split: mode.split)

lemma typing_not_painted:
  "on_paint sc cw ch (set_text confirm t app) = on_paint sc cw ch app"
  "on_drawitem sc i pressed rc (set_text confirm t app) = on_drawitem sc i pressed rc app"
  by (cases "a_mode app"; simp add: on_paint_def paint_header_def paint_busy_def paint_input_def set_text_def paint_field_text
      on_drawitem_def Let_def split: phase.split)+

text \<open>In a button of at least three by five points the eye stays inside its image; the slash too.\<close>

lemma eye_fits:
  assumes "3 \<le> bw" and "5 \<le> bh"
  shows "0 \<le> bw * SS div 2 - eye_w bw" and "bw * SS div 2 + eye_w bw \<le> bw * SS"
    and "0 \<le> bh * SS div 2 - eye_h bh * 2" and "bh * SS div 2 + eye_h bh * 2 \<le> bh * SS"
    and "0 \<le> bh * SS div 2 - eye_h bh - SS" and "eye_r bh \<le> eye_h bh"
proof -
  have "bw * 4 * 36 div 100 \<le> bw * 200 div 100" "bh * 4 * 22 div 100 \<le> bh * 100 div 100"
    "bh * 4 * 11 div 100 \<le> bh * 4 * 22 div 100"
    by (intro zdiv_mono1; use assms in simp)+
  then have b: "eye_w bw \<le> bw * 2" "eye_h bh \<le> bh" "eye_r bh \<le> eye_h bh"
    using assms by (auto simp: eye_w_def eye_h_def eye_r_def SS_def max_def)
  moreover have "bw * SS div 2 = bw * 2" "bh * SS div 2 = bh * 2" "bw * SS = bw * 2 * 2" "bh * SS = bh * 2 * 2"
    by (simp_all add: SS_def)
  ultimately show "0 \<le> bw * SS div 2 - eye_w bw" "bw * SS div 2 + eye_w bw \<le> bw * SS"
    "0 \<le> bh * SS div 2 - eye_h bh * 2" "bh * SS div 2 + eye_h bh * 2 \<le> bh * SS"
    "0 \<le> bh * SS div 2 - eye_h bh - SS" "eye_r bh \<le> eye_h bh"
    using assms by (simp_all add: SS_def)
qed

text \<open>The eye is crossed out exactly while the password is hidden.\<close>

lemma eye_crossed_out:
  assumes "r_left rc < r_right rc" and "r_top rc < r_bottom rc"
  shows "(\<exists>w h ss c x y x' y'. Supersampled rc w h FIELD ss \<in> set (on_drawitem sc ID_EYE pressed rc app) \<and> Line c x y x' y' \<in> set ss)
    \<longleftrightarrow> \<not> a_reveal app"
  using assms by (auto simp: on_drawitem_def draw_eye_def Let_def ID_EYE_def ID_PRIMARY_def ID_CLOSE_def)

end
