(* ===== verification/Layout.thy ===== *)
theory Layout
  imports Scaling View "HOL-Library.Signed_Division"
begin

text \<open>
  \<open>crates/vault-app/src/ui.rs\<close>: where things are. The window of a dialog (\<open>run_dialog\<close>), its fonts,
  child windows and cue banners (\<open>on_create\<close>), and the messages of the window procedure that carry
  no state. \<open>sc\<close> is the scaling of \<open>Scaling\<close>, \<open>cw\<close> the width of the client area.
  Results of the windowing system (the monitor, whether a window is created, the default answer to
  a message) are arguments; constants of its interface have their documented values.
\<close>

section \<open>The window\<close>

definition window_size :: "mode \<Rightarrow> int \<times> int" where
  "window_size m =
     (case m of LockMode _ \<Rightarrow> (420, 252) | UnlockMode _ \<Rightarrow> (420, 214) | DeleteMode _ \<Rightarrow> (420, 214) | SetupMode _ \<Rightarrow> (460, 268))"

text \<open>\<open>work_area\<close>: the rectangle that \<open>GetMonitorInfoW\<close> has filled in, or zeros when it fails.\<close>

definition work_area :: "rect option \<Rightarrow> rect" where
  "work_area mi = (case mi of Some r \<Rightarrow> r | None \<Rightarrow> \<lparr>r_left = 0, r_top = 0, r_right = 0, r_bottom = 0\<rparr>)"

definition place_window :: "rect option \<Rightarrow> mode \<Rightarrow> rect" where
  "place_window mi m =
     (case window_size m of (w_du, h_du) \<Rightarrow>
        let wa = work_area mi; mw = r_right wa - r_left wa; mh = r_bottom wa - r_top wa;
            x = r_left wa + (mw - w_du) sdiv 2; y = r_top wa + (mh - h_du) sdiv 2
        in \<lparr>r_left = x, r_top = y, r_right = x + w_du, r_bottom = y + h_du\<rparr>)"

text \<open>A dialog whose window cannot be created ends at once, without success.\<close>

definition show_dialog :: "bool \<Rightarrow> host \<Rightarrow> u64 \<Rightarrow> mode \<Rightarrow> byte list \<Rightarrow> byte list option \<Rightarrow> world \<Rightarrow> dialog + bool" where
  "show_dialog created H now m hmac_key master_pub w =
     (if created then Inl (opened H now m hmac_key master_pub w) else Inr False)"

lemma place_window_centred:
  assumes "mi = Some wa" and "window_size m = (w, h)" and "w \<le> r_right wa - r_left wa" and "h \<le> r_bottom wa - r_top wa"
  shows "r_left wa \<le> r_left (place_window mi m)" and "r_right (place_window mi m) \<le> r_right wa"
    and "r_top wa \<le> r_top (place_window mi m)" and "r_bottom (place_window mi m) \<le> r_bottom wa"
    and "\<bar>(r_left (place_window mi m) - r_left wa) - (r_right wa - r_right (place_window mi m))\<bar> \<le> 1"
proof -
  have "x sdiv 2 = x div 2" if "0 \<le> x" for x :: int
    using that by (simp add: signed_divide_int_def sgn_if)
  then show "r_left wa \<le> r_left (place_window mi m)" "r_right (place_window mi m) \<le> r_right wa"
    "r_top wa \<le> r_top (place_window mi m)" "r_bottom (place_window mi m) \<le> r_bottom wa"
    "\<bar>(r_left (place_window mi m) - r_left wa) - (r_right wa - r_right (place_window mi m))\<bar> \<le> 1"
    using assms by (simp_all add: place_window_def work_area_def Let_def)
qed

section \<open>Fonts\<close>

record font_spec =
  f_height :: int
  f_weight :: int
  f_underline :: bool
  f_face :: string

definition FW_NORMAL :: int where "FW_NORMAL = 400"
definition FW_MEDIUM :: int where "FW_MEDIUM = 500"

definition font_height :: "nat \<Rightarrow> nat \<Rightarrow> int" where
  "font_height d pt = - f32_to_i32 (f32_div (f32_mul (f32_mul (f32_of pt) (dpi_of d)) (f32_of 96)) (f32_of 72))"

definition mk_font_u :: "nat \<Rightarrow> nat \<Rightarrow> int \<Rightarrow> bool \<Rightarrow> string \<Rightarrow> font_spec" where
  "mk_font_u d pt weight underline face =
     \<lparr>f_height = font_height d pt, f_weight = weight, f_underline = underline, f_face = face\<rparr>"

definition mk_font :: "nat \<Rightarrow> nat \<Rightarrow> int \<Rightarrow> string \<Rightarrow> font_spec" where
  "mk_font d pt weight face = mk_font_u d pt weight False face"

definition ui_disp :: string where "ui_disp = ''Segoe UI Variable Display''"
definition ui_text :: string where "ui_text = ''Segoe UI Variable Text''"

definition app_font :: "nat \<Rightarrow> font \<Rightarrow> font_spec" where
  "app_font d f =
     (case f of
        TitleFont \<Rightarrow> mk_font d 13 FW_MEDIUM ui_disp
      | BodyFont \<Rightarrow> mk_font d 10 FW_NORMAL ui_text
      | SmallFont \<Rightarrow> mk_font d 9 FW_NORMAL ui_text
      | GlyphFont \<Rightarrow> mk_font d 15 FW_NORMAL ''Segoe MDL2 Assets''
      | ButtonFont \<Rightarrow> mk_font d 10 FW_MEDIUM ui_text
      | LinkFont \<Rightarrow> mk_font_u d 9 FW_NORMAL True ui_text)"

definition code_font :: "nat \<Rightarrow> font_spec" where
  "code_font d = mk_font d 11 FW_NORMAL ''Consolas''"

section \<open>Child windows\<close>

definition ID_EDIT :: nat where "ID_EDIT = 100"
definition ID_EDIT2 :: nat where "ID_EDIT2 = 101"

definition WS_CHILD :: u32 where "WS_CHILD = 0x40000000"
definition WS_VISIBLE :: u32 where "WS_VISIBLE = 0x10000000"
definition WS_TABSTOP :: u32 where "WS_TABSTOP = 0x00010000"
definition ES_MULTILINE :: u32 where "ES_MULTILINE = 0x4"
definition ES_PASSWORD :: u32 where "ES_PASSWORD = 0x20"
definition ES_AUTOHSCROLL :: u32 where "ES_AUTOHSCROLL = 0x80"
definition ES_READONLY :: u32 where "ES_READONLY = 0x800"
definition BS_OWNERDRAW :: u32 where "BS_OWNERDRAW = 0xB"

record control =
  c_class :: string
  c_style :: u32
  c_id :: nat
  c_x :: int
  c_y :: int
  c_w :: int
  c_h :: int

definition place_edit :: "(int \<Rightarrow> int) \<Rightarrow> int \<Rightarrow> int \<Rightarrow> int \<Rightarrow> u32 \<Rightarrow> nat \<Rightarrow> control" where
  "place_edit sc cw y h style i =
     (let right_pad = sc 52
      in \<lparr>c_class = ''EDIT'', c_style = style OR WS_CHILD OR WS_VISIBLE OR WS_TABSTOP, c_id = i,
          c_x = sc 24 + sc 14, c_y = y + (h - sc 20) sdiv 2, c_w = cw - sc 24 - sc 14 - right_pad, c_h = sc 20\<rparr>)"

definition mk_button :: "int \<Rightarrow> int \<Rightarrow> int \<Rightarrow> int \<Rightarrow> nat \<Rightarrow> control" where
  "mk_button x y w h i =
     \<lparr>c_class = ''BUTTON'', c_style = BS_OWNERDRAW OR WS_CHILD OR WS_VISIBLE OR WS_TABSTOP, c_id = i,
      c_x = x, c_y = y, c_w = w, c_h = h\<rparr>"

definition lock_controls :: "(int \<Rightarrow> int) \<Rightarrow> int \<Rightarrow> control list" where
  "lock_controls sc cw =
     [place_edit sc cw (sc 78) (sc 38) (ES_PASSWORD OR ES_AUTOHSCROLL) ID_EDIT,
      place_edit sc cw (sc 122) (sc 38) (ES_PASSWORD OR ES_AUTOHSCROLL) ID_EDIT2,
      mk_button (cw - sc 24 - sc 26) (sc 78 + sc 7) (sc 24) (sc 24) ID_EYE,
      mk_button (cw - sc (24 + 104)) (sc (252 - 22 - 36)) (sc 104) (sc 36) ID_PRIMARY]"

definition unlock_controls :: "(int \<Rightarrow> int) \<Rightarrow> int \<Rightarrow> control list" where
  "unlock_controls sc cw =
     [place_edit sc cw (sc 78) (sc 38) (ES_PASSWORD OR ES_AUTOHSCROLL) ID_EDIT,
      mk_button (cw - sc 24 - sc 26) (sc 78 + sc 7) (sc 24) (sc 24) ID_EYE,
      mk_button (cw - sc (24 + 104)) (sc (214 - 22 - 36)) (sc 104) (sc 36) ID_PRIMARY,
      mk_button (sc 24) (sc (214 - 22 - 32)) (sc 160) (sc 28) ID_LINK]"

definition setup_controls :: "(int \<Rightarrow> int) \<Rightarrow> int \<Rightarrow> control list" where
  "setup_controls sc cw =
     [\<lparr>c_class = ''EDIT'', c_style = (ES_MULTILINE OR ES_READONLY) OR WS_CHILD OR WS_VISIBLE, c_id = ID_EDIT,
       c_x = sc 24 + sc 14, c_y = sc 86, c_w = cw - sc 48 - sc 28, c_h = sc 56\<rparr>,
      mk_button (cw - sc (24 + 120)) (sc (268 - 22 - 36)) (sc 120) (sc 36) ID_PRIMARY,
      mk_button (sc 24) (sc (268 - 22 - 36)) (sc 92) (sc 36) ID_LINK]"

text \<open>All child windows, in the order of their creation.\<close>

definition dialog_controls :: "(int \<Rightarrow> int) \<Rightarrow> int \<Rightarrow> mode \<Rightarrow> control list" where
  "dialog_controls sc cw m =
     (case m of LockMode _ \<Rightarrow> lock_controls sc cw | UnlockMode _ \<Rightarrow> unlock_controls sc cw
              | DeleteMode _ \<Rightarrow> unlock_controls sc cw | SetupMode _ \<Rightarrow> setup_controls sc cw)
     @ [mk_button (cw - sc 40) (sc 14) (sc 26) (sc 26) ID_CLOSE]"

definition cue_banners :: "mode \<Rightarrow> (nat \<times> string) list" where
  "cue_banners m =
     (case m of LockMode _ \<Rightarrow> [(ID_EDIT, ''Password''), (ID_EDIT2, ''Confirm password'')]
              | SetupMode _ \<Rightarrow> [] | _ \<Rightarrow> [(ID_EDIT, ''Password'')])"

text \<open>The \<open>WM_SETFONT\<close> messages, in the order they are sent; a control has the font of the last one.\<close>

definition set_fonts :: "nat \<Rightarrow> mode \<Rightarrow> (nat \<times> font_spec) list" where
  "set_fonts d m =
     (case m of SetupMode _ \<Rightarrow> [(ID_EDIT, code_font d)] | _ \<Rightarrow> [])
     @ map (\<lambda>i. (i, app_font d BodyFont)) (case m of LockMode _ \<Rightarrow> [ID_EDIT, ID_EDIT2] | _ \<Rightarrow> [ID_EDIT])"

definition font_of :: "nat \<Rightarrow> mode \<Rightarrow> nat \<Rightarrow> font_spec option" where
  "font_of d m i = map_of (rev (set_fonts d m)) i"

section \<open>Where the controls are\<close>

definition inside :: "int \<Rightarrow> int \<Rightarrow> control \<Rightarrow> bool" where
  "inside cw ch c \<longleftrightarrow> 0 \<le> c_x c \<and> 0 \<le> c_y c \<and> 0 < c_w c \<and> 0 < c_h c \<and> c_x c + c_w c \<le> cw \<and> c_y c + c_h c \<le> ch"

definition apart :: "control \<Rightarrow> control \<Rightarrow> bool" where
  "apart a b \<longleftrightarrow> c_x a + c_w a \<le> c_x b \<or> c_x b + c_w b \<le> c_x a \<or> c_y a + c_h a \<le> c_y b \<or> c_y b + c_h b \<le> c_y a"

definition well_laid :: "int \<Rightarrow> int \<Rightarrow> control list \<Rightarrow> bool" where
  "well_laid cw ch cs \<longleftrightarrow> list_all (inside cw ch) cs \<and> sorted_wrt apart cs"

lemmas control_defs = dialog_controls_def lock_controls_def unlock_controls_def setup_controls_def
  place_edit_def mk_button_def inside_def apart_def

lemma sdiv_2 [simp]: "0 \<le> x \<Longrightarrow> x sdiv 2 = x div 2" for x :: int
  by (simp add: signed_divide_int_def sgn_if)

definition framed :: "control \<Rightarrow> shape \<Rightarrow> bool" where
  "framed c sh \<longleftrightarrow>
     (case sh of RoundBox r _ _ _ \<Rightarrow>
        r_left r \<le> c_x c \<and> c_x c + c_w c \<le> r_right r \<and> r_top r \<le> c_y c \<and> c_y c + c_h c \<le> r_bottom r
      | _ \<Rightarrow> False)"

lemmas id_defs = ID_PRIMARY_def ID_CLOSE_def ID_LINK_def ID_EYE_def ID_EDIT_def ID_EDIT2_def

text \<open>The primary button stands 22 units above the lower edge that the window is meant to have.\<close>

lemma primary_control:
  assumes "window_size m = (w, h)" and "c \<in> set (dialog_controls sc cw m)" and "c_id c = ID_PRIMARY"
  shows "c_y c = sc (h - 58) \<and> c_h c = sc 36"
proof (cases m)
  case (LockMode p)
  then show ?thesis using assms by (auto simp: window_size_def control_defs Let_def id_defs)
next
  case (UnlockMode p)
  then show ?thesis using assms by (auto simp: window_size_def control_defs Let_def id_defs)
next
  case (DeleteMode p)
  then show ?thesis using assms by (auto simp: window_size_def control_defs Let_def id_defs)
next
  case (SetupMode code)
  then show ?thesis using assms by (auto simp: window_size_def control_defs Let_def id_defs)
qed

context scaling
begin

text \<open>The lengths that the layout uses.\<close>

lemmas lengths = resolution
  lower [of 7, simplified] upper [of 7, simplified] lower [of 14, simplified] upper [of 14, simplified]
  lower [of 20, simplified] upper [of 20, simplified] lower [of 24, simplified] upper [of 24, simplified]
  lower [of 26, simplified] upper [of 26, simplified] lower [of 28, simplified] upper [of 28, simplified]
  lower [of 36, simplified] upper [of 36, simplified] lower [of 38, simplified] upper [of 38, simplified]
  lower [of 40, simplified] upper [of 40, simplified] lower [of 48, simplified] upper [of 48, simplified]
  lower [of 52, simplified] upper [of 52, simplified] lower [of 56, simplified] upper [of 56, simplified]
  lower [of 78, simplified] upper [of 78, simplified] lower [of 86, simplified] upper [of 86, simplified]
  lower [of 92, simplified] upper [of 92, simplified] lower [of 104, simplified] upper [of 104, simplified]
  lower [of 120, simplified] upper [of 120, simplified] lower [of 122, simplified] upper [of 122, simplified]
  lower [of 128, simplified] upper [of 128, simplified] lower [of 144, simplified] upper [of 144, simplified]
  lower [of 156, simplified] upper [of 156, simplified] lower [of 160, simplified] upper [of 160, simplified]
  lower [of 194, simplified] upper [of 194, simplified] lower [of 210, simplified] upper [of 210, simplified]
  lower [of 214, simplified] upper [of 214, simplified] lower [of 252, simplified] upper [of 252, simplified]
  lower [of 268, simplified] upper [of 268, simplified] lower [of 420, simplified] upper [of 420, simplified]
  lower [of 460, simplified] upper [of 460, simplified]

text \<open>In a client area of the scaled size every control is inside, and no two overlap.\<close>

lemma field_text:
  "0 \<le> sc 38 - sc 20" "0 \<le> (sc 38 - sc 20) div 2" "(sc 38 - sc 20) div 2 + sc 20 \<le> sc 38"
  using lengths by simp_all

lemma lock_laid: "sc 420 \<le> cw \<Longrightarrow> sc 252 \<le> ch \<Longrightarrow> well_laid cw ch (dialog_controls sc cw (LockMode p))"
  using lengths field_text by (simp add: well_laid_def control_defs Let_def)

lemma unlock_laid:
  "sc 420 \<le> cw \<Longrightarrow> sc 214 \<le> ch \<Longrightarrow> well_laid cw ch (unlock_controls sc cw @ [mk_button (cw - sc 40) (sc 14) (sc 26) (sc 26) ID_CLOSE])"
  using lengths field_text by (simp add: well_laid_def control_defs Let_def)

lemma setup_laid: "sc 460 \<le> cw \<Longrightarrow> sc 268 \<le> ch \<Longrightarrow> well_laid cw ch (dialog_controls sc cw (SetupMode code))"
  using lengths by (simp add: well_laid_def control_defs Let_def)

lemma laid_when_scaled:
  assumes "window_size m = (w, h)" and "sc w \<le> cw" and "sc h \<le> ch"
  shows "well_laid cw ch (dialog_controls sc cw m)"
  using assms lock_laid unlock_laid setup_laid
  by (cases m) (simp_all add: window_size_def dialog_controls_def)

lemma primary_bottom:
  assumes "window_size m = (w, h)" and "c \<in> set (dialog_controls sc cw m)" and "c_id c = ID_PRIMARY"
  shows "120 \<le> d \<Longrightarrow> h < c_y c + c_h c" and "144 \<le> d \<Longrightarrow> h \<le> c_y c"
proof -
  have "c_y c = sc (h - 58)" "c_h c = sc 36" using primary_control [OF assms] by simp_all
  moreover have "h = 252 \<or> h = 214 \<or> h = 268" using assms(1) by (auto simp: window_size_def split: mode.splits)
  ultimately show "120 \<le> d \<Longrightarrow> h < c_y c + c_h c" "144 \<le> d \<Longrightarrow> h \<le> c_y c"
    using lower [of 194] lower [of 156] lower [of 210] lower [of 36] by auto
qed

text \<open>
  The eye stands in the gutter to the right of its field; text and eye stand inside the frame that
  is painted for the field, and so does the code of the setup dialog.
\<close>

lemma eye_beside_field:
  "c_x (place_edit sc cw y h style i) + c_w (place_edit sc cw y h style i) \<le> cw - sc 24 - sc 26"
  using lengths by (simp add: place_edit_def Let_def)

lemma field_in_frame:
  assumes "y = 78 \<or> y = 122" and "sc 420 \<le> cw"
  shows "list_all (framed (place_edit sc cw (sc y) (sc 38) style i)) (draw_field_border sc (sc 24) (sc y) (cw - sc 48) (sc 38))"
  using assms lengths field_text by (auto simp: framed_def draw_field_border_def place_edit_def Let_def)

lemma eye_in_frame:
  "sc 420 \<le> cw \<Longrightarrow> list_all (framed (mk_button (cw - sc 24 - sc 26) (sc 78 + sc 7) (sc 24) (sc 24) ID_EYE))
     (draw_field_border sc (sc 24) (sc 78) (cw - sc 48) (sc 38))"
  using lengths by (simp add: framed_def draw_field_border_def mk_button_def)

lemma code_in_frame:
  assumes "c \<in> set (dialog_controls sc cw (SetupMode code))" and "c_id c = ID_EDIT" and "sc 460 \<le> cw"
  shows "list_all (framed c) (draw_field_border sc (sc 24) (sc 80) (cw - sc 48) (sc 68))"
proof -
  have "c_x c = sc 24 + sc 14 \<and> c_y c = sc 86 \<and> c_w c = cw - sc 48 - sc 28 \<and> c_h c = sc 56"
    using assms(1,2) by (auto simp: control_defs id_defs)
  moreover have "sc 24 + sc 14 + (cw - sc 48 - sc 28) \<le> sc 24 + (cw - sc 48)" "0 \<le> sc 14"
    using lower [of 28] upper [of 14] lower [of 14] resolution by simp_all
  moreover have "sc 80 \<le> sc 86" "sc 86 + sc 56 \<le> sc 80 + sc 68"
    using lower [of 86] upper [of 86] upper [of 80] lower [of 80] upper [of 56] lower [of 68] resolution by simp_all
  ultimately show ?thesis by (simp add: framed_def draw_field_border_def)
qed

end

section \<open>The window and its contents\<close>

lemma has_primary:
  obtains c where "c \<in> set (dialog_controls sc cw m)" and "c_id c = ID_PRIMARY"
proof (rule that)
  let ?c = "the (List.find (\<lambda>c. c_id c = ID_PRIMARY) (dialog_controls sc cw m))"
  show "?c \<in> set (dialog_controls sc cw m)" "c_id ?c = ID_PRIMARY"
    by (cases m; simp add: control_defs Let_def id_defs)+
qed

text \<open>
  C36: The controls of a dialog never overlap and fit a client area of the scaled size of the
  dialog. The window is created with that size in pixels, without scaling, though: at the usual
  resolution everything fits, from a scaling of 125 percent on the button that starts the operation
  reaches below the window, and from 150 percent on it is entirely below.
\<close>

theorem dialog_layout:
  assumes "96 \<le> d" and "d \<le> 960" and "window_size m = (w, h)"
  shows "(\<forall>cw ch. scale_px d w \<le> cw \<longrightarrow> scale_px d h \<le> ch \<longrightarrow> well_laid cw ch (dialog_controls (scale_px d) cw m))
    \<and> (d = 96 \<longrightarrow> well_laid w h (dialog_controls (scale_px d) w m))
    \<and> (120 \<le> d \<longrightarrow> \<not> well_laid w h (dialog_controls (scale_px d) w m))
    \<and> (144 \<le> d \<longrightarrow> (\<forall>c \<in> set (dialog_controls (scale_px d) w m). c_id c = ID_PRIMARY \<longrightarrow> h \<le> c_y c))"
proof (intro conjI allI impI ballI)
  note sc = scaling_scale_px [OF assms(1,2)]
  show laid: "well_laid cw ch (dialog_controls (scale_px d) cw m)" if "scale_px d w \<le> cw" "scale_px d h \<le> ch" for cw ch
    using scaling.laid_when_scaled [OF sc assms(3)] that .
  show "well_laid w h (dialog_controls (scale_px d) w m)" if "d = 96"
    by (rule laid; use that assms(3) in \<open>auto simp: window_size_def scale_px_exact split: mode.splits\<close>)
  obtain c where c: "c \<in> set (dialog_controls (scale_px d) w m)" "c_id c = ID_PRIMARY" by (rule has_primary)
  show "\<not> well_laid w h (dialog_controls (scale_px d) w m)" if "120 \<le> d"
  proof
    assume "well_laid w h (dialog_controls (scale_px d) w m)"
    then have "inside w h c" using c(1) by (simp add: well_laid_def list_all_iff)
    then show False using scaling.primary_bottom(1) [OF sc assms(3) c] that by (simp add: inside_def)
  qed
  show "h \<le> c_y c" if "144 \<le> d" "c \<in> set (dialog_controls (scale_px d) w m)" "c_id c = ID_PRIMARY" for c
    using scaling.primary_bottom(2) [OF sc assms(3) that(2,3)] that(1) by simp
qed

theorem dialog_layout_witness:
  "well_laid 420 252 (dialog_controls (scale_px 96) 420 (LockMode []))
   \<and> \<not> well_laid 420 252 (dialog_controls (scale_px 144) 420 (LockMode []))"
  using dialog_layout [of 96 "LockMode []" 420 252] dialog_layout [of 144 "LockMode []" 420 252]
  by (simp add: window_size_def)

section \<open>The controls and the state of the dialog\<close>

text \<open>
  The edit controls that exist are those of the state machine, and they hide their text there
  exactly when they are created with \<open>ES_PASSWORD\<close>. The keyboard goes from the password to its
  confirmation first; the code of the setup dialog cannot be reached.
\<close>

definition control_of :: "mode \<Rightarrow> nat \<Rightarrow> control option" where
  "control_of m i = List.find (\<lambda>c. c_id c = i) (dialog_controls (\<lambda>v. v) 0 m)"

definition has_style :: "u32 \<Rightarrow> control \<Rightarrow> bool" where
  "has_style st c \<longleftrightarrow> c_style c AND st = st"

definition tab_order :: "mode \<Rightarrow> nat list" where
  "tab_order m = map c_id (filter (has_style WS_TABSTOP) (dialog_controls (\<lambda>v. v) 0 m))"

lemmas style_defs = has_style_def WS_CHILD_def WS_VISIBLE_def WS_TABSTOP_def ES_MULTILINE_def ES_PASSWORD_def
  ES_AUTOHSCROLL_def ES_READONLY_def BS_OWNERDRAW_def

lemma styles_of_edits:
  "map_option (has_style ES_PASSWORD) (control_of m ID_EDIT) = Some (\<forall>code. m \<noteq> SetupMode code)"
  "map_option (has_style ES_PASSWORD) (control_of m ID_EDIT2) = (if \<exists>src. m = LockMode src then Some True else None)"
  by (cases m; simp add: control_of_def control_defs Let_def id_defs style_defs)+

lemma edits_show_header [simp]:
  "map_option e_masked (a_edit (show_header now l h a)) = map_option e_masked (a_edit a)"
  "a_edit2 (show_header now l h a) = a_edit2 a"
  by (auto simp: show_header_def enter_lockout_def update_countdown_def app_ops Let_def option.map_comp comp_def split: phase.split)

lemma masked_show_header [simp]:
  "(\<exists>e. a_edit (show_header now l h a) = Some e \<and> e_masked e) \<longleftrightarrow> (\<exists>e. a_edit a = Some e \<and> e_masked e)"
  using edits_show_header(1) [of now l h a] by (cases "a_edit a"; cases "a_edit (show_header now l h a)") simp_all

lemma edits_created:
  assumes "on_create H now (new_app m hmac_key master_pub) w = (app, w')"
  shows "map_option e_masked (a_edit app) = map_option (has_style ES_PASSWORD) (control_of m ID_EDIT)
    \<and> map_option e_masked (a_edit2 app) = map_option (has_style ES_PASSWORD) (control_of m ID_EDIT2)"
proof (cases m)
  case (LockMode p)
  then show ?thesis using assms unfolding styles_of_edits by (auto simp: on_create_def new_app_def mk_edit_def)
next
  case (UnlockMode c)
  obtain r v where "inspect (host_crypto H) (host_os H) c hmac_key w = (r, v)" by fastforce
  with UnlockMode show ?thesis using assms unfolding styles_of_edits
    by (cases r) (auto simp: on_create_def new_app_def mk_edit_def Let_def)
next
  case (DeleteMode c)
  obtain r v where "inspect (host_crypto H) (host_os H) c hmac_key w = (r, v)" by fastforce
  with DeleteMode show ?thesis using assms unfolding styles_of_edits
    by (cases r) (auto simp: on_create_def new_app_def mk_edit_def Let_def)
next
  case (SetupMode code)
  then show ?thesis using assms unfolding styles_of_edits
    by (auto simp: on_create_def new_app_def mk_edit_def set_status_def)
qed

lemma tab_order_of:
  "tab_order m =
     (case m of LockMode _ \<Rightarrow> [ID_EDIT, ID_EDIT2, ID_EYE, ID_PRIMARY, ID_CLOSE]
              | SetupMode _ \<Rightarrow> [ID_PRIMARY, ID_LINK, ID_CLOSE]
              | _ \<Rightarrow> [ID_EDIT, ID_EYE, ID_PRIMARY, ID_LINK, ID_CLOSE])"
  by (cases m) (simp_all add: tab_order_def control_defs Let_def style_defs)

text \<open>The code of the setup dialog is shown in the font of the body: the one made for it is replaced at once.\<close>

lemma code_font_replaced: "font_of d (SetupMode code) ID_EDIT = Some (app_font d BodyFont)"
  by (simp add: font_of_def set_fonts_def)

text \<open>
  At the scalings Windows offers, a font is \<open>pt * d / 72\<close> pixels high, rounded down (or one less),
  and the texts of the header and of the buttons are not higher than their boxes.
\<close>

lemma font_height_bounds:
  assumes "24 dvd d" and "0 < d" and "d \<le> 960" and "0 < pt" and "pt \<le> 60"
  shows "72 * - font_height d pt \<le> int (pt * d)" and "int (pt * d) - 72 \<le> 72 * - font_height d pt"
proof -
  obtain m where d: "d = 24 * m" using assms(1) by (rule dvdE)
  have m: "m \<le> 40" "0 < m" using assms(2,3) d by simp_all
  have ptm: "pt * m \<le> 60 * 40" using assms(5) m(1) by (rule mult_le_mono)
  have "f32_mul (f32_of pt) (dpi_of d) = pt * m * 2 ^ 147"
    unfolding f32_mul_def by (rule f32_round_exact) (use assms ptm m in \<open>simp_all add: d F32_ONE_def dpi_of_steps f32_of_exact\<close>)
  moreover have "f32_round (pt * m * 2 ^ 147 * (96 * F32_ONE)) (F32_ONE * F32_ONE) = pt * m * 96 * 2 ^ 147"
    by (rule f32_round_exact) (use ptm in \<open>simp_all add: ac_simps\<close>)
  then have "f32_mul (pt * m * 2 ^ 147) (f32_of 96) = pt * d * F32_ONE"
    by (simp add: f32_mul_def f32_of_exact d F32_ONE_def)
  ultimately have h: "- font_height d pt = f32_to_i32 (f32_round (pt * d * F32_ONE) (72 * F32_ONE))"
    by (simp add: font_height_def f32_div_def f32_of_exact)
  have "0 < pt * d" using assms by simp
  moreover have "pt * d \<le> 60 * 960" using assms(5,3) by (rule mult_le_mono)
  ultimately show "72 * - font_height d pt \<le> int (pt * d)" and "int (pt * d) - 72 \<le> 72 * - font_height d pt"
    using f32_quotient [of "pt * d" 72] h by simp_all
qed

lemma header_texts_fit:
  assumes "24 dvd d" and "96 \<le> d" and "d \<le> 960"
  shows "- f_height (app_font d TitleFont) \<le> scale_px d 42 - scale_px d 21"
    and "- f_height (app_font d SmallFont) \<le> scale_px d 60 - scale_px d 43"
    and "- f_height (app_font d ButtonFont) \<le> scale_px d 36"
    and "- f_height (app_font d LinkFont) \<le> scale_px d 28"
  using assms font_height_bounds(1) [of d 13] font_height_bounds(1) [of d 9] font_height_bounds(1) [of d 10]
    scale_px_bounds [of d 42] scale_px_bounds [of d 21] scale_px_bounds [of d 60] scale_px_bounds [of d 43]
    scale_px_bounds [of d 36] scale_px_bounds [of d 28]
  by (simp_all add: app_font_def mk_font_def mk_font_u_def)

section \<open>Messages without state\<close>

text \<open>\<open>WM_CTLCOLOREDIT\<close>: the colours of text, its background and the brush of the field.\<close>

definition ctl_color_edit :: "u32 \<times> u32 \<times> u32" where
  "ctl_color_edit = (TEXT, FIELD, FIELD)"

definition get_def_id :: u32 where
  "get_def_id = push_bit 16 0x534B OR word_of_nat ID_PRIMARY"

text \<open>\<open>WM_SETFOCUS\<close>: the control that is given the focus.\<close>

definition focus_target :: "app \<Rightarrow> nat option" where
  "focus_target app = (if a_phase app \<noteq> Busy \<and> a_edit app \<noteq> None then Some ID_EDIT else None)"

text \<open>\<open>WM_SETCURSOR\<close> over the control \<open>window\<close>; \<open>dflt\<close> is the answer of \<open>DefWindowProcW\<close>.\<close>

definition set_cursor :: "bool \<Rightarrow> nat \<Rightarrow> int \<Rightarrow> int" where
  "set_cursor hand window dflt =
     (let clickable = (window = ID_LINK \<or> window = ID_EYE \<or> window = ID_CLOSE \<or> window = ID_PRIMARY)
      in if clickable \<and> hand then 1 else dflt)"

definition hit_test :: "int \<Rightarrow> int" where
  "hit_test hit = (if hit = 1 then 2 else hit)"

text \<open>
  The dialog manager takes the low half of the answer for the identifier of the default button:
  Enter starts the operation, wherever the button is.
\<close>

lemma enter_is_primary:
  "unat (get_def_id AND 0xFFFF) = ID_PRIMARY" "drop_bit 16 get_def_id = 0x534B"
  "wndproc dp now (Command (unat (get_def_id AND 0xFFFF))) app = on_primary app"
  by (simp_all add: get_def_id_def ID_PRIMARY_def wndproc_def)

text \<open>The hand appears over the drawn buttons and only there.\<close>

lemma hand_over_buttons:
  "c \<in> set (dialog_controls sc cw m) \<Longrightarrow> set_cursor True (c_id c) 0 = 1 \<longleftrightarrow> has_style BS_OWNERDRAW c"
  by (cases m) (auto simp: set_cursor_def control_defs Let_def id_defs style_defs)

end
