(* ===== verification/Clipboard.thy ===== *)
theory Clipboard
  imports Registry Dialog
begin

text \<open>
  \<open>copy_to_clipboard\<close> of \<open>crates/vault-app/src/ui.rs\<close>, behind the Copy button of the setup dialog, and
  the way of a recovery code through the clipboard into a dialog that asks for it. Every call of
  the clipboard and of the global heap may fail; \<open>clip_calls\<close> says which do not. The system owns a
  block of memory once \<open>SetClipboardData\<close> has accepted it. A block is the list of units copied into
  it; its address, its size in bytes and the raw copy are not represented.
\<close>

section \<open>The code\<close>

record clip_calls =
  can_open :: bool
  can_empty :: bool
  can_alloc :: bool
  can_lock :: bool
  can_set :: bool

record clipboard =
  cb_text :: "u16 list option"
  cb_open :: bool
  cb_blocks :: nat

text \<open>\<open>cb_blocks\<close> counts the blocks that are allocated and belong to the program.\<close>

definition open_clipboard :: "clip_calls \<Rightarrow> clipboard \<Rightarrow> bool \<times> clipboard" where
  "open_clipboard F cb = (if can_open F \<and> \<not> cb_open cb then (True, cb\<lparr>cb_open := True\<rparr>) else (False, cb))"

definition empty_clipboard :: "clip_calls \<Rightarrow> clipboard \<Rightarrow> clipboard" where
  "empty_clipboard F cb = (if can_empty F \<and> cb_open cb then cb\<lparr>cb_text := None\<rparr> else cb)"

definition set_clipboard_data :: "clip_calls \<Rightarrow> u16 list \<Rightarrow> clipboard \<Rightarrow> clipboard" where
  "set_clipboard_data F block cb =
     (if can_set F \<and> cb_open cb then cb\<lparr>cb_text := Some block, cb_blocks := cb_blocks cb - 1\<rparr> else cb)"

definition copy_to_clipboard :: "clip_calls \<Rightarrow> uchar list \<Rightarrow> clipboard \<Rightarrow> clipboard" where
  "copy_to_clipboard F text cb =
     (let data = wide text
      in case open_clipboard F cb of
           (False, cb) \<Rightarrow> cb
         | (True, cb) \<Rightarrow>
             let cb = empty_clipboard F cb;
                 cb = (if can_alloc F
                       then let cb = cb\<lparr>cb_blocks := cb_blocks cb + 1\<rparr>
                            in if can_lock F then set_clipboard_data F data cb else cb
                       else cb)
             in cb\<lparr>cb_open := False\<rparr>)"

section \<open>What the clipboard holds\<close>

text \<open>
  The clipboard is closed again; it holds the whole text, what it held, or nothing. The text is
  there exactly when every call but the emptying succeeds, and a block is lost when only the
  locking or the handing over fails.
\<close>

lemma copy_outcome:
  assumes "\<not> cb_open cb"
  shows "\<not> cb_open (copy_to_clipboard F text cb)"
    and "cb_text (copy_to_clipboard F text cb) \<in> {Some (wide text), cb_text cb, None}"
    and "can_open F \<Longrightarrow> can_alloc F \<Longrightarrow> can_lock F \<Longrightarrow> can_set F \<Longrightarrow>
      cb_text (copy_to_clipboard F text cb) = Some (wide text)"
    and "cb_blocks (copy_to_clipboard F text cb) =
      cb_blocks cb + (if can_open F \<and> can_alloc F \<and> \<not> (can_lock F \<and> can_set F) then 1 else 0)"
  using assms by (auto simp: copy_to_clipboard_def open_clipboard_def empty_clipboard_def set_clipboard_data_def Let_def)

text \<open>A program that pastes reads up to the terminator.\<close>

definition pasted :: "u16 list \<Rightarrow> u16 list" where
  "pasted us = takeWhile (\<lambda>u. u \<noteq> 0) us"

definition plain_ascii :: "uchar \<Rightarrow> bool" where
  "plain_ascii c \<longleftrightarrow> 0 < unat c \<and> unat c < 128"

lemma encode_ascii: "list_all plain_ascii s \<Longrightarrow> encode_utf16 s = map (\<lambda>c. word_of_nat (unat c)) s"
  by (induction s) (auto simp: plain_ascii_def utf16_char_def Let_def)

lemma pasted_ascii:
  assumes "list_all plain_ascii s"
  shows "pasted (wide s) = encode_utf16 s"
proof -
  have "(word_of_nat (unat c) :: u16) \<noteq> 0" if "plain_ascii c" for c
  proof -
    have "unat c < 2 ^ 16" using that by (simp add: plain_ascii_def)
    then have "unat (word_of_nat (unat c) :: u16) = unat c" by (simp add: unsigned_ucast_eq take_bit_nat_eq_self)
    then show ?thesis using that by (metis less_irrefl plain_ascii_def unat_0)
  qed
  then have "\<forall>u \<in> set (encode_utf16 s). u \<noteq> 0"
    using assms by (auto simp: encode_ascii list_all_iff)
  then show ?thesis by (simp add: pasted_def wide_def takeWhile_tail takeWhile_append2)
qed

lemma ascii_scalar: "list_all plain_ascii s \<Longrightarrow> list_all scalar s"
  by (auto simp: list_all_iff plain_ascii_def scalar_def)

section \<open>Recovery codes\<close>

lemma set_join_sep: "set (join_sep x gs) \<subseteq> insert x (\<Union>(set ` set gs))"
  by (induction x gs rule: join_sep.induct) auto

lemma CROCKFORD_ascii: "v < 32 \<Longrightarrow> plain_ascii (ucast (CROCKFORD ! v))"
proof -
  assume "v < 32"
  then have "CROCKFORD ! v \<in> set CROCKFORD" by (intro nth_mem) (simp add: CROCKFORD_def)
  moreover have "\<forall>b \<in> set CROCKFORD. plain_ascii (ucast b)" by (simp add: CROCKFORD_def plain_ascii_def)
  ultimately show ?thesis by blast
qed

lemma length_join_chunks: "length xs = 4 * Suc n \<Longrightarrow> length (join_sep x (chunks4 xs)) = 5 * n + 4"
proof (induction n arbitrary: xs)
  case 0
  then show ?case by (cases xs) simp_all
next
  case (Suc n)
  then obtain a as where xs: "xs = a # as" by (cases xs) auto
  have l: "length (drop 4 xs) = 4 * Suc n" using Suc.prems by simp
  then obtain g gs where g: "chunks4 (drop 4 xs) = g # gs" by (cases "drop 4 xs") auto
  have "chunks4 xs = take 4 xs # g # gs" using g by (simp add: xs)
  moreover have "length (join_sep x (g # gs)) = 5 * n + 4" using Suc.IH [OF l] g by simp
  ultimately show ?case using Suc.prems by simp
qed

text \<open>A printed code consists of ASCII characters, and is shorter than the buffer of the dialog.\<close>

lemma printed_code:
  assumes "length secret = 32" and "sha_len_ok cr"
  shows "list_all plain_ascii (encode_code cr secret)" and "length (encode_code cr secret) = 69"
proof -
  from encode_data [OF assms(1), of "[]"] obtain vs where
    vs: "encode_base32 secret 52 [] = map ((!) CROCKFORD) vs" "length vs = 52" "list_all (\<lambda>v. v < 32) vs" by auto
  have "length (take 3 (sha256 cr secret)) = 3" using assms(2) by (simp add: sha_len_ok_def)
  from encode_check [OF this] obtain ws where
    ws: "\<And>out. encode_base32 (take 3 (sha256 cr secret)) 4 out = out @ map ((!) CROCKFORD) ws"
      "length ws = 4" "list_all (\<lambda>v. v < 32) ws" by blast
  define cs :: "uchar list" where "cs = map (\<lambda>v. ucast (CROCKFORD ! v)) (vs @ ws)"
  have code: "encode_code cr secret = join_sep 0x2D (chunks4 cs)"
    by (simp add: encode_code_def CODE_DATA_CHARS_def CODE_CHECK_CHARS_def vs(1) ws(1) cs_def comp_def)
  have "list_all plain_ascii cs"
    using vs(3) ws(3) CROCKFORD_ascii by (auto simp: cs_def list_all_iff)
  moreover have "plain_ascii 0x2D" by (simp add: plain_ascii_def)
  ultimately show "list_all plain_ascii (encode_code cr secret)"
    using set_join_sep [of "0x2D" "chunks4 cs"] concat_chunks4 [of cs]
    by (auto simp: code list_all_iff dest!: subsetD simp flip: set_concat)
  show "length (encode_code cr secret) = 69"
    unfolding code using length_join_chunks [of cs 13] vs(2) ws(2) by (simp add: cs_def)
qed

text \<open>
  C37: Whatever call fails, copying a recovery code leaves the clipboard closed and with the whole
  code, with what it held, or empty. If the calls that matter succeed, the code that is pasted into
  a dialog that asks for it is the one shown, and opens the data keys sealed to its key pair.
\<close>

theorem copied_code_opens:
  assumes "gcm_laws cr" and "dh_laws cr" and "sha_len_ok cr" and "length dk = 32"
    and "generate_master cr r0 = (kp, r1)" and "a_mode app = SetupMode (mk_code kp)"
    and "a_clipboard (on_toggle_master app) = Some code" and "\<not> cb_open cb"
  shows "\<not> cb_open (copy_to_clipboard F code cb)
    \<and> cb_text (copy_to_clipboard F code cb) \<in> {Some (wide code), cb_text cb, None}
    \<and> (can_open F \<and> can_alloc F \<and> can_lock F \<and> can_set F \<longrightarrow>
        (\<exists>us. cb_text (copy_to_clipboard F code cb) = Some us
          \<and> get_text (Some (e\<lparr>e_text := pasted us\<rparr>)) = mk_code kp
          \<and> open_dk cr (get_text (Some (e\<lparr>e_text := pasted us\<rparr>))) (fst (seal_dk cr (mk_public kp) dk r)) = Some dk))"
proof -
  have code: "code = mk_code kp" using assms(6,7) by (simp add: on_toggle_master_def set_status_def)
  have "mk_code kp = encode_code cr (map r0 [0..<32])"
    using assms(5) by (auto simp: generate_master_def fill_bytes_def)
  then have ascii: "list_all plain_ascii (mk_code kp)" and len: "length (mk_code kp) = 69"
    using printed_code [OF _ assms(3), of "map r0 [0..<32]"] by simp_all
  have typed: "get_text (Some (e\<lparr>e_text := pasted (wide code)\<rparr>)) = mk_code kp"
    using utf16_roundtrip_all [OF ascii_scalar [OF ascii]] len
    by (simp add: code get_text_def pasted_ascii [OF ascii] encode_ascii [OF ascii])
  have key: "open_dk cr (mk_code kp) (fst (seal_dk cr (mk_public kp) dk r)) = Some dk"
    using open_seal_dk [OF assms(1-4) retyped_same, of r0 r] assms(5) by simp
  show ?thesis
  proof (intro conjI impI)
    assume "can_open F \<and> can_alloc F \<and> can_lock F \<and> can_set F"
    then have "cb_text (copy_to_clipboard F code cb) = Some (wide code)" using copy_outcome(3) [OF assms(8)] by simp
    then show "\<exists>us. cb_text (copy_to_clipboard F code cb) = Some us
        \<and> get_text (Some (e\<lparr>e_text := pasted us\<rparr>)) = mk_code kp
        \<and> open_dk cr (get_text (Some (e\<lparr>e_text := pasted us\<rparr>))) (fst (seal_dk cr (mk_public kp) dk r)) = Some dk"
      using typed key by simp
  qed (rule copy_outcome(1,2) [OF assms(8)])+
qed

theorem copied_code_opens_witness:
  "\<exists>us. cb_text (copy_to_clipboard \<lparr>can_open = True, can_empty = False, can_alloc = True, can_lock = True, can_set = True\<rparr>
        (mk_code (fst (generate_master toy_crypto (\<lambda>i. of_nat i)))) \<lparr>cb_text = None, cb_open = False, cb_blocks = 0\<rparr>) = Some us
    \<and> open_dk toy_crypto (get_text (Some ((mk_edit True)\<lparr>e_text := pasted us\<rparr>)))
        (fst (seal_dk toy_crypto (mk_public (fst (generate_master toy_crypto (\<lambda>i. of_nat i)))) (replicate 32 7) (\<lambda>i. 1)))
      = Some (replicate 32 7)"
proof -
  let ?kp = "fst (generate_master toy_crypto (\<lambda>i. of_nat i))"
  let ?app = "new_app (SetupMode (mk_code ?kp)) [] None"
  have "a_clipboard (on_toggle_master ?app) = Some (mk_code ?kp)" "a_mode ?app = SetupMode (mk_code ?kp)"
    by (simp_all add: on_toggle_master_def set_status_def new_app_def)
  then show ?thesis
    using copied_code_opens [of toy_crypto "replicate 32 7" "\<lambda>i. of_nat i" ?kp "snd (generate_master toy_crypto (\<lambda>i. of_nat i))"
        ?app "mk_code ?kp" "\<lparr>cb_text = None, cb_open = False, cb_blocks = 0\<rparr>"
        "\<lparr>can_open = True, can_empty = False, can_alloc = True, can_lock = True, can_set = True\<rparr>" "mk_edit True" "\<lambda>i. 1"]
    by auto
qed

end
