(* ===== verification/Bounds.thy ===== *)
theory Bounds
  imports Dialog
begin

text \<open>
  Bounds on what the code does with a container that anybody may have written: how much work the
  structural check makes of it, the range of the failure counter in its header, which the front
  ends compute with, and how much an extraction can write.
\<close>

section \<open>Counting system calls\<close>

text \<open>
  The interface of a measure of effort: doing nothing is free, and effort adds up along a
  sequence of steps. An operation of the error monad costs what its parts cost.
\<close>

locale effort =
  fixes C :: "nat \<Rightarrow> 's \<Rightarrow> 's \<Rightarrow> bool"
  assumes free: "C n s s" and more: "C m s t \<Longrightarrow> m \<le> n \<Longrightarrow> C n s t" and seq: "C m s t \<Longrightarrow> C n t u \<Longrightarrow> C (m + n) s u"
begin

lemma bindE:
  assumes "C m s (snd (f s))" and "\<And>x t. f s = (Inr x, t) \<Longrightarrow> C n t (snd (g x t))"
  shows "C (m + n) s (snd (bindE f g s))"
proof (cases "f s")
  case (Pair x t)
  show ?thesis
  proof (cases x)
    case (Inl e)
    with assms(1) Pair show ?thesis by (auto simp: bindE_def intro: more)
  next
    case (Inr y)
    with assms Pair have "C m s t" "C n t (snd (g y t))" by simp_all
    from seq [OF this] Pair Inr show ?thesis by (simp add: bindE_def)
  qed
qed

lemma mapE: "C n s (snd (f s)) \<Longrightarrow> C n s (snd (mapE h f s))"
  by (simp add: mapE_state)

lemma pure: "C 0 s (snd (liftR x s))" "C 0 s (snd (throwE e s))" "C 0 s (snd (returnE y s))"
  by (simp_all add: free)

lemma last_step: "C n s (snd (f s)) \<Longrightarrow> C n s (snd (bindE f (\<lambda>x. returnE (h x)) s))"
  using bindE [of n s f 0 "\<lambda>x. returnE (h x)"] pure(3) by simp

end

text \<open>\<open>costs n w w'\<close>: at most \<open>n\<close> system calls were made, and they changed nothing.\<close>

definition costs :: "nat \<Rightarrow> world \<Rightarrow> world \<Rightarrow> bool" where
  "costs n w w' \<longleftrightarrow> only_ticks w w' \<and> w_tick w' \<le> w_tick w + n"

interpretation calls: effort costs
  by unfold_locales (auto simp: costs_def intro: only_ticks_trans)

lemma costs_reads:
  "costs 1 w (snd (open_read E p w))" "costs 1 w (snd (read_exact E n r w))" "costs 1 w (snd (read_some E n r w))"
  by (auto simp: costs_def open_read_def read_exact_def read_some_def sysop_def unspoiled_def only_ticks_def Let_def
      split: option.split node.split)

lemma costs_read_frame: "costs 3 w (snd (read_frame E mx r w))"
proof -
  have "costs (1 + (1 + (1 + 0))) w (snd (read_frame_into E mx r w))"
    unfolding read_frame_into_def case_prod_unfold Let_def
    by (intro calls.bindE calls.mapE costs_reads) (auto intro!: calls.pure calls.more [OF calls.last_step [OF calls.mapE [OF costs_reads(2)]]] simp: calls.free)
  then have "costs (3 + 0) w (snd (read_frame E mx r w))"
    unfolding read_frame_def case_prod_unfold by (intro calls.bindE) (simp_all add: numeral_3_eq_3 calls.free)
  then show ?thesis by simp
qed

lemma costs_verify_frame: "costs 3 w (snd (verify_frame E r w))"
proof -
  have "costs (1 + (1 + (1 + 0))) w (snd (verify_frame E r w))"
    unfolding verify_frame_def case_prod_unfold Let_def
    by (intro calls.bindE calls.mapE costs_reads) (auto intro!: calls.pure calls.more [OF calls.last_step [OF calls.mapE [OF costs_reads(2)]]] simp: calls.free)
  then show ?thesis by (simp add: numeral_3_eq_3)
qed

text \<open>Every frame that passes takes at least 32 bytes of the file and four calls.\<close>

lemma verify_frame_consumes: "verify_frame E r w = (Inr r', w') \<Longrightarrow> length r' + 31 \<le> length r"
  by (auto simp: verify_frame_def bindE_Inr_iff mapE_Inr_iff Let_def NONCE_LEN_def TAG_LEN_def
      dest!: read_exact_Inr split: if_splits)

lemma costs_verify_loop: "costs (4 * (length r div 32 + 1)) w (snd (verify_loop E r frames w))"
proof (induction E r frames w rule: verify_loop.induct)
  case (1 E r frames w)
  obtain x w1 where rd: "read_some E 1 r w = (x, w1)" by fastforce
  have c1: "costs 1 w w1" using costs_reads(3) [of w E 1 r] unfolding rd by simp
  show ?case
  proof (cases x)
    case (Inl e)
    then show ?thesis using rd c1 by (subst verify_loop.simps) (auto intro: calls.more)
  next
    case (Inr y)
    obtain probe rest where y: "y = (probe, rest)" by fastforce
    show ?thesis
    proof (cases "probe = []")
      case True
      then show ?thesis using rd c1 Inr y by (subst verify_loop.simps) (auto intro: calls.more)
    next
      case False
      have len: "length rest < length r"
        using read_some_Inr [of E 1 r w probe rest w1] rd Inr y False by (cases r) auto
      obtain z w2 where vf: "verify_frame E rest w1 = (z, w2)" by fastforce
      have "costs 3 w1 w2" using costs_verify_frame [of w1 E rest] by (simp add: vf)
      with c1 have c2: "costs 4 w w2" using only_ticks_trans by (force simp: costs_def)
      show ?thesis
      proof (cases z)
        case (Inl e)
        then show ?thesis using rd vf c2 Inr y False by (subst verify_loop.simps) (auto intro: calls.more)
      next
        case z: (Inr rest2)
        have l: "length rest2 div 32 + 1 \<le> length r div 32"
          using verify_frame_consumes [of E rest w1 rest2 w2] vf z len by simp
        have "costs (4 * (length rest2 div 32 + 1)) w2 (snd (verify_loop E rest2 (frames + 1) w2))"
          using "1.IH" [OF rd [symmetric] Inr y [symmetric] False vf [symmetric] z] .
        with c2 have "costs (4 + 4 * (length rest2 div 32 + 1)) w (snd (verify_loop E rest2 (frames + 1) w2))"
          using only_ticks_trans by (force simp: costs_def)
        then have "costs (4 * (length r div 32 + 1)) w (snd (verify_loop E rest2 (frames + 1) w2))"
          by (rule calls.more) (use l in simp)
        then show ?thesis using rd vf Inr y False z by (subst verify_loop.simps) simp
      qed
    qed
  qed
qed

lemma verify_loop_count: "verify_loop E r frames w = (Inr n, w') \<Longrightarrow> \<exists>k. n = frames + word_of_nat k \<and> 32 * k \<le> length r"
proof -
  assume "verify_loop E r frames w = (Inr n, w')"
  then obtain fs where fs: "list_all chunk_frame fs" "r = concat (map frame_bytes fs)" "n = frames + word_of_nat (length fs)"
    using verify_loop_Inr by blast
  have "32 * length fs \<le> length (concat (map frame_bytes fs))" if "list_all chunk_frame fs" for fs
    using that
  proof (induction fs)
    case (Cons f fs)
    then have "32 \<le> length (frame_bytes f)"
      by (cases f) (simp add: frame_bytes_def frame_ok_def NONCE_LEN_def TAG_LEN_def)
    with Cons show ?case by simp
  qed simp
  with fs show ?thesis by blast
qed

lemma read_frame_shrinks: "read_frame E mx r w = (Inr x, w') \<Longrightarrow> length (snd (snd x)) + 32 \<le> length r"
  by (auto simp: read_frame_def read_frame_into_def bindE_Inr_iff mapE_Inr_iff Let_def NONCE_LEN_def TAG_LEN_def
      dest!: read_exact_Inr split: if_splits)

lemma verify_structure_count:
  assumes "verify_structure cr E c k w = (Inr m, w')"
  shows "\<exists>d. lookup w c = Some (File d) \<and> 32 * unat m + 300 \<le> length (f_content d)"
proof -
  from assms obtain f w1 hb r w2 x w3 where f: "open_read E c w = (Inr f, w1)" and h: "read_exact E HEADER_LEN f w1 = (Inr (hb, r), w2)"
    and m: "read_frame E MAX_MANIFEST_LEN r w2 = (Inr x, w3)" and l: "verify_loop E (snd (snd x)) 0 w3 = (Inr m, w')"
    by (auto simp: verify_structure_def bindE_Inr_iff mapE_Inr_iff) 
  have "length r + 268 = length f" using read_exact_Inr [OF h] by (auto simp: HEADER_LEN_def)
  moreover have "length (snd (snd x)) + 32 \<le> length r" using m by (rule read_frame_shrinks)
  moreover obtain j where "m = word_of_nat j" "32 * j \<le> length (snd (snd x))" using verify_loop_count [OF l] by auto
  moreover have "unat (word_of_nat j :: u64) \<le> j" by (simp add: unat_of_nat)
  ultimately have "32 * unat m + 300 \<le> length f" by simp
  with open_read_Inr [OF f] show ?thesis by auto
qed

section \<open>The header of a container in use\<close>

text \<open>
  \<open>typed_header\<close>: the fields have the lengths of the Rust types, and the lockout fields are in a
  state that the lockout machine can be in: fewer than three failures and no lockout, or three
  failures and the time of a lockout. It is what the front ends rely on when they show
  \<open>MAX_ATTEMPTS - fail_count\<close>.
\<close>

definition typed_header :: "header \<Rightarrow> bool" where
  "typed_header h \<longleftrightarrow> wf_header h \<and> lockout_inv (h_lockout h)"

text \<open>Credentials tried one after the other at the given times, each by a run of the program.\<close>

definition attempt_all :: "crypto \<Rightarrow> os \<Rightarrow> path \<Rightarrow> byte list \<Rightarrow> (credential \<times> u64) list \<Rightarrow> world \<Rightarrow> world" where
  "attempt_all cr E c k as w = fold (\<lambda>(cred, now) w. snd (open_and_authorize cr E c cred k now w)) as w"

lemma three_failures: "fail_count s = 2 \<Longrightarrow> locked_until s = 0 \<Longrightarrow> clock_ok now \<Longrightarrow> lockout_inv (snd (record_failure s now))"
  using clock_ok_add(2) [of now] by (simp add: record_failure_third lockout_inv_def)

text \<open>A failure recorded on the header as the check sees it, a foreign one clamped to one attempt.\<close>

lemma clamped_failure_typed:
  assumes "lockout_inv (h_lockout h)" and "clock_ok now" and "admits (h_lockout (clamp_foreign h)) now"
  shows "lockout_inv (snd (record_failure (h_lockout (clamp_foreign h)) now))"
proof (cases "clamp_foreign h = h")
  case True
  with assms show ?thesis using record_failure_step(1) by (simp add: after_failure_def)
next
  case False
  let ?s = "h_lockout (clamp_foreign h)"
  have s: "fail_count ?s = 2" using False by (auto simp: clamp_foreign_def MAX_ATTEMPTS_def split: if_splits)
  show ?thesis
  proof (cases "locked_until ?s = 0")
    case True
    with s assms(2) show ?thesis by (intro three_failures)
  next
    case False
    then have "locked_until ?s \<le> now" using assms(3) by (simp add: admits_iff)
    with False show ?thesis by (simp add: record_failure_expired lockout_inv_def word_less_nat_alt)
  qed
qed

lemma decided_state_typed:
  assumes "lockout_inv (h_lockout h)" and "clock_ok now" and "snd (decide cr cred now (clamp_foreign h)) = Some l"
  shows "lockout_inv l"
proof (cases cred)
  case (Password pw)
  then show ?thesis
    using assms(3) clamped_failure_typed [OF assms(1,2)]
    by (auto simp: decide_def admits_def split: sum.splits option.splits)
next
  case (MasterCode code)
  then show ?thesis using assms(3) by (auto simp: decide_def split: option.splits if_splits)
qed

lemma container_typed:
  assumes "container_file cr k w c h rest ro"
  shows "wf_header h" and "no_fail E \<Longrightarrow> fst (inspect cr E c k w) = Inr h"
proof -
  from assms obtain d hb where d: "lookup w c = Some (File d)" "f_content d = hb @ rest" "length hb = HEADER_LEN"
    "from_bytes cr k hb = Inr h" by (auto simp: container_file_def)
  show "wf_header h" using from_bytes_wf [OF d(4)] d(3) by (simp add: HEADER_LEN_def)
  assume nf: "no_fail E"
  have o: "open_read E c w = (Inr (hb @ rest), w\<lparr>w_tick := Suc (w_tick w)\<rparr>)"
    using d(1,2) by (simp add: open_read_def sysop_runs [OF nf] lookup_def)
  show "fst (inspect cr E c k w) = Inr h"
    using o read_exact_runs [OF nf d(3)] d(4) by (simp add: inspect_def bindE_def mapE_def)
qed

lemma attempt_keeps_typed:
  assumes "no_fail E" and "hmac_len_ok cr" and "container_file cr k w c h rest ro" and "lockout_inv (h_lockout h)" and "clock_ok now"
  obtains g ro' where "container_file cr k (snd (open_and_authorize cr E c cred k now w)) c g rest ro'" and "same_keys h g"
    and "lockout_inv (h_lockout g)"
proof -
  obtain w' g where w': "w' = snd (open_and_authorize cr E c cred k now w)"
    and g: "container_file cr k w' c g rest (ro \<and> isl (fst (decide cr cred now (clamp_foreign h))) \<and> \<not> kdf_refuses cr cred now (clamp_foreign h))"
      "same_keys h g" "case snd (decide cr cred now (clamp_foreign h)) of None \<Rightarrow> g = h | Some l \<Rightarrow> h_lockout g = l \<and> hmac_ok g"
    using authorize_runs [OF assms(1,3,2), of cred now] by (metis snd_conv)
  have "lockout_inv (h_lockout g)"
    using g(3) decided_state_typed [OF assms(4,5), of cr cred] assms(4) by (auto split: option.splits)
  with g(1,2) w' show ?thesis by (intro that) simp_all
qed

lemma attempts_keep_typed:
  assumes "no_fail E" and "hmac_len_ok cr"
  shows "container_file cr k w c h rest ro \<Longrightarrow> lockout_inv (h_lockout h) \<Longrightarrow> list_all (\<lambda>(_, now). clock_ok now) as \<Longrightarrow>
    \<exists>g ro'. container_file cr k (attempt_all cr E c k as w) c g rest ro' \<and> same_keys h g \<and> lockout_inv (h_lockout g)"
proof (induction as arbitrary: w h ro)
  case Nil
  then show ?case by (auto simp: attempt_all_def)
next
  case (Cons a as)
  obtain cred now where a: "a = (cred, now)" by fastforce
  obtain g ro1 where g: "container_file cr k (snd (open_and_authorize cr E c cred k now w)) c g rest ro1" "same_keys h g"
    "lockout_inv (h_lockout g)"
    using attempt_keeps_typed [OF assms Cons.prems(1,2), of now cred] Cons.prems(3) a by auto
  from Cons.IH [OF g(1,3)] Cons.prems(3) g(2) show ?case
    by (auto simp: a attempt_all_def intro: same_keys_trans)
qed

text \<open>A new container starts in that state, and a dialog can be opened on one that is in it.\<close>

lemma new_container_typed:
  assumes "content_at w c content" and "sealed_container cr bc k pw content h dk entries datas" and "hmac_len_ok cr"
  shows "typed_header h \<and> (\<exists>rest ro. container_file cr k w c h rest ro)"
proof -
  obtain payload where p: "content = to_bytes cr k h @ payload" and h: "wf_header h" "h_lockout h = lockout_default" "hmac_ok h"
    using assms(2) by (auto simp: sealed_container_def)
  obtain d where d: "lookup w c = Some (File d)" "f_content d = content" using assms(1) by (auto simp: content_at_def)
  have "h\<lparr>hmac_ok := True\<rparr> = h" using h(3) by simp
  then have "from_bytes cr k (to_bytes cr k h) = Inr h" using to_bytes_parses [OF h(1) assms(3)] by metis
  moreover have "length (to_bytes cr k h) = HEADER_LEN" using length_to_bytes [OF h(1) assms(3)] by (simp add: HEADER_LEN_def)
  ultimately have "container_file cr k w c h payload (f_readonly d)" using d p by (auto simp: container_file_def)
  with h show ?thesis by (auto simp: typed_header_def)
qed

lemma dialog_opens_on_typed:
  assumes "no_fail (host_os H)" and "container_of m = Some c" and "container_file (host_crypto H) key w c h rest ro" and "lockout_inv (h_lockout h)"
  shows "counts_ok H key m w"
proof -
  have "fail_count (h_lockout h) \<le> MAX_ATTEMPTS"
    using assms(4) by (auto simp: lockout_inv_def MAX_ATTEMPTS_def split: if_splits)
  then show ?thesis using container_typed(2) [OF assms(3,1)] assms(2) by (simp add: counts_ok_def)
qed

text \<open>
  What the premise of the property is for: a container of another install whose counter was
  edited to three or more, with no time, gets the next wrong password counted on top and is
  authenticated by this install, with a counter that no state of the lockout machine has.
\<close>

lemma edited_counter_is_adopted:
  assumes "no_fail E" and "container_file cr k w c h rest ro" and "hmac_len_ok cr" and "\<not> hmac_ok h"
    and "locked_until (h_lockout h) = 0" and "3 \<le> fail_count (h_lockout h)" and "fail_count (h_lockout h) < -1" and "wrong_for cr h pw"
  obtains g ro' where "container_file cr k (snd (open_and_authorize cr E c (Password pw) k now w)) c g rest ro'" and "hmac_ok g"
    and "MAX_ATTEMPTS < fail_count (h_lockout g)"
proof -
  let ?s = "h_lockout h"
  have nc: "clamp_foreign h = h"
    using assms(6) by (auto simp: clamp_foreign_def MAX_ATTEMPTS_def word_less_nat_alt word_le_nat_alt)
  have wrap: "fail_count ?s + 1 \<noteq> 0" using assms(7) by (metis eq_neg_iff_add_eq_0 less_irrefl)
  have u: "unat (fail_count ?s + 1) = unat (fail_count ?s) + 1" using wrap by (metis add.commute unatSuc Suc_eq_plus1)
  then have big: "MAX_ATTEMPTS < fail_count ?s + 1" "MAX_ATTEMPTS \<le> fail_count ?s + 1"
    using assms(6) by (simp_all add: MAX_ATTEMPTS_def word_less_nat_alt word_le_nat_alt)
  obtain kek where kek: "derive_kek cr pw (h_salt h) (h_kdf h) = Inr kek" "unwrap_key cr kek (wrapped_dk_pw h) = None"
    using assms(8) by (auto simp: wrong_for_def)
  have "snd (decide cr (Password pw) now (clamp_foreign h)) = Some (snd (record_failure ?s now))"
    using kek assms(5) by (simp add: nc decide_def lockout_check_def)
  note decided = this
  have count: "fail_count (snd (record_failure ?s now)) = fail_count ?s + 1"
    using assms(5) big(2) by (simp add: record_failure_def Let_def)
  obtain w' g where w': "w' = snd (open_and_authorize cr E c (Password pw) k now w)"
    and g: "container_file cr k w' c g rest (ro \<and> isl (fst (decide cr (Password pw) now (clamp_foreign h)))
        \<and> \<not> kdf_refuses cr (Password pw) now (clamp_foreign h))"
      "case snd (decide cr (Password pw) now (clamp_foreign h)) of None \<Rightarrow> g = h | Some l \<Rightarrow> h_lockout g = l \<and> hmac_ok g"
    using authorize_runs [OF assms(1-3), of "Password pw" now] by (metis snd_conv)
  have "h_lockout g = snd (record_failure ?s now)" "hmac_ok g" using g(2) by (simp_all add: decided)
  then have "hmac_ok g" "MAX_ATTEMPTS < fail_count (h_lockout g)" using count big(1) by metis+
  with g(1) w' show ?thesis by (intro that) simp_all
qed

section \<open>Properties\<close>

text \<open>
  C39: The structural check ends, whatever the file holds and however the machine behaves, with
  work that is linear in the size of the file: for a file of \<open>n\<close> bytes it makes at most
  \<open>n div 8 + 9\<close> system calls, each a read that leaves the disk as it was, whatever lengths and
  counts the file claims; and it never reports more frames than fit the file.
\<close>

theorem verify_structure_terminates:
  "let n = (case lookup w c of Some (File d) \<Rightarrow> length (f_content d) | _ \<Rightarrow> 0);
       (r, w') = verify_structure cr E c k w
   in only_ticks w w' \<and> w_tick w' \<le> w_tick w + n div 8 + 9
      \<and> (case r of Inr frames \<Rightarrow> 32 * unat frames + 300 \<le> n | Inl _ \<Rightarrow> True)"
proof -
  define n where "n = (case lookup w c of Some (File d) \<Rightarrow> length (f_content d) | _ \<Rightarrow> 0)"
  obtain r w' where vs: "verify_structure cr E c k w = (r, w')" by fastforce
  have len: "length f \<le> n" if "open_read E c w = (Inr f, w1)" for f w1
    using open_read_Inr [OF that] by (auto simp: n_def)
  have loop: "costs (4 * (n div 32 + 1)) w4 (snd (verify_loop E r3 0 w4))" if "length r3 \<le> n" for r3 w4
    using costs_verify_loop by (rule calls.more) (use that div_le_mono in auto)
  have "costs (1 + (1 + (0 + (3 + 4 * (n div 32 + 1))))) w w'"
  proof -
    have "costs (1 + (1 + (0 + (3 + 4 * (n div 32 + 1))))) w (snd (verify_structure cr E c k w))"
      unfolding verify_structure_def case_prod_unfold
    proof (rule calls.bindE [OF calls.mapE [OF costs_reads(1)]], rule calls.bindE [OF calls.mapE [OF costs_reads(2)]])
      fix f w1 x w2
      assume f: "mapE Io (open_read E c) w = (Inr f, w1)" and x: "mapE Io (read_exact E HEADER_LEN f) w1 = (Inr x, w2)"
      have "length (snd x) \<le> n"
        using f x len read_exact_Inr [of E HEADER_LEN f w1 "fst x" "snd x" w2] by (force simp: mapE_Inr_iff)
      then show "costs (0 + (3 + 4 * (n div 32 + 1))) w2 (snd (bindE (liftR (from_bytes cr k (fst x)))
          (\<lambda>_. bindE (read_frame E MAX_MANIFEST_LEN (snd x)) (\<lambda>p. verify_loop E (snd (snd p)) 0)) w2))"
        by (intro calls.bindE calls.pure costs_read_frame loop) (auto dest!: read_frame_shrinks)
    qed
    then show ?thesis by (simp add: vs)
  qed
  then have c: "only_ticks w w'" "w_tick w' \<le> w_tick w + n div 8 + 9" by (auto simp: costs_def)
  moreover have "case r of Inr frames \<Rightarrow> 32 * unat frames + 300 \<le> n | Inl _ \<Rightarrow> True"
    using verify_structure_count [of cr E c k w _ w'] vs by (force simp: n_def split: sum.split)
  ultimately show ?thesis by (simp add: n_def [symmetric] vs)
qed

text \<open>
  C40: The header of a container stays well typed in use. For a container as any installation of
  the program writes it, every sequence of attempts with passwords and recovery codes, right or
  wrong and at any times, leaves a header whose fields have their fixed lengths and whose counter
  is in a state of the lockout machine: at most three failures, and three exactly when it is
  locked. It is the header that \<open>inspect\<close> then shows the dialog, and the keys are the same. A
  new container starts in that state (\<open>new_container_typed\<close>).
\<close>

theorem attempts_keep_header_typed:
  assumes "no_fail E" and "hmac_len_ok cr" and "container_file cr k w c h rest ro" and "typed_header h"
    and "list_all (\<lambda>(_, now). clock_ok now) as"
  shows "\<exists>g ro'. container_file cr k (attempt_all cr E c k as w) c g rest ro' \<and> typed_header g \<and> same_keys h g
    \<and> fst (inspect cr E c k (attempt_all cr E c k as w)) = Inr g"
proof -
  have "lockout_inv (h_lockout h)" using assms(4) by (simp add: typed_header_def)
  from attempts_keep_typed [OF assms(1-3) this assms(5)] obtain g ro' where
    g: "container_file cr k (attempt_all cr E c k as w) c g rest ro'" "same_keys h g" "lockout_inv (h_lockout g)" by blast
  with container_typed(1) [OF g(1)] container_typed(2) [OF g(1) assms(1)] show ?thesis
    by (auto simp: typed_header_def)
qed

theorem attempts_keep_header_typed_witness:
  "\<exists>g ro'. container_file toy_crypto [9]
       (attempt_all toy_crypto calm [''c''] [9] [(Password [1], 100), (Password [2], 9000), (MasterCode [], 9001)] enrolled_disk)
       [''c''] g [5] ro' \<and> typed_header g"
proof -
  have "typed_header enrolled_header"
    using enrolled_wf by (simp add: typed_header_def lockout_inv_def enrolled_header_def)
  moreover have "list_all (\<lambda>(_, now). clock_ok now) [(Password [1], 100), (Password [2], 9000), (MasterCode [], 9001)]"
    by (simp add: clock_ok_def LOCKOUT_SECS_def word_le_nat_alt)
  ultimately show ?thesis
    using attempts_keep_header_typed [OF no_fail_calm toy_hmac_len enrolled_disk_file] by blast
qed

section \<open>What an extraction can write\<close>

text \<open>
  Whatever the manifest claims, each chunk of a file is at least 32 bytes shorter than its frame, so
  the files of an extraction that succeeds are smaller together than the part of the container it
  read: a small container cannot fill the disk.
\<close>

lemma chunk_consumes:
  assumes "gcm_laws cr" and "chunk_frame f" and "open_in_place cr cc seq (fst f) (snd f) = Inr p"
  shows "length (frame_bytes f) = length p + 32"
proof -
  have "gcm_decrypt cr (cc_key cc) (fst f) (cc_aad cc seq) (snd f) = Some p"
    using assms(3) by (auto simp: open_in_place_def split: option.splits)
  then have "length (snd f) = length p + 16" using assms(1) unfolding gcm_laws_def by blast
  then show ?thesis using assms(2) by (simp add: frame_bytes_def frame_ok_def NONCE_LEN_def)
qed

lemma extract_chunks_consumes:
  assumes "gcm_laws cr"
  shows "extract_chunks cr E cc target plen remaining r seq dn w = (Inr (r', seq', dn'), w') \<Longrightarrow>
    unat remaining + length r' \<le> length r"
proof (induction "unat remaining" arbitrary: remaining r seq dn w rule: less_induct)
  case less
  show ?case
  proof (cases "remaining = 0")
    case True
    with less.prems show ?thesis by (simp add: extract_chunks_turn)
  next
    case False
    let ?n = "next_chunk remaining"
    from less.prems(1) False obtain nonce frame r1 w1 plain w2 u where
      rd: "read_frame_into E (CHUNK_SIZE + TAG_LEN) r w = (Inr (nonce, frame, r1), w1)"
      and op: "open_in_place cr cc seq nonce frame = Inr plain" and len: "length plain = ?n"
      and rec: "extract_chunks cr E cc target plen (remaining - word_of_nat ?n) r1 (seq + 1) (dn + word_of_nat ?n)
          (note_progress (dn + word_of_nat ?n) plen w2) = (Inr (r', seq', dn'), w')"
      by (subst (asm) extract_chunks_turn)
         (auto simp: bindE_Inr_iff mapE_Inr_iff report_def Let_def split: if_splits)
    have "length r = ?n + 32 + length r1"
      using read_frame_into_Inr [OF rd] chunk_consumes [OF assms, of "(nonce, frame)"] op len by auto
    moreover note less.hyps [OF next_chunk_less [OF False] rec] next_chunk_decreases [OF False]
    ultimately show ?thesis by (simp add: next_chunk_def)
  qed
qed

lemma extracted_at_most_container:
  assumes "gcm_laws cr"
  shows "extract_entries cr E cc root plen es r seq dn w = (Inr u, w') \<Longrightarrow>
    sum_list (map (\<lambda>e. unat (e_size e)) (files_of es)) \<le> length r"
proof (induction es arbitrary: r seq dn w)
  case (Cons e es)
  obtain p where sj: "safe_join root (rel_path e) = Inr p"
    using Cons.prems by (cases "safe_join root (rel_path e)") auto
  show ?case
  proof (cases "e_is_dir e")
    case True
    with Cons.prems sj obtain w1 where "extract_entries cr E cc root plen es r seq dn w1 = (Inr u, w')"
      by (auto simp: bindE_Inr_iff mapE_Inr_iff)
    from Cons.IH [OF this] True show ?thesis by simp
  next
    case False
    from extract_file_steps [OF Cons.prems False sj] obtain r1 seq1 dn1 w2 w3 w6 where
      "extract_chunks cr E cc p plen (e_size e) r seq dn w2 = (Inr (r1, seq1, dn1), w3)"
      "extract_entries cr E cc root plen es r1 seq1 dn1 w6 = (Inr u, w')" by metis
    from extract_chunks_consumes [OF assms this(1)] Cons.IH [OF this(2)] False show ?thesis
      by simp
  qed
qed simp

end
