(* ===== verification/Unit_Tests.thy ===== *)
theory Unit_Tests
  imports Secrets Safe_Path Recovery
begin

text \<open>
  The unit tests at the ends of \<open>lockout.rs\<close>, \<open>crypto.rs\<close>, \<open>format.rs\<close>, \<open>recovery.rs\<close>, \<open>trash.rs\<close> and
  \<open>secrets.rs\<close>, run against the model. A test is the conjunction of its assertions, over the
  arguments of the functions it calls (the cryptography, the environment, the random numbers);
  a call that is unwrapped must succeed. The lemmas show that every environment without I/O
  errors passes them. Left out are the tests that compare outputs of the cryptography for
  different keys or salts, which no law of the model relates, and the assertion of the first test of
  \<open>secrets.rs\<close> about what the data protection API puts into its output.
\<close>

section \<open>lockout.rs\<close>

definition three_failures_arm_the_lockout :: bool where
  "three_failures_arm_the_lockout \<longleftrightarrow>
     (let t = 1000000;
          (e1, s) = record_failure lockout_default t;
          (e2, s) = record_failure s t;
          (e3, s) = record_failure s t
      in e1 = WrongPassword 2 \<and> e2 = WrongPassword 1 \<and> e3 = LockedOut (t + LOCKOUT_SECS)
         \<and> isl (lockout_check s (t + LOCKOUT_SECS - 1)) \<and> \<not> isl (lockout_check s (t + LOCKOUT_SECS)))"

definition clock_rollback_does_not_shorten_the_lockout :: bool where
  "clock_rollback_does_not_shorten_the_lockout \<longleftrightarrow>
     (let t = 1800000000;
          s = ((\<lambda>s. snd (record_failure s t)) ^^ 3) lockout_default
      in isl (lockout_check s (t - 31536000)))"

definition expired_lockout_starts_a_fresh_window :: bool where
  "expired_lockout_starts_a_fresh_window \<longleftrightarrow>
     (let t = 1000000;
          s = ((\<lambda>s. snd (record_failure s t)) ^^ 3) lockout_default;
          later = t + LOCKOUT_SECS + 5
      in \<not> isl (lockout_check s later) \<and> fst (record_failure s later) = WrongPassword 2)"

definition reset_clears_state :: bool where
  "reset_clears_state \<longleftrightarrow> lockout_reset (snd (record_failure lockout_default 10)) = lockout_default"

lemmas lockout_code = record_failure_def lockout_check_def lockout_default_def lockout_reset_def
  MAX_ATTEMPTS_def LOCKOUT_SECS_def

lemma lockout_tests:
  "three_failures_arm_the_lockout" "clock_rollback_does_not_shorten_the_lockout"
  "expired_lockout_starts_a_fresh_window" "reset_clears_state"
  by (simp_all add: three_failures_arm_the_lockout_def clock_rollback_does_not_shorten_the_lockout_def
      expired_lockout_starts_a_fresh_window_def reset_clears_state_def lockout_code numeral_3_eq_3 Let_def)

section \<open>crypto.rs\<close>

definition test_kdf :: kdf_params where
  "test_kdf = \<lparr>m_cost_kib = 1024, t_cost = 1, lanes = 1\<rparr>"

definition kdf_params_reject_out_of_range :: "crypto \<Rightarrow> bool" where
  "kdf_params_reject_out_of_range cr \<longleftrightarrow>
     (let huge = \<lparr>m_cost_kib = 0xFFFFFFFF, t_cost = 3, lanes = 4\<rparr>
      in isl (kdf_validate huge)
         \<and> isl (derive_kek cr [0x70, 0x77] (replicate 16 0) huge)
         \<and> isl (kdf_validate \<lparr>m_cost_kib = 0, t_cost = 3, lanes = 4\<rparr>)
         \<and> isl (kdf_validate \<lparr>m_cost_kib = 64 * 1024, t_cost = 0, lanes = 4\<rparr>)
         \<and> isl (kdf_validate \<lparr>m_cost_kib = 64 * 1024, t_cost = 3, lanes = 999\<rparr>)
         \<and> \<not> isl (kdf_validate kdf_default) \<and> \<not> isl (kdf_validate test_kdf))"

lemma kdf_tests: "kdf_params_reject_out_of_range cr"
  by (simp add: kdf_params_reject_out_of_range_def kdf_validate_def derive_kek_def bindR_def kdf_default_def test_kdf_def
      MIN_M_COST_KIB_def MAX_M_COST_KIB_def MAX_T_COST_def MAX_LANES_def Let_def word_le_nat_alt)

section \<open>format.rs\<close>

text \<open>The name in Cyrillic and Japanese script is given by the bytes of its UTF-8 encoding.\<close>

definition foreign_name :: string where
  "foreign_name = map char_of ([0xD1, 0x84, 0xD0, 0xB0, 0xD0, 0xB9, 0xD0, 0xBB, 0x2D, 0xE6, 0x97, 0xA5, 0xE6, 0x9C, 0xAC,
     0xE8, 0xAA, 0x9E, 0x2E, 0x74, 0x78, 0x74] :: nat list)"

definition safe_join_rejects_escapes :: bool where
  "safe_join_rejects_escapes \<longleftrightarrow>
     (let root = [''out'']
      in list_all (\<lambda>n. \<not> isl (safe_join root n))
           [''a/b.txt'', ''sub/inner/file.dat'', foreign_name, ''console.log'', ''com10.txt'']
         \<and> list_all (\<lambda>n. isl (safe_join root n))
           [''..'', ''a/../../b'', ''/etc/passwd'', ''C:/windows/system32'', '''', ''secret.txt:hidden'', ''a/b:c'',
            ''CON'', ''com1.txt'', ''sub/NUL'', ''LpT9'', ''a<b'', ''name '', ''name.'']
         \<and> \<not> (case safe_join root ''a/b:c'' of Inr p \<Rightarrow> prefix root p | Inl _ \<Rightarrow> False))"

lemma names_accepted:
  "list_all (\<lambda>n. \<not> isl (safe_join [''out''] n)) [''a/b.txt'', ''sub/inner/file.dat'', ''console.log'', ''com10.txt'']"
  by (simp add: join_eval path_push_def) (simp add: safe_eval)

lemma foreign_accepted: "safe_join [''out''] foreign_name = Inr [''out'', foreign_name]"
proof -
  have "is_safe_component foreign_name" by code_simp
  then show ?thesis using safe_join_join_slash [of "[foreign_name]" "[''out'']"] by simp
qed

lemma escapes_rejected:
  "list_all (\<lambda>n. isl (safe_join [''out''] n)) [''..'', ''a/../../b'', ''/etc/passwd'', ''C:/windows/system32'', '''']"
  by (simp add: join_eval)

lemma names_rejected:
  "list_all (\<lambda>n. isl (safe_join [''out''] n))
     [''secret.txt:hidden'', ''a/b:c'', ''CON'', ''com1.txt'', ''sub/NUL'', ''LpT9'', ''a<b'', ''name '', ''name.'']"
  by (simp add: join_eval) (simp add: safe_eval)

lemma safe_join_tests: "safe_join_rejects_escapes"
  using names_accepted foreign_accepted escapes_rejected names_rejected
  by (auto simp: safe_join_rejects_escapes_def Let_def split: sum.split)

section \<open>recovery.rs\<close>

text \<open>\<open>to_lowercase().replace('-', " ").replace('1', "l")\<close>, on the characters of a printed code.\<close>

definition messy :: "uchar list \<Rightarrow> uchar list" where
  "messy code =
     (let lower = map (\<lambda>c. if 0x41 \<le> c \<and> c \<le> 0x5A then c + 0x20 else c) code;
          spaced = map (\<lambda>c. if c = 0x2D then 0x20 else c) lower
      in map (\<lambda>c. if c = 0x31 then 0x6C else c) spaced)"

definition code_roundtrip_with_formatting_noise :: "crypto \<Rightarrow> rng \<Rightarrow> bool" where
  "code_roundtrip_with_formatting_noise cr r \<longleftrightarrow>
     (let kp = fst (generate_master cr r)
      in case decode_code cr (mk_code kp) of
           None \<Rightarrow> False
         | Some sk \<Rightarrow> decode_code cr (messy (mk_code kp)) = Some sk)"

definition absent_wrap_is_not_enrolled :: bool where
  "absent_wrap_is_not_enrolled \<longleftrightarrow> \<not> is_enrolled (replicate MASTER_WRAP_LEN 0)"

lemma letter_case: "0x41 \<le> c \<Longrightarrow> c + 0x20 \<noteq> 0x2D \<and> c + 0x20 \<noteq> 0x31" for c :: uchar
proof -
  assume "0x41 \<le> c"
  then have "c \<noteq> 0x2D - 0x20" "c \<noteq> 0x31 - 0x20" by auto
  then show ?thesis by (simp only: eq_diff_eq) simp
qed

lemma retyped_messy: "retyped cs (messy cs)"
proof (induction cs)
  case (Cons c cs)
  have m: "messy (c # cs) = hd (messy [c]) # messy cs" by (simp add: messy_def)
  have "same_symbol c (hd (messy [c]))" if "c \<noteq> 0x2D"
    using that letter_case [of c]
    by (cases "0x41 \<le> c \<and> c \<le> 0x5A"; cases "c = 0x31") (simp_all add: messy_def same_symbol_def)
  then consider "c = 0x2D" | "same_symbol c (hd (messy [c]))" by blast
  then show ?case
  proof cases
    case 1
    then have "messy (c # cs) = 0x20 # messy cs" unfolding m by (simp add: messy_def)
    then show ?thesis
      using Cons.IH 1 by (simp add: retyped.dropped retyped.inserted is_sep_def)
  next
    case 2
    then show ?thesis unfolding m using Cons.IH by (intro retyped.symbol)
  qed
qed (simp add: messy_def retyped.nothing)

lemma recovery_tests:
  assumes "sha_len_ok cr"
  shows "code_roundtrip_with_formatting_noise cr r" and "absent_wrap_is_not_enrolled"
proof -
  define sk where "sk = map r [0..<32]"
  have l: "length sk = 32" by (simp add: sk_def)
  have "mk_code (fst (generate_master cr r)) = encode_code cr sk"
    by (simp add: generate_master_def fill_bytes_def sk_def)
  then show "code_roundtrip_with_formatting_noise cr r"
    using decode_encode_code [OF l assms] retyped_decodes [OF l assms retyped_messy]
    by (simp add: code_roundtrip_with_formatting_noise_def Let_def)
  show "absent_wrap_is_not_enrolled"
    by (simp add: absent_wrap_is_not_enrolled_def is_enrolled_def list_ex_iff)
qed

section \<open>trash.rs\<close>

text \<open>\<open>dir\<close> is the fresh directory of \<open>tempfile::tempdir\<close>.\<close>

definition fresh_dir :: "world \<Rightarrow> path \<Rightarrow> bool" where
  "fresh_dir w dir \<longleftrightarrow> (\<forall>q. prefix q dir \<longrightarrow> is_dir_path w q) \<and> (\<forall>q. prefix dir q \<longrightarrow> q \<noteq> dir \<longrightarrow> lookup w q = None)"

definition recycle_removes_the_file :: "os \<Rightarrow> path \<Rightarrow> world \<Rightarrow> bool" where
  "recycle_removes_the_file E dir w =
     (let f = dir @ [''gone.txt'']
      in case bindE (write_file E f [0x62, 0x79, 0x65]) (\<lambda>_. recycle E f) w of
           (Inl _, w) \<Rightarrow> False
         | (Inr _, w) \<Rightarrow> \<not> exists_path w f)"

definition recycle_removes_a_directory :: "os \<Rightarrow> path \<Rightarrow> world \<Rightarrow> bool" where
  "recycle_removes_a_directory E dir w =
     (let sub = dir @ [''subdir'']
      in case bindE (create_dir E sub) (\<lambda>_. bindE (write_file E (sub @ [''a.txt'']) [0x78]) (\<lambda>_. recycle E sub)) w of
           (Inl _, w) \<Rightarrow> False
         | (Inr _, w) \<Rightarrow> \<not> exists_path w sub)"

definition readonly_of :: "os \<Rightarrow> path \<Rightarrow> bool io" where
  "readonly_of E p = bindE (metadata E p) (\<lambda>n. returnE (node_readonly n))"

definition readonly_roundtrip :: "os \<Rightarrow> path \<Rightarrow> world \<Rightarrow> bool" where
  "readonly_roundtrip E dir w =
     (let f = dir @ [''ro.fvlt'']
      in case bindE (write_file E f [0x64, 0x61, 0x74, 0x61]) (\<lambda>_.
              bindE (set_readonly E f True) (\<lambda>_. bindE (readonly_of E f) (\<lambda>a.
              bindE (set_readonly E f False) (\<lambda>_. bindE (readonly_of E f) (\<lambda>b. returnE (a, b)))))) w of
           (Inl _, w) \<Rightarrow> False
         | (Inr (a, b), w) \<Rightarrow> a \<and> \<not> b)"

lemma write_file_fresh:
  assumes "no_fail E" and "lookup w p = None" and "parent_is_dir w p"
  shows "\<exists>w'. write_file E p bs w = (Inr (), w') \<and> (\<forall>q. lookup w' q =
    (if q = p then Some (File \<lparr>f_content = bs, f_readonly = False, f_mtime = 0\<rparr>) else lookup w q))"
  using assms
  by (auto simp: write_file_def create_file_def append_file_def sysop_runs bindE_def lookup_upd lookup_put_file)

lemma set_readonly_runs:
  assumes "no_fail E" and "lookup w p = Some (File d)"
  shows "\<exists>w'. set_readonly E p ro w = (Inr (), w') \<and> lookup w' p = Some (File (d\<lparr>f_readonly := ro\<rparr>))"
  using assms
  by (auto simp: set_readonly_def metadata_def set_permissions_def sysop_runs bindE_def lookup_put_file exists_path_def)

lemma readonly_of_runs:
  assumes "no_fail E" and "lookup w p = Some (File d)"
  shows "readonly_of E p w = (Inr (f_readonly d), w\<lparr>w_tick := Suc (w_tick w)\<rparr>)"
  using assms by (simp add: readonly_of_def metadata_def sysop_runs bindE_def returnE_def node_readonly_def)

lemma create_dir_fresh:
  assumes "no_fail E" and "lookup w p = None" and "parent_is_dir w p"
  shows "\<exists>w'. create_dir E p w = (Inr (), w') \<and> (\<forall>q. lookup w' q = (if q = p then Some Dir else lookup w q))"
  using assms by (auto simp: create_dir_def sysop_runs lookup_upd occupied_def parent_is_dir_def)

lemma trash_tests:
  assumes "no_fail E" and "fresh_dir w dir"
  shows "recycle_removes_the_file E dir w" and "recycle_removes_a_directory E dir w" and "readonly_roundtrip E dir w"
proof -
  have new: "lookup w (dir @ [n]) = None" "parent_is_dir w (dir @ [n])" for n
    using assms(2) by (simp_all add: fresh_dir_def parent_is_dir_def)
  let ?f = "dir @ [''gone.txt'']" and ?sub = "dir @ [''subdir'']" and ?ro = "dir @ [''ro.fvlt'']"
  from write_file_fresh [OF assms(1) new [of "''gone.txt''"]] obtain w1 d where w1: "write_file E ?f [0x62, 0x79, 0x65] w = (Inr (), w1)"
    "lookup w1 ?f = Some (File d)" by metis
  from recycle_runs [OF assms(1) _ w1(2)] obtain w2 where "recycle E ?f w1 = (Inr (), w2)" "lookup w2 ?f = None" by auto
  with w1(1) show "recycle_removes_the_file E dir w"
    by (simp add: recycle_removes_the_file_def bindE_def exists_path_def)
  from create_dir_fresh [OF assms(1) new [of "''subdir''"]] obtain v1 where v1: "create_dir E ?sub w = (Inr (), v1)"
    "\<And>q. lookup v1 q = (if q = ?sub then Some Dir else lookup w q)" by blast
  have "lookup v1 (?sub @ [''a.txt'']) = None" "parent_is_dir v1 (?sub @ [''a.txt''])"
    using assms(2) v1(2) by (simp_all add: fresh_dir_def parent_is_dir_def is_dir_path_def butlast_append)
  from write_file_fresh [OF assms(1) this, of "[0x78]"] obtain v2 where v2: "write_file E (?sub @ [''a.txt'']) [0x78] v1 = (Inr (), v2)"
    "\<And>q. q \<noteq> ?sub @ [''a.txt''] \<Longrightarrow> lookup v2 q = lookup v1 q" by metis
  have "lookup v2 ?sub = Some Dir" using v2(2) [of ?sub] v1(2) by simp
  from recycle_runs [OF assms(1) _ this] obtain v3 where "recycle E ?sub v2 = (Inr (), v3)" "lookup v3 ?sub = None" by auto
  with v1(1) v2(1) show "recycle_removes_a_directory E dir w"
    by (simp add: recycle_removes_a_directory_def bindE_def exists_path_def)
  from write_file_fresh [OF assms(1) new [of "''ro.fvlt''"]] obtain u1 d1 where u1: "write_file E ?ro [0x64, 0x61, 0x74, 0x61] w = (Inr (), u1)"
    "lookup u1 ?ro = Some (File d1)" by metis
  from set_readonly_runs [OF assms(1) u1(2), of True] obtain u2 where u2: "set_readonly E ?ro True u1 = (Inr (), u2)"
    "lookup u2 ?ro = Some (File (d1\<lparr>f_readonly := True\<rparr>))" by metis
  let ?u2 = "u2\<lparr>w_tick := Suc (w_tick u2)\<rparr>" and ?d2 = "d1\<lparr>f_readonly := True\<rparr>"
  have "lookup ?u2 ?ro = Some (File ?d2)" using u2(2) by simp
  from set_readonly_runs [OF assms(1) this, of False] obtain u3 where u3: "set_readonly E ?ro False ?u2 = (Inr (), u3)"
    "lookup u3 ?ro = Some (File (?d2\<lparr>f_readonly := False\<rparr>))" by metis
  show "readonly_roundtrip E dir w"
    using u1(1) u2(1) u3(1) readonly_of_runs [OF assms(1) u2(2)] readonly_of_runs [OF assms(1) u3(2)]
    by (simp add: readonly_roundtrip_def bindE_def returnE_def)
qed

section \<open>secrets.rs\<close>

definition install_key_persists_and_reloads :: "platform \<Rightarrow> os \<Rightarrow> path \<Rightarrow> world \<Rightarrow> bool" where
  "install_key_persists_and_reloads P E dir w =
     (case bindE (load_or_create_install_key P E dir) (\<lambda>k1.
           bindE (load_or_create_install_key P E dir) (\<lambda>k2.
           bindE (open_read E (dir @ [''install.key''])) (\<lambda>raw. returnE (k1, k2, raw)))) w of
        (Inl _, w) \<Rightarrow> False
      | (Inr (k1, k2, raw), w) \<Rightarrow> k1 = k2 \<and> take 4 raw = DPAPI_MAGIC)"

definition master_pub_roundtrips :: "platform \<Rightarrow> os \<Rightarrow> path \<Rightarrow> world \<Rightarrow> bool" where
  "master_pub_roundtrips P E dir w =
     (let pubkey = replicate 32 0x5A
      in case save_master_pub P E dir pubkey w of
           (Inl _, w) \<Rightarrow> False
         | (Inr _, w) \<Rightarrow> fst (load_master_pub P E dir w) = Some pubkey)"

definition legacy_raw_file_is_accepted :: "platform \<Rightarrow> os \<Rightarrow> path \<Rightarrow> world \<Rightarrow> bool" where
  "legacy_raw_file_is_accepted P E dir w =
     (let legacy = replicate 32 7
      in case bindE (write_file E (dir @ [''install.key'']) legacy) (\<lambda>_. load_or_create_install_key P E dir) w of
           (Inl _, w) \<Rightarrow> False
         | (Inr k, w) \<Rightarrow> k = legacy)"

lemma create_dirs_present: "list_all (is_dir_path w) ps \<Longrightarrow> create_dirs E ps w = (Inr (), w)"
  by (induction ps) simp_all

lemma create_dir_all_present:
  assumes "fresh_dir w dir"
  shows "create_dir_all E dir w = (Inr (), w)"
  unfolding create_dir_all_def
  by (rule create_dirs_present) (use assms take_is_prefix in \<open>auto simp: fresh_dir_def list_all_iff\<close>)

text \<open>Writing a protected file into the fresh directory and reading it back.\<close>

lemma protected_file_fresh:
  assumes "no_fail E" and "fresh_dir w dir" and "platform_ok P" and "protect P b \<noteq> None" and "length b < 4096"
  shows "\<exists>w' d. write_protected P E (dir @ [n]) b w = (Inr (), w') \<and> lookup w' (dir @ [n]) = Some (File d)
    \<and> open_protected P (f_content d) = Inr (Some b) \<and> take 4 (f_content d) = DPAPI_MAGIC"
proof -
  obtain c where c: "protect P b = Some c" using assms(4) by auto
  have "lookup w (dir @ [n]) = None" "parent_is_dir w (dir @ [n])"
    using assms(2) by (simp_all add: fresh_dir_def parent_is_dir_def)
  from write_file_fresh [OF assms(1) this] obtain w' d where "write_file E (dir @ [n]) (DPAPI_MAGIC @ c) w = (Inr (), w')"
    "lookup w' (dir @ [n]) = Some (File d)" "f_content d = DPAPI_MAGIC @ c" by fastforce
  then show ?thesis
    using open_protected_written [OF assms(3) c assms(5)] by (simp add: write_protected_def c DPAPI_MAGIC_def)
qed

lemma fresh_dir_world [simp]: "fresh_dir (w\<lparr>w_tick := t\<rparr>) dir = fresh_dir w dir" "fresh_dir (w\<lparr>w_rng := r\<rparr>) dir = fresh_dir w dir"
  by (simp_all add: fresh_dir_def is_dir_path_def)

lemma load_creates:
  assumes "no_fail E" and "fresh_dir w dir" and "platform_ok P" and "\<And>b. protect P b \<noteq> None"
  shows "\<exists>k w' d. load_or_create_install_key P E dir w = (Inr k, w') \<and> lookup w' (dir @ [''install.key'']) = Some (File d)
    \<and> take 4 (f_content d) = DPAPI_MAGIC"
proof -
  let ?w = "w\<lparr>w_tick := Suc (w_tick w)\<rparr>"
  obtain k r where k: "fill_bytes 32 (w_rng w) = (k, r)" and l: "length k = 32" by (auto simp: fill_bytes_def)
  let ?w1 = "?w\<lparr>w_rng := r\<rparr>"
  have f: "fresh_dir ?w1 dir" using assms(2) by simp
  from l have "length k < 4096" by simp
  from protected_file_fresh [OF assms(1) f assms(3,4) this] obtain w' d where
    w': "write_protected P E (dir @ [''install.key'']) k ?w1 = (Inr (), w')"
    "lookup w' (dir @ [''install.key'']) = Some (File d)" "take 4 (f_content d) = DPAPI_MAGIC" by blast
  have "lookup w (dir @ [''install.key'']) = None" using assms(2) by (simp add: fresh_dir_def)
  then have "read_protected P E (dir @ [''install.key'']) w = (Inr None, ?w)"
    using assms(1) by (simp add: read_protected_def open_read_def sysop_runs)
  moreover have "new_install_key P E dir ?w = (Inr k, w')"
    using create_dir_all_present [of ?w dir E] assms(2) k w'(1)
    by (simp add: new_install_key_def bindE_def returnE_def)
  ultimately have "load_or_create_install_key P E dir w = (Inr k, w')"
    by (simp add: load_or_create_install_key_def bindE_def)
  with w' show ?thesis by blast
qed

lemma secrets_tests:
  assumes "no_fail E" and "fresh_dir w dir" and "platform_ok P" and "\<And>p. protect P p \<noteq> None"
  shows "install_key_persists_and_reloads P E dir w" and "master_pub_roundtrips P E dir w"
    and "legacy_raw_file_is_accepted P E dir w"
proof -
  from load_creates [OF assms] obtain k w1 d where w1: "load_or_create_install_key P E dir w = (Inr k, w1)"
    "lookup w1 (dir @ [''install.key'']) = Some (File d)" "take 4 (f_content d) = DPAPI_MAGIC" by blast
  from load_of_key [OF assms(1) load_Inr [OF w1(1) assms(3)]]
  have "load_or_create_install_key P E dir w1 = (Inr k, w1\<lparr>w_tick := Suc (w_tick w1)\<rparr>)" .
  with w1 show "install_key_persists_and_reloads P E dir w"
    using assms(1) by (simp add: install_key_persists_and_reloads_def bindE_def returnE_def open_read_def sysop_runs)
  have "length (replicate 32 (0x5A :: byte)) < 4096" by simp
  from protected_file_fresh [OF assms(1-4) this] obtain v d2 where
    v: "write_protected P E (dir @ [''master.pub'']) (replicate 32 0x5A) w = (Inr (), v)"
    "lookup v (dir @ [''master.pub'']) = Some (File d2)" "open_protected P (f_content d2) = Inr (Some (replicate 32 0x5A))" by blast
  then show "master_pub_roundtrips P E dir w"
    using create_dir_all_present [OF assms(2)] read_protected_runs [OF assms(1) v(2)]
    by (simp add: master_pub_roundtrips_def save_master_pub_def load_master_pub_def bindE_def)
  have "lookup w (dir @ [''install.key'']) = None" "parent_is_dir w (dir @ [''install.key''])"
    using assms(2) by (simp_all add: fresh_dir_def parent_is_dir_def)
  from write_file_fresh [OF assms(1) this] obtain u d3 where
    u: "write_file E (dir @ [''install.key'']) (replicate 32 7) w = (Inr (), u)"
    "lookup u (dir @ [''install.key'']) = Some (File d3)" "f_content d3 = replicate 32 7" by fastforce
  have "replicate 4 (7 :: byte) = [7, 7, 7, 7]" by (simp add: eval_nat_numeral)
  then have "replicate 4 (7 :: byte) \<noteq> DPAPI_MAGIC" by (simp add: DPAPI_MAGIC_def)
  then have "open_protected P (replicate 32 7) = Inr (Some (replicate 32 7))" by (simp add: open_protected_def)
  then show "legacy_raw_file_is_accepted P E dir w"
    using u read_protected_runs [OF assms(1) u(2)]
    by (simp add: legacy_raw_file_is_accepted_def load_or_create_install_key_def bindE_def returnE_def)
qed

end
