(* ===== verification/Spec2Isabelle.thy ===== *)
theory Spec2Isabelle
  imports Cli Launch Layout Clipboard Bounds Unit_Tests
begin

text \<open>
  \<^bold>\<open>FolderVault.\<close> The program turns a folder into one encrypted file beside it (\<open>X\<close> into
  \<open>X.fvlt\<close>) and back. A library (\<open>crates/vault-core\<close>) does the work; a command line program
  (\<open>crates/vault-cli\<close>), a GUI (\<open>crates/vault-app\<close>) and a command of the Windows 11 context menu
  (\<open>crates/vault-shellext\<close>) start it. This development models all four, file by file.

  \<^bold>\<open>How the parts interact.\<close> A program starts by loading the install key (\<open>secrets.rs\<close>) and
  replaying the journal (\<open>journal.rs\<close>). Locking scans the folder (\<open>walk.rs\<close>), writes a container
  under a temporary name (\<open>format.rs\<close> with \<open>crypto.rs\<close> and \<open>recovery.rs\<close>), records the operation in
  the journal, renames the container into place, removes the folder (\<open>trash.rs\<close>) and closes the
  record. Unlocking checks a credential against the header of the container under the lockout of
  \<open>lockout.rs\<close>, extracts beside the container, renames, and removes the container. Explorer starts
  the GUI through the entries of \<open>shell.rs\<close> or through the shell command; \<open>main.rs\<close> of the GUI shows
  one dialog of \<open>ui.rs\<close>, which runs the operation on a worker thread.

  \<^bold>\<open>Theories and sources.\<close>
  \<^item> \<open>Prelude\<close>: words, buffers, the error monad (\<open>bindE\<close>, \<open>keeps\<close>), little-endian codecs. \<open>Vault_Lib\<close>:
    \<open>lib.rs\<close> (constants, \<open>VaultError\<close> as \<open>verror\<close>).
  \<^item> \<open>Lockout\<close>: \<open>lockout.rs\<close>. \<open>Crypto\<close>: \<open>crypto.rs\<close>. \<open>Header\<close>: \<open>Header\<close> of \<open>format.rs\<close>. \<open>Recovery\<close>:
    \<open>recovery.rs\<close>. \<open>Safe_Path\<close>: \<open>safe_join\<close> of \<open>format.rs\<close> with the components of \<open>std::path\<close> on Windows.
  \<^item> \<open>Filesys\<close>: \<open>std::fs\<close> as far as it is used, and \<open>trash.rs\<close>. \<open>Walk\<close>: \<open>walk.rs\<close>. \<open>Frames\<close>: frames and
    \<open>verify_structure\<close>. \<open>Container\<close>: \<open>write_container\<close>, \<open>wipe_tree\<close>, \<open>extract_entries\<close>,
    \<open>rewrite_header\<close>. \<open>Authorize\<close>: \<open>open_and_authorize\<close>, \<open>verify_and_delete\<close>. \<open>Extract\<close>: what an
    extraction leaves on disk. \<open>Journal\<close>: \<open>journal.rs\<close>. \<open>Vault\<close>: \<open>lock_folder\<close>, \<open>unlock_container\<close>.
    \<open>Crash\<close>: recovery after a crash. \<open>Roundtrip\<close>: locking followed by unlocking. \<open>Errors\<close>: which errors
    are reported. \<open>Bounds\<close>: bounds for hostile or edited containers.
  \<^item> \<open>Unicode\<close>: UTF-8 and UTF-16 of the standard library. \<open>Secrets\<close>: \<open>secrets.rs\<close>. \<open>Host\<close>: the machine both
    programs run on, and their start. \<open>Cli\<close>: \<open>vault-cli/src/main.rs\<close>. \<open>Registry\<close>: \<open>shell.rs\<close>. \<open>Dialog\<close>: the
    state machine of \<open>ui.rs\<close>; \<open>View\<close>: its painting; \<open>Scaling\<close> and \<open>Layout\<close>: lengths in single precision, the
    window, its fonts and child windows; \<open>Clipboard\<close>: \<open>copy_to_clipboard\<close>. \<open>App\<close>: \<open>vault-app/src/main.rs\<close>.
    \<open>Shellext\<close>: \<open>vault-shellext/src/lib.rs\<close>. \<open>Launch\<close>: command lines, from Explorer to \<open>main\<close>.
  \<^item> \<open>Unit_Tests\<close>: the unit tests of the library, run against the model.

  \<^bold>\<open>State and operations.\<close> The state of the library is the \<open>world\<close>: the file system as a table from
  paths to nodes, the Recycle Bin, the random numbers still to come, the number of system calls
  made so far (\<open>w_tick\<close>), and the progress reported. An operation is a function from worlds to a
  result and a world (\<open>'a vio\<close>, \<open>'a io\<close>); every \<open>?\<close> and every error return of the source is a branch
  of it. The environment \<open>os\<close> decides for each tick whether the call fails, and what a failing
  call has spoiled; a statement about every \<open>os\<close> is a statement about every pattern of I/O errors,
  and \<open>no_fail\<close> says that there are none. Reading files goes through the list of bytes not yet
  read. The registry, the terminal, the dialog and the desktop are records of their own. A dialog
  moves by \<open>dstep\<close>: messages, typing, the end of the worker, the delivery of its messages.

  \<^bold>\<open>Integers\<close> have the width they have in the source (\<open>u32\<close>, \<open>u64\<close>, \<open>byte\<close>, \<open>u16\<close>), and \<open>+\<close> wraps as in a
  release build. Lengths of buffers are \<open>nat\<close>, coordinates on the screen \<open>int\<close>, and a
  non-negative \<open>f32\<close> the number of its smallest units, rounded as the hardware does.

  \<^bold>\<open>Parameters.\<close> Code that is not in the repository is an argument: AES-GCM, Argon2, HMAC, SHA-256 and
  X25519 (record \<open>crypto\<close>, laws \<open>gcm_laws\<close>, \<open>dh_laws\<close>, \<open>hmac_len_ok\<close>, \<open>sha_len_ok\<close>), bincode (\<open>codec\<close>, law
  \<open>codec_ok\<close>: what it serialises it reads back), the data protection API (\<open>dpapi\<close>, law \<open>dpapi_ok\<close>),
  \<open>SHFileOperationW\<close> (\<open>os_shell\<close>), the default window procedure (\<open>dp\<close>), Explorer and \<open>ShellExecuteW\<close>
  (\<open>shell_ok\<close>), QueryInterface (\<open>qi\<close>), the calls of the clipboard (\<open>clip_calls\<close>), the resolution of
  the screen. Each law holds of the concrete instance that the witnesses use.

  \<^bold>\<open>Groups of lemmas.\<close> \<open>keeps\<close> and \<open>changes_only\<close> (named collections \<open>touches\<close>, \<open>growing\<close>, \<open>key_safe\<close>) say what
  an operation leaves alone whatever fails; the \<open>_Inr\<close> lemmas what a successful call did; the
  \<open>_runs\<close> lemmas (collection \<open>runs\<close>) that a call succeeds without failures. The interfaces are
  locales, interpreted where they are provided: \<open>fixed_codec\<close>, \<open>radix\<close>, \<open>tree_store\<close>,
  \<open>self_delimiting\<close>, \<open>attempt_limiter\<close>, \<open>error_class\<close>, \<open>protection\<close>, \<open>effort\<close>, \<open>scaling\<close>. \<open>Lockout\<close> refines an abstract
  machine of two phases; \<open>decide\<close> in \<open>Authorize\<close> specifies a check and \<open>header_left\<close> the container it
  leaves, \<open>header_layout\<close> the bytes of a header, \<open>holds_folder\<close> a container, \<open>entries_restored\<close> the
  folder a manifest describes, \<open>asked_and_confirmed\<close> a setup dialog that succeeded, \<open>truthful\<close> and \<open>dialog_inv\<close> the dialog, \<open>registered\<close> the shell integration.

  \<^bold>\<open>What is shown.\<close> Nothing is lost: however a lock or an unlock ends, by errors or by a crash and
  its recovery, each file is in the folder or in a complete container (\<open>Vault\<close>, \<open>Crash\<close>), and a
  lock followed by an unlock restores the folder (\<open>Roundtrip\<close>). A recovery that meets no I/O error
  brings a killed lock to its end, back or forward (\<open>Crash\<close>). Guessing is bounded: three
  passwords a day, on disk, across runs (\<open>Lockout\<close>, \<open>Authorize\<close>), with the counters staying in
  range (\<open>Bounds\<close>); what a container of another installation allows is stated for every value of
  its two fields (\<open>Authorize\<close>). The integration into Explorer repairs itself at a launch in the
  cases its check looks for, and only in those (\<open>Registry\<close>). A container cannot write outside its folder (\<open>Safe_Path\<close>), nor extract to more
  than its own size, nor keep the check busy (\<open>Bounds\<close>). Codes, headers, frames, records and key
  files are read back as written. The front ends report success only when it is one (\<open>Cli\<close>, \<open>Dialog\<close>),
  enrol a recovery key only when its code was confirmed (\<open>App\<close>), and work on the path that was
  chosen (\<open>Launch\<close>). The controls of a dialog never overlap, but fit its window only where nothing is scaled (\<open>Layout\<close>), and
  a recovery code survives the clipboard (\<open>Clipboard\<close>). Properties that also show where the code
  falls short of its comments say so in their text.

  \<^bold>\<open>Bounds and fuel.\<close> No definition uses fuel: loops over bytes, frames, chunks and arguments are
  functions with a measure, the traversal of a folder is bounded by the depth of its table. The
  number of system calls of \<open>verify_structure\<close> is bounded in \<open>Bounds\<close>. The clock is assumed to be a
  day before the end of 64 bits (\<open>clock_ok\<close>) where \<open>now + LOCKOUT_SECS\<close> must not wrap, and byte
  totals below \<open>2 ^ 64\<close> where percentages are computed.

  \<^bold>\<open>Not modelled.\<close> The class and the DWM attributes of the window and the drawing of single pixels
  (they carry no state), the rendering of text, the wording of formatted messages,
  \<open>SHChangeNotify\<close>, memory hygiene (\<open>zeroize\<close>), other processes that change files during an
  operation, reordering of writes by the disk at a power failure, the reference counts of COM
  objects, \<open>build.rs\<close>, the installer scripts, and the integration tests. A worker's operation is one
  step of the dialog; what an unfinished one leaves behind is the subject of \<open>Vault\<close> and \<open>Crash\<close>.
\<close>

end
